(* ===== verification/Prelude.thy ===== *)
theory Prelude
  imports Complex_Main "HOL-Library.AList" "HOL-Library.Sublist"
begin

text \<open>
  Shared vocabulary of the development.

  \<^item> Text: a Python \<^verbatim>\<open>str\<close> whose characters matter (the stream package) is a list of
    Unicode code points; identifiers, keys and status names, which the code only compares
    and concatenates, are HOL strings.
  \<^item> Dictionaries: a Python \<^verbatim>\<open>dict\<close> keeps insertion order and overwrites in place, which is
    exactly \<^const>\<open>AList.update\<close> on association lists.
  \<^item> Coroutines: a statement that may raise is a function from the state to a result and the
    state it leaves; the state changes made before an exception stay, as they do in Python.
\<close>

named_theorems dict_simps \<open>lookup laws of association lists\<close>
named_theorems py_simps \<open>unfolding of the statement combinators\<close>

section \<open>Text as code points\<close>

type_synonym ustr = "nat list"

definition lit :: "string \<Rightarrow> ustr" where
  "lit s = map of_char s"

abbreviation LF :: nat where "LF \<equiv> 10"
abbreviation CR :: nat where "CR \<equiv> 13"
abbreviation SP :: nat where "SP \<equiv> 32"

lemma lit_Nil [simp]: "lit [] = []"
  by (simp add: lit_def)

lemma lit_append [simp]: "lit (a @ b) = lit a @ lit b"
  by (simp add: lit_def)

lemma lit_eq_Nil_iff [simp]: "lit s = [] \<longleftrightarrow> s = []"
  by (simp add: lit_def)

text \<open>The characters for which \<^verbatim>\<open>str.isspace\<close> holds, which are also those of \<^verbatim>\<open>\s\<close> in a
  \<^verbatim>\<open>str\<close> pattern and those that \<^verbatim>\<open>str.strip\<close> removes.\<close>

definition is_space :: "nat \<Rightarrow> bool" where
  "is_space c \<longleftrightarrow> (9 \<le> c \<and> c \<le> 13) \<or> (28 \<le> c \<and> c \<le> 32) \<or> c = 133 \<or> c = 160 \<or> c = 5760
     \<or> (8192 \<le> c \<and> c \<le> 8202) \<or> c = 8232 \<or> c = 8233 \<or> c = 8239 \<or> c = 8287 \<or> c = 12288"

definition lstrip_by :: "('a \<Rightarrow> bool) \<Rightarrow> 'a list \<Rightarrow> 'a list" where
  "lstrip_by P s = dropWhile P s"

definition rstrip_by :: "('a \<Rightarrow> bool) \<Rightarrow> 'a list \<Rightarrow> 'a list" where
  "rstrip_by P s = rev (dropWhile P (rev s))"

definition strip :: "ustr \<Rightarrow> ustr" where
  "strip s = rstrip_by is_space (lstrip_by is_space s)"

definition startswith :: "'a list \<Rightarrow> 'a list \<Rightarrow> bool" where
  "startswith s p \<longleftrightarrow> take (length p) s = p"

definition endswith :: "'a list \<Rightarrow> 'a list \<Rightarrow> bool" where
  "endswith s p \<longleftrightarrow> length p \<le> length s \<and> drop (length s - length p) s = p"

lemma startswith_iff_prefix: "startswith s p \<longleftrightarrow> prefix p s"
  by (auto simp: startswith_def prefix_def) (metis append_take_drop_id)

lemma endswith_iff_suffix: "endswith s p \<longleftrightarrow> suffix p s"
proof
  assume "endswith s p"
  then show "suffix p s"
    unfolding endswith_def suffix_def by (metis append_take_drop_id)
next
  assume "suffix p s"
  then show "endswith s p" by (auto simp: endswith_def suffix_def)
qed

lemma startswith_append [simp]: "startswith (p @ s) p"
  by (simp add: startswith_def)

lemma endswith_append [simp]: "endswith (s @ p) p"
  by (simp add: endswith_def)

lemma endswith_single: "endswith s [c] \<longleftrightarrow> s \<noteq> [] \<and> last s = c"
  by (auto simp: endswith_iff_suffix suffix_def) (metis append_butlast_last_id)

lemma rstrip_by_id: "s = [] \<or> \<not> P (last s) \<Longrightarrow> rstrip_by P s = s"
  by (cases s rule: rev_cases) (auto simp: rstrip_by_def)

lemma lstrip_by_id: "s = [] \<or> \<not> P (hd s) \<Longrightarrow> lstrip_by P s = s"
  by (cases s) (auto simp: lstrip_by_def)

section \<open>Association lists as dictionaries\<close>

type_synonym ('k, 'v) dict = "('k \<times> 'v) list"

abbreviation dset :: "'k \<Rightarrow> 'v \<Rightarrow> ('k, 'v) dict \<Rightarrow> ('k, 'v) dict" where
  "dset \<equiv> AList.update"

abbreviation ddel :: "'k \<Rightarrow> ('k, 'v) dict \<Rightarrow> ('k, 'v) dict" where
  "ddel \<equiv> AList.delete"

definition dget :: "('k, 'v) dict \<Rightarrow> 'k \<Rightarrow> 'v \<Rightarrow> 'v" where
  "dget d k dflt = (case map_of d k of None \<Rightarrow> dflt | Some v \<Rightarrow> v)"

abbreviation dkeys :: "('k, 'v) dict \<Rightarrow> 'k list" where
  "dkeys d \<equiv> map fst d"

lemma map_of_dset [dict_simps]: "map_of (dset k v d) k' = (if k' = k then Some v else map_of d k')"
  by (simp add: update_conv')

lemma map_of_ddel [dict_simps]: "map_of (ddel k d) k' = (if k' = k then None else map_of d k')"
  by (simp add: delete_conv')

lemma distinct_dset: "distinct (dkeys d) \<Longrightarrow> distinct (dkeys (dset k v d))"
  by (rule distinct_update)

lemma distinct_ddel: "distinct (dkeys d) \<Longrightarrow> distinct (dkeys (ddel k d))"
  by (rule distinct_delete)

lemma dset_new: "k \<notin> set (dkeys d) \<Longrightarrow> dset k v d = d @ [(k, v)]"
  by (induction d) auto

lemma dset_same: "distinct (dkeys d) \<Longrightarrow> map_of d k = Some v \<Longrightarrow> dset k v d = d"
  by (induction d) (auto split: if_splits dest: map_of_SomeD)

lemma length_dset: "length (dset k v d) = (if k \<in> set (dkeys d) then length d else Suc (length d))"
  by (induction d) auto

lemma set_dset: "set (dset k v d) \<subseteq> insert (k, v) (set d)"
  by (induction d) auto

lemma set_ddel: "set (ddel k d) \<subseteq> set d"
  by (induction d) (auto simp: AList.delete_eq)

lemma key_notin_ddel [simp]: "k \<notin> fst ` set (ddel k d)"
  by (auto simp: AList.delete_eq)

lemma length_ddel: "length (ddel k d) \<le> length d"
  by (simp add: AList.delete_eq)

lemma map_of_filter_keep:
  "distinct (dkeys z) \<Longrightarrow> map_of z k = Some v \<Longrightarrow> P (k, v) \<Longrightarrow> map_of (filter P z) k = Some v"
  by (auto simp: distinct_map_filter)

section \<open>Numbers\<close>

text \<open>Python's \<^verbatim>\<open>int(x)\<close> on a float: truncation towards zero.\<close>

definition py_int :: "real \<Rightarrow> int" where
  "py_int x = (if 0 \<le> x then \<lfloor>x\<rfloor> else \<lceil>x\<rceil>)"

lemma py_int_le: "0 \<le> x \<Longrightarrow> of_int (py_int x) \<le> x"
  by (simp add: py_int_def)

section \<open>Exceptions and statements\<close>

text \<open>The exception classes the code distinguishes.  \<^verbatim>\<open>orditect.core.errors\<close> and
  \<^verbatim>\<open>orditect.flow.exceptions\<close> each declare a \<^verbatim>\<open>TaskNotFoundError\<close> and an
  \<^verbatim>\<open>AcquireTimeoutError\<close>: they are different classes, unrelated by inheritance, and stay
  different here.\<close>

datatype exn =
    ValueErr
  | RuntimeErr
  | TimeoutErr
  | CancelledErr \<comment> \<open>\<^verbatim>\<open>asyncio.CancelledError\<close>\<close>
  | CoreTaskNotFound
  | CoreInvalidTransfer
  | CoreAcquireTimeout
  | CoreLimiterUnavailable
  | CoreInvalidUsage
  | FlowTaskNotFound
  | FlowInvalidTransition
  | FlowTaskCancelled
  | FlowAcquireTimeout
  | FlowWorkflowExecution
  | FlowBudgetExhausted
  | StreamBackpressure
  | TerminalStateViolation
  | IdempotencyConflict
  | InvalidQuery
  | ContentNotFound
  | OtherErr string

text \<open>\<^verbatim>\<open>isinstance(e, Exception)\<close>: \<^verbatim>\<open>asyncio.CancelledError\<close> derives from \<^verbatim>\<open>BaseException\<close> only.\<close>

definition is_Exception :: "exn \<Rightarrow> bool" where
  "is_Exception e \<longleftrightarrow> e \<noteq> CancelledErr"

text \<open>Both acquire timeouts also derive from the built-in \<^verbatim>\<open>TimeoutError\<close>.\<close>

definition is_TimeoutError :: "exn \<Rightarrow> bool" where
  "is_TimeoutError e \<longleftrightarrow> e \<in> {TimeoutErr, CoreAcquireTimeout, FlowAcquireTimeout}"

type_synonym ('s, 'a) py = "'s \<Rightarrow> (exn + 'a) \<times> 's"

definition py_return :: "'a \<Rightarrow> ('s, 'a) py" where
  "py_return x s = (Inr x, s)"

definition py_raise :: "exn \<Rightarrow> ('s, 'a) py" where
  "py_raise e s = (Inl e, s)"

definition py_bind :: "('s, 'a) py \<Rightarrow> ('a \<Rightarrow> ('s, 'b) py) \<Rightarrow> ('s, 'b) py" where
  "py_bind m k s = (case m s of (Inl e, s') \<Rightarrow> (Inl e, s') | (Inr x, s') \<Rightarrow> k x s')"

definition py_seq :: "('s, 'a) py \<Rightarrow> ('s, 'b) py \<Rightarrow> ('s, 'b) py" where
  "py_seq m k = py_bind m (\<lambda>_. k)"

text \<open>\<^verbatim>\<open>try: m except P as e: h(e)\<close>.\<close>

definition py_except :: "('s, 'a) py \<Rightarrow> (exn \<Rightarrow> bool) \<Rightarrow> (exn \<Rightarrow> ('s, 'a) py) \<Rightarrow> ('s, 'a) py" where
  "py_except m P h s =
     (case m s of (Inl e, s') \<Rightarrow> if P e then h e s' else (Inl e, s') | (Inr x, s') \<Rightarrow> (Inr x, s'))"

text \<open>\<^verbatim>\<open>try: m finally: f\<close>: an exception of \<^verbatim>\<open>f\<close> replaces the outcome of \<^verbatim>\<open>m\<close>.\<close>

definition py_finally :: "('s, 'a) py \<Rightarrow> ('s, unit) py \<Rightarrow> ('s, 'a) py" where
  "py_finally m f s =
     (case m s of (r, s') \<Rightarrow> (case f s' of (Inl e, s'') \<Rightarrow> (Inl e, s'') | (Inr _, s'') \<Rightarrow> (r, s'')))"

definition py_get :: "('s \<Rightarrow> 'a) \<Rightarrow> ('s, 'a) py" where
  "py_get f s = (Inr (f s), s)"

definition py_modify :: "('s \<Rightarrow> 's) \<Rightarrow> ('s, unit) py" where
  "py_modify f s = (Inr (), f s)"

fun py_for :: "'a list \<Rightarrow> ('a \<Rightarrow> ('s, unit) py) \<Rightarrow> ('s, unit) py" where
  "py_for [] body = py_return ()"
| "py_for (x # xs) body = py_seq (body x) (py_for xs body)"

lemmas py_defs [py_simps] = py_return_def py_raise_def py_bind_def py_seq_def py_except_def
  py_finally_def py_get_def py_modify_def

lemma py_for_append: "py_for (xs @ ys) body s = py_seq (py_for xs body) (py_for ys body) s"
  by (induction xs arbitrary: s) (auto simp: py_seq_def py_bind_def py_return_def split: prod.splits sum.splits)

lemma py_bind_Inr: "m s = (Inr x, s') \<Longrightarrow> py_bind m k s = k x s'"
  by (simp add: py_bind_def)

lemma py_bind_Inl: "m s = (Inl e, s') \<Longrightarrow> py_bind m k s = (Inl e, s')"
  by (simp add: py_bind_def)

lemma py_bind_elim:
  assumes "py_bind m k s = (r, s'')"
  obtains (exc) e where "m s = (Inl e, s'')" "r = Inl e"
    | (ok) x s' where "m s = (Inr x, s')" "k x s' = (r, s'')"
  using assms by (auto simp: py_bind_def split: prod.splits sum.splits)

section \<open>Triples\<close>

text \<open>Partial-correctness triples with a normal and an exceptional postcondition; \<^verbatim>\<open>hoare\<close> collects the
  rules for the statement forms.\<close>

named_theorems hoare \<open>rules for triples\<close>

definition triple :: "('s \<Rightarrow> bool) \<Rightarrow> ('s, 'a) py \<Rightarrow> ('a \<Rightarrow> 's \<Rightarrow> bool) \<Rightarrow> (exn \<Rightarrow> 's \<Rightarrow> bool) \<Rightarrow> bool" where
  "triple P m Q E \<longleftrightarrow> (\<forall>s. P s \<longrightarrow> (case m s of (Inr x, s') \<Rightarrow> Q x s' | (Inl e, s') \<Rightarrow> E e s'))"

lemma tripleD:
  "triple P m Q E \<Longrightarrow> P s \<Longrightarrow> m s = (Inr x, s') \<Longrightarrow> Q x s'"
  "triple P m Q E \<Longrightarrow> P s \<Longrightarrow> m s = (Inl e, s') \<Longrightarrow> E e s'"
  by (auto simp: triple_def)

lemma triple_conseq:
  assumes "triple P' m Q' E'" "\<And>s. P s \<Longrightarrow> P' s" "\<And>x s. Q' x s \<Longrightarrow> Q x s" "\<And>e s. E' e s \<Longrightarrow> E e s"
  shows "triple P m Q E"
  using assms by (fastforce simp: triple_def split: prod.splits sum.splits)

lemma triple_return [hoare]: "(\<And>s. P s \<Longrightarrow> Q x s) \<Longrightarrow> triple P (py_return x) Q E"
  by (simp add: triple_def py_return_def)

lemma triple_raise [hoare]: "(\<And>s. P s \<Longrightarrow> E e s) \<Longrightarrow> triple P (py_raise e) Q E"
  by (simp add: triple_def py_raise_def)

lemma triple_bind:
  assumes "triple P m R E" "\<And>x. triple (R x) (k x) Q E"
  shows "triple P (py_bind m k) Q E"
  using assms by (fastforce simp: triple_def py_bind_def split: prod.splits sum.splits)

lemma triple_seq:
  assumes "triple P m R E" "\<And>x. triple (R x) k Q E"
  shows "triple P (py_seq m k) Q E"
  unfolding py_seq_def by (rule triple_bind[OF assms])

lemma triple_except:
  assumes "triple P m Q E'" "\<And>e. C e \<Longrightarrow> triple (E' e) (h e) Q E" "\<And>e s. \<not> C e \<Longrightarrow> E' e s \<Longrightarrow> E e s"
  shows "triple P (py_except m C h) Q E"
  using assms by (fastforce simp: triple_def py_except_def split: prod.splits sum.splits)

lemma triple_finally:
  assumes "triple P m Q' E'" "\<And>x. triple (Q' x) f (\<lambda>_. Q x) E" "\<And>e. triple (E' e) f (\<lambda>_. E e) E"
  shows "triple P (py_finally m f) Q E"
  using assms by (fastforce simp: triple_def py_finally_def split: prod.splits sum.splits)

lemma triple_get [hoare]: "(\<And>s. P s \<Longrightarrow> Q (f s) s) \<Longrightarrow> triple P (py_get f) Q E"
  by (simp add: triple_def py_get_def)

lemma triple_modify [hoare]: "(\<And>s. P s \<Longrightarrow> Q () (f s)) \<Longrightarrow> triple P (py_modify f) Q E"
  by (simp add: triple_def py_modify_def)

lemma triple_if [hoare]:
  "(c \<Longrightarrow> triple P m Q E) \<Longrightarrow> (\<not> c \<Longrightarrow> triple P n Q E) \<Longrightarrow> triple P (if c then m else n) Q E"
  by simp

lemma triple_for:
  assumes "\<And>x. x \<in> set xs \<Longrightarrow> triple I (body x) (\<lambda>_. I) E"
  shows "triple I (py_for xs body) (\<lambda>_. I) E"
  using assms by (induction xs) (auto intro!: hoare triple_seq)

end
