(* ===== verification/Text_Pipeline.thy ===== *)
theory Text_Pipeline
  imports Prelude
begin

text \<open>
  The text and chunk middlewares of the stream package
  (\<^verbatim>\<open>packages/stream/src/orditect/stream/pipeline/\<close>).  An asynchronous generator is the list of
  the items it yields; a middleware is a function from the list of the chunks it consumes to
  the list of those it yields.  The clock readings \<^verbatim>\<open>time.monotonic()\<close> that the marker detector
  takes once per text chunk are part of its input.
\<close>

section \<open>newline.py\<close>

fun crlf_sub :: "ustr \<Rightarrow> ustr" where
  "crlf_sub [] = []"
| "crlf_sub [c] = [if c = CR then LF else c]"
| "crlf_sub (c # d # cs) =
     (if c = CR then (if d = LF then LF # crlf_sub cs else LF # crlf_sub (d # cs))
      else c # crlf_sub (d # cs))"

function multi_nl_sub :: "ustr \<Rightarrow> ustr" where
  "multi_nl_sub [] = []"
| "multi_nl_sub (c # cs) =
     (if c = LF then LF # multi_nl_sub (dropWhile (\<lambda>d. d = LF) cs) else c # multi_nl_sub cs)"
  by pat_completeness auto
termination
  by (relation "measure length") (auto simp: le_imp_less_Suc length_dropWhile_le)

definition newline_step :: "bool \<Rightarrow> ustr \<Rightarrow> ustr list \<times> bool" where
  "newline_step pending_nl chunk =
     (let t = multi_nl_sub (crlf_sub chunk);
          t = (if pending_nl then LF # lstrip_by (\<lambda>c. c = LF) t else t);
          pending = endswith t [LF];
          t = (if pending then butlast t else t)
      in (if t = [] then [] else [t], pending))"

fun newline_loop :: "bool \<Rightarrow> ustr list \<Rightarrow> ustr list" where
  "newline_loop pending_nl [] = []"
| "newline_loop pending_nl (chunk # chunks) =
     (let (out, pending) = newline_step pending_nl chunk in out @ newline_loop pending chunks)"

definition newline_process :: "ustr list \<Rightarrow> ustr list" where
  "newline_process chunks = newline_loop False chunks"

text \<open>Reference: every maximal run of CR and LF becomes one LF; \<^term>\<open>b\<close> says that the text before
  ends inside such a run.\<close>

fun collapse_newlines :: "bool \<Rightarrow> ustr \<Rightarrow> ustr" where
  "collapse_newlines b [] = []"
| "collapse_newlines b (c # cs) =
     (if c = CR \<or> c = LF then (if b then [] else [LF]) @ collapse_newlines True cs
      else c # collapse_newlines False cs)"

definition in_newline_run :: "bool \<Rightarrow> ustr \<Rightarrow> bool" where
  "in_newline_run b s = (if s = [] then b else last s = CR \<or> last s = LF)"

lemma collapse_newlines_append:
  "collapse_newlines b (s @ t) = collapse_newlines b s @ collapse_newlines (in_newline_run b s) t"
  by (induction b s rule: collapse_newlines.induct) (auto simp: in_newline_run_def)

lemma multi_nl_sub_eq:
  "CR \<notin> set s \<Longrightarrow> multi_nl_sub s = collapse_newlines False s
    \<and> multi_nl_sub (dropWhile (\<lambda>d. d = LF) s) = collapse_newlines True s"
proof (induction s)
  case (Cons c cs)
  then show ?case by auto
qed simp

lemma CR_notin_crlf_sub: "CR \<notin> set (crlf_sub s)"
  by (induction s rule: crlf_sub.induct) auto

lemma collapse_crlf_sub: "collapse_newlines b (crlf_sub s) = collapse_newlines b s"
  by (induction s arbitrary: b rule: crlf_sub.induct) auto

lemma norm_chunk_eq: "multi_nl_sub (crlf_sub s) = collapse_newlines False s"
  using multi_nl_sub_eq[OF CR_notin_crlf_sub, of s] by (simp add: collapse_crlf_sub)

lemma dropWhile_collapse:
  "dropWhile (\<lambda>d. d = LF) (collapse_newlines False s) = collapse_newlines True s"
proof (induction s)
  case (Cons c cs)
  have "dropWhile (\<lambda>d. d = LF) (collapse_newlines True cs) = collapse_newlines True cs" for cs
    by (induction cs) auto
  then show ?case using Cons by auto
qed simp

text \<open>The text a pending flag stands for.\<close>

definition pending_text :: "bool \<Rightarrow> ustr" where
  "pending_text p = (if p then [LF] else [])"

lemma endswith_collapse:
  "endswith (pending_text b @ collapse_newlines b s) [LF] \<longleftrightarrow> in_newline_run b s"
proof (induction b s rule: collapse_newlines.induct)
  case (2 b c cs)
  show ?case
  proof (cases "c = CR \<or> c = LF")
    case True
    then have "pending_text b @ collapse_newlines b (c # cs)
        = pending_text True @ collapse_newlines True cs"
      by (auto simp: pending_text_def)
    moreover have "in_newline_run b (c # cs) = in_newline_run True cs"
      using True by (auto simp: in_newline_run_def)
    ultimately show ?thesis using 2(1)[OF True] by simp
  next
    case False
    then show ?thesis using 2(2)
      by (auto simp: in_newline_run_def pending_text_def endswith_single)
  qed
qed (simp add: pending_text_def endswith_single in_newline_run_def)

lemma newline_step_spec:
  assumes "newline_step p chunk = (out, p')"
  shows "concat out @ pending_text p' = pending_text p @ collapse_newlines p chunk"
    and "p' = in_newline_run p chunk"
proof -
  let ?t = "pending_text p @ collapse_newlines p chunk"
  have t: "(if p then LF # lstrip_by (\<lambda>c. c = LF) (collapse_newlines False chunk)
     else collapse_newlines False chunk) = ?t"
    by (simp add: pending_text_def lstrip_by_def dropWhile_collapse)
  have step: "out = (if (if endswith ?t [LF] then butlast ?t else ?t) = [] then []
       else [if endswith ?t [LF] then butlast ?t else ?t])" "p' = endswith ?t [LF]"
    using assms by (auto simp: newline_step_def norm_chunk_eq t Let_def)
  have split: "?t = butlast ?t @ [LF]" if "endswith ?t [LF]"
    using that by (metis append_butlast_last_id endswith_single)
  have "concat out @ pending_text p' = (if endswith ?t [LF] then butlast ?t else ?t) @ pending_text p'"
    using step(1) by (simp split: if_splits)
  then show "concat out @ pending_text p' = ?t"
    using step(2) split by (cases "endswith ?t [LF]") (simp_all add: pending_text_def[of True] pending_text_def[of False])
  show "p' = in_newline_run p chunk"
    using step(2) by (simp only: endswith_collapse)
qed

lemma newline_loop_spec:
  "\<exists>p'. concat (newline_loop p chunks) @ pending_text p'
      = pending_text p @ collapse_newlines p (concat chunks)
    \<and> p' = in_newline_run p (concat chunks)"
proof (induction chunks arbitrary: p)
  case Nil
  then show ?case by (simp add: in_newline_run_def)
next
  case (Cons chunk chunks)
  obtain out q where step: "newline_step p chunk = (out, q)" by fastforce
  note s = newline_step_spec[OF step]
  have run: "in_newline_run p (chunk @ concat chunks) = in_newline_run q (concat chunks)"
    using s(2) by (auto simp: in_newline_run_def)
  from Cons[of q] have "concat (newline_loop q chunks)
      @ pending_text (in_newline_run q (concat chunks))
     = pending_text q @ collapse_newlines q (concat chunks)" by simp
  then have "concat out @ concat (newline_loop q chunks)
      @ pending_text (in_newline_run q (concat chunks))
     = pending_text p @ collapse_newlines p chunk @ collapse_newlines q (concat chunks)"
    using s(1) by (metis append.assoc)
  then show ?case
    using s(2) run step by (simp add: collapse_newlines_append)
qed

section \<open>tail.py\<close>

definition ws_only :: "ustr \<Rightarrow> bool" where
  "ws_only chunk \<longleftrightarrow> list_all is_space chunk"

fun tail_loop :: "ustr list \<Rightarrow> ustr list \<Rightarrow> ustr list" where
  "tail_loop buffer [] = []"
| "tail_loop buffer (chunk # chunks) =
     (if ws_only chunk then tail_loop (buffer @ [chunk]) chunks
      else buffer @ chunk # tail_loop [] chunks)"

definition tail_process :: "ustr list \<Rightarrow> ustr list" where
  "tail_process chunks = tail_loop [] chunks"

lemma rstrip_by_all: "list_all P xs \<Longrightarrow> rstrip_by P xs = []"
  by (simp add: rstrip_by_def list_all_iff)

lemma rstrip_by_append: "\<not> P x \<Longrightarrow> rstrip_by P (xs @ x # ys) = xs @ x # rstrip_by P ys"
  by (simp add: rstrip_by_def dropWhile_append)

lemma tail_loop_eq:
  "list_all ws_only buffer \<Longrightarrow> tail_loop buffer chunks = rstrip_by ws_only (buffer @ chunks)"
proof (induction buffer chunks rule: tail_loop.induct)
  case (1 buffer)
  then show ?case by (simp add: rstrip_by_all)
next
  case (2 buffer chunk chunks)
  then show ?case by (cases "ws_only chunk") (simp_all add: rstrip_by_append)
qed

section \<open>thinking.py\<close>

record 'r source_chunk =
  sc_text :: "ustr option"
  sc_thinking :: "ustr option"
  sc_references :: "'r list option"
  sc_finish :: bool

definition source_chunk_default :: "'r source_chunk" where
  "source_chunk_default =
     \<lparr>sc_text = None, sc_thinking = None, sc_references = None, sc_finish = False\<rparr>"

definition split_chunk :: "'r source_chunk \<Rightarrow> 'r source_chunk list" where
  "split_chunk chunk =
     (if sc_references chunk \<noteq> None
      then [source_chunk_default\<lparr>sc_references := sc_references chunk\<rparr>] else [])
     @ (if sc_thinking chunk \<noteq> None
        then [source_chunk_default\<lparr>sc_thinking := sc_thinking chunk\<rparr>] else [])
     @ (if sc_text chunk \<noteq> None
        then [source_chunk_default\<lparr>sc_text := sc_text chunk\<rparr>] else [])
     @ (if sc_finish chunk then [source_chunk_default\<lparr>sc_finish := True\<rparr>] else [])"

definition splitter_process :: "'r source_chunk list \<Rightarrow> 'r source_chunk list" where
  "splitter_process chunks = concat (map split_chunk chunks)"

datatype thinking_mode = INLINE | SEPARATE | SUPPRESS

definition demux_step ::
  "thinking_mode \<Rightarrow> ustr list \<Rightarrow> 'r source_chunk \<Rightarrow> 'r source_chunk list \<times> ustr list" where
  "demux_step mode collected chunk =
     (case sc_thinking chunk of
        Some th \<Rightarrow>
          (case mode of INLINE \<Rightarrow> ([chunk], collected)
           | SEPARATE \<Rightarrow> ([], collected @ [th])
           | SUPPRESS \<Rightarrow> ([], collected))
      | None \<Rightarrow> ([chunk], collected))"

fun demux_process ::
  "thinking_mode \<Rightarrow> ustr list \<Rightarrow> 'r source_chunk list \<Rightarrow> 'r source_chunk list \<times> ustr list" where
  "demux_process mode collected [] = ([], collected)"
| "demux_process mode collected (chunk # chunks) =
     (let (out, collected') = demux_step mode collected chunk;
          (outs, collected'') = demux_process mode collected' chunks
      in (out @ outs, collected''))"

definition demux_collect :: "ustr list \<Rightarrow> ustr" where
  "demux_collect collected = concat collected"

definition demux_pop_collected :: "ustr list \<Rightarrow> ustr \<times> ustr list" where
  "demux_pop_collected collected = (demux_collect collected, [])"

text \<open>What a chunk sequence carries, field by field.\<close>

definition texts_of :: "'r source_chunk list \<Rightarrow> ustr list" where
  "texts_of cs = List.map_filter sc_text cs"

definition thinkings_of :: "'r source_chunk list \<Rightarrow> ustr list" where
  "thinkings_of cs = List.map_filter sc_thinking cs"

definition references_of :: "'r source_chunk list \<Rightarrow> 'r list list" where
  "references_of cs = List.map_filter sc_references cs"

definition single_field :: "'r source_chunk \<Rightarrow> bool" where
  "single_field c \<longleftrightarrow>
     (if sc_text c \<noteq> None then 1 else 0) + (if sc_thinking c \<noteq> None then 1 else 0)
     + (if sc_references c \<noteq> None then 1 else 0) + (if sc_finish c then 1 else (0::nat)) = 1"

lemmas fields_of_defs = texts_of_def thinkings_of_def references_of_def List.map_filter_def

lemma split_chunk_fields:
  "texts_of (split_chunk c) = texts_of [c]"
  "thinkings_of (split_chunk c) = thinkings_of [c]"
  "references_of (split_chunk c) = references_of [c]"
  "list_all single_field (split_chunk c)"
  by (auto simp: split_chunk_def fields_of_defs source_chunk_default_def single_field_def)

lemma fields_of_append:
  "texts_of (a @ b) = texts_of a @ texts_of b"
  "thinkings_of (a @ b) = thinkings_of a @ thinkings_of b"
  "references_of (a @ b) = references_of a @ references_of b"
  by (simp_all add: fields_of_defs)

lemma splitter_fields:
  "texts_of (splitter_process cs) = texts_of cs
   \<and> thinkings_of (splitter_process cs) = thinkings_of cs
   \<and> references_of (splitter_process cs) = references_of cs
   \<and> list_all single_field (splitter_process cs)"
proof (induction cs)
  case Nil
  then show ?case by (simp add: splitter_process_def fields_of_defs)
next
  case (Cons c cs)
  have "splitter_process (c # cs) = split_chunk c @ splitter_process cs"
    by (simp add: splitter_process_def)
  then show ?case
    using Cons split_chunk_fields[of c] fields_of_append[of "[c]" cs]
    by (simp add: fields_of_append)
qed

lemma demux_process_eq:
  "demux_process mode collected cs =
     (case mode of
        INLINE \<Rightarrow> (cs, collected)
      | SEPARATE \<Rightarrow> (filter (\<lambda>c. sc_thinking c = None) cs, collected @ thinkings_of cs)
      | SUPPRESS \<Rightarrow> (filter (\<lambda>c. sc_thinking c = None) cs, collected))"
  by (induction cs arbitrary: collected)
    (auto simp: demux_step_def thinkings_of_def List.map_filter_def split: thinking_mode.splits option.splits)

section \<open>Properties\<close>

text \<open>C1. Newline normalisation does not depend on the chunk boundaries: the concatenated output
  is the whole input with every run of CR and LF collapsed to one LF and a final LF withheld,
  also when a CRLF pair is split between two chunks.\<close>

theorem newline_process_collapses:
  "concat (newline_process chunks) =
     (let whole = collapse_newlines False (concat chunks)
      in if endswith whole [LF] then butlast whole else whole)"
proof -
  let ?w = "collapse_newlines False (concat chunks)"
  have "concat (newline_process chunks) @ pending_text (in_newline_run False (concat chunks)) = ?w"
    using newline_loop_spec[of False chunks] by (simp add: newline_process_def pending_text_def)
  moreover have "endswith ?w [LF] = in_newline_run False (concat chunks)"
    using endswith_collapse[of False] by (simp add: pending_text_def)
  ultimately show ?thesis
    by (cases "in_newline_run False (concat chunks)")
      (auto simp: pending_text_def Let_def dest: arg_cong[of _ _ butlast])
qed

text \<open>The tail cleaner outputs the chunks up to the last one that is not whitespace, unchanged
  and in order, and drops exactly the whitespace-only chunks after it.\<close>

theorem tail_process_drops_trailing_whitespace:
  "tail_process chunks = rstrip_by ws_only chunks"
  by (simp add: tail_process_def tail_loop_eq)

text \<open>Splitting and demultiplexing lose nothing but what the mode says: in separate mode the
  texts and references go downstream unchanged, no thinking does, and the collected thinking
  is the concatenation of all thinking deltas in order.\<close>

theorem demux_separate:
  "demux_process SEPARATE [] (splitter_process cs) = (outs, collected) \<Longrightarrow>
     texts_of outs = texts_of cs \<and> references_of outs = references_of cs
     \<and> thinkings_of outs = [] \<and> demux_collect collected = concat (thinkings_of cs)"
proof -
  assume run: "demux_process SEPARATE [] (splitter_process cs) = (outs, collected)"
  have single: "list_all single_field (splitter_process cs)" using splitter_fields by blast
  have "texts_of (filter (\<lambda>c. sc_thinking c = None) xs) = texts_of xs
      \<and> references_of (filter (\<lambda>c. sc_thinking c = None) xs) = references_of xs
      \<and> thinkings_of (filter (\<lambda>c. sc_thinking c = None) xs) = []"
    if "list_all single_field xs" for xs :: "'a source_chunk list"
    using that by (induction xs) (auto simp: fields_of_defs single_field_def split: if_splits)
  from this[OF single] show ?thesis
    using run splitter_fields[of cs] by (auto simp: demux_process_eq demux_collect_def)
qed

theorem demux_separate_witness:
  "let cs = [\<lparr>sc_text = Some (lit ''a''), sc_thinking = Some (lit ''t''), sc_references = None, sc_finish = True\<rparr>
        :: unit source_chunk]
   in texts_of (fst (demux_process SEPARATE [] (splitter_process cs))) = [lit ''a'']
      \<and> demux_collect (snd (demux_process SEPARATE [] (splitter_process cs))) = lit ''t''"
proof -
  let ?cs = "[\<lparr>sc_text = Some (lit ''a''), sc_thinking = Some (lit ''t''), sc_references = None, sc_finish = True\<rparr>
        :: unit source_chunk]"
  have "texts_of ?cs = [lit ''a'']" "thinkings_of ?cs = [lit ''t'']"
    by (simp_all add: fields_of_defs)
  then show ?thesis
    using demux_separate[of ?cs, OF prod.collapse[symmetric]] by simp
qed

end
