(* ===== verification/Marker.thy ===== *)
theory Marker
  imports Text_Pipeline
begin

text \<open>
  Placeholder marker detection (\<^verbatim>\<open>pipeline/marker.py\<close>).  The detector cuts a stream of text
  chunks at every occurrence of a marker, holds back a tail that could still grow into a
  marker, and flushes the rest on a size or time trigger.  The main fact is that neither the
  chunk boundaries nor the flush times change where it cuts.
\<close>

section \<open>The string searches the module uses\<close>

text \<open>\<^verbatim>\<open>str.find\<close>: the position of the leftmost occurrence.\<close>

fun find_sub :: "'a list \<Rightarrow> 'a list \<Rightarrow> nat option" where
  "find_sub m [] = (if m = [] then Some 0 else None)"
| "find_sub m (c # cs) = (if startswith (c # cs) m then Some 0 else map_option Suc (find_sub m cs))"

lemma find_sub_Some:
  assumes "find_sub m s = Some p"
  obtains u v where "s = u @ m @ v" "length u = p" "\<forall>j<p. \<not> startswith (drop j s) m"
proof -
  have "\<exists>u v. s = u @ m @ v \<and> length u = p \<and> (\<forall>j<p. \<not> startswith (drop j s) m)"
    using assms
  proof (induction s arbitrary: p)
    case (Cons c cs)
    show ?case
    proof (cases "startswith (c # cs) m")
      case True
      then obtain v where "c # cs = m @ v"
        by (auto simp: startswith_iff_prefix prefix_def)
      moreover have "p = 0" using True Cons.prems by simp
      ultimately show ?thesis by (intro exI[of _ "[]"] exI[of _ v]) simp
    next
      case False
      then obtain q where q: "find_sub m cs = Some q" "p = Suc q"
        using Cons.prems by auto
      from Cons.IH[OF q(1)] obtain u v where
        uv: "cs = u @ m @ v" "length u = q" "\<forall>j<q. \<not> startswith (drop j cs) m" by blast
      have "\<not> startswith (drop j (c # cs)) m" if "j < p" for j
        using uv(3) False q(2) that by (cases j) auto
      then show ?thesis using uv q(2) by (intro exI[of _ "c # u"] exI[of _ v]) simp
    qed
  qed (auto split: if_splits)
  then show thesis using that by blast
qed

lemma find_sub_None:
  "find_sub m s = None \<Longrightarrow> j \<le> length s \<Longrightarrow> \<not> startswith (drop j s) m"
proof (induction s arbitrary: j)
  case (Cons c cs)
  then show ?case by (cases j) (auto split: if_splits)
qed (simp add: startswith_def split: if_splits)

lemma find_sub_SomeI:
  assumes "startswith (drop p s) m" "\<forall>j<p. \<not> startswith (drop j s) m" "p \<le> length s"
  shows "find_sub m s = Some p"
  using assms
proof (induction s arbitrary: p)
  case (Cons c cs)
  show ?case
  proof (cases p)
    case (Suc q)
    then have "find_sub m cs = Some q"
      using Cons.prems by (intro Cons.IH) auto
    moreover have "\<not> startswith (c # cs) m"
      using Cons.prems(2) Suc by (metis drop_0 zero_less_Suc)
    ultimately show ?thesis using Suc by simp
  qed (use Cons.prems in simp)
qed (auto simp: startswith_def)

lemma find_sub_NoneI:
  assumes "\<And>j. j \<le> length s \<Longrightarrow> \<not> startswith (drop j s) m"
  shows "find_sub m s = None"
proof (cases "find_sub m s")
  case (Some p)
  then obtain u v where "s = u @ m @ v" "length u = p" by (rule find_sub_Some)
  then have "startswith (drop p s) m" "p \<le> length s" by auto
  then show ?thesis using assms by blast
qed

lemma find_sub_bound: "find_sub m s = Some p \<Longrightarrow> p + length m \<le> length s"
  by (erule find_sub_Some) simp

lemma find_sub_shrinks:
  "m \<noteq> [] \<Longrightarrow> find_sub m s = Some p \<Longrightarrow> length s - (p + length m) < length s"
  using find_sub_bound[of m s p] by (cases m) auto

lemma find_sub_skip:
  "\<forall>j<length a. \<not> startswith (drop j (a @ u)) m \<Longrightarrow>
     find_sub m (a @ u) = map_option ((+) (length a)) (find_sub m u)"
proof (induction a)
  case Nil
  then show ?case by (cases "find_sub m u") auto
next
  case (Cons c a)
  have "\<forall>j<length a. \<not> startswith (drop j (a @ u)) m"
    using Cons.prems by (metis Suc_less_eq append_Cons drop_Suc_Cons length_Cons)
  moreover have "\<not> startswith (c # a @ u) m"
    using Cons.prems by (metis append_Cons drop_0 length_Cons zero_less_Suc)
  ultimately show ?case using Cons.IH by (cases "find_sub m u") auto
qed

text \<open>An occurrence found in a buffer stays the leftmost one when text is appended.\<close>

lemma find_sub_append:
  assumes "find_sub m s = Some p"
  shows "find_sub m (s @ t) = Some p"
proof -
  from assms obtain u v where
    f: "s = u @ m @ v" "length u = p" "\<forall>j<p. \<not> startswith (drop j s) m"
    by (rule find_sub_Some)
  show ?thesis
  proof (rule find_sub_SomeI)
    show "startswith (drop p (s @ t)) m" using f(1,2) by simp
    show "\<forall>j<p. \<not> startswith (drop j (s @ t)) m"
    proof (intro allI impI)
      fix j assume j: "j < p"
      then have "take (length m) (drop j (s @ t)) = take (length m) (drop j s)"
        using f(1,2) by simp
      then show "\<not> startswith (drop j (s @ t)) m"
        using f(3) j by (metis startswith_def)
    qed
    show "p \<le> length (s @ t)" using f(1,2) by simp
  qed
qed

text \<open>\<^verbatim>\<open>_HEADING_RE\<close> (\<^verbatim>\<open>^#{1,6}\s\<close>, multi-line) and \<^verbatim>\<open>_FLUSH_TRIGGER_RE\<close>.  A line starts at the
  beginning of the text and after every LF.\<close>

abbreviation HASH :: nat where "HASH \<equiv> 35"

definition hashes_then :: "(nat \<Rightarrow> bool) \<Rightarrow> ustr \<Rightarrow> bool" where
  "hashes_then P s =
     (let n = length (takeWhile (\<lambda>c. c = HASH) s) in 1 \<le> n \<and> n \<le> 6 \<and> n < length s \<and> P (s ! n))"

fun last_heading :: "bool \<Rightarrow> ustr \<Rightarrow> ustr option" where
  "last_heading at_start [] = None"
| "last_heading at_start (c # cs) =
     (case last_heading (c = LF) cs of
        Some r \<Rightarrow> Some r
      | None \<Rightarrow> if at_start \<and> hashes_then is_space (c # cs) then Some (c # cs) else None)"

fun flush_trigger :: "bool \<Rightarrow> ustr \<Rightarrow> bool" where
  "flush_trigger at_start [] = False"
| "flush_trigger at_start (c # cs) =
     ((c = CR \<or> c = LF) \<and> \<not> startswith (dropWhile is_space cs) (lit ''!['')
      \<or> at_start \<and> hashes_then (\<lambda>d. d = SP) (c # cs)
      \<or> flush_trigger (c = LF) cs)"

function re_split_nl :: "ustr \<Rightarrow> ustr list" where
  "re_split_nl s =
     takeWhile (\<lambda>c. c \<noteq> LF) s #
     (case dropWhile (\<lambda>c. c \<noteq> LF) s of [] \<Rightarrow> [] | _ # r \<Rightarrow> re_split_nl (dropWhile (\<lambda>c. c = LF) r))"
  by pat_completeness auto
termination
proof (relation "measure length")
  fix s r :: ustr and x :: nat
  assume "dropWhile (\<lambda>c. c \<noteq> LF) s = x # r"
  then have "Suc (length r) \<le> length s"
    by (metis length_Cons length_dropWhile_le)
  moreover have "length (dropWhile (\<lambda>c. c = LF) r) \<le> length r"
    by (rule length_dropWhile_le)
  ultimately show "(dropWhile (\<lambda>c. c = LF) r, s) \<in> measure length" by simp
qed simp

declare re_split_nl.simps [simp del]

section \<open>MarkerDetector\<close>

record marker_hit =
  context_text :: ustr
  placeholder_id :: "string option"
  char_offset :: nat

record marked_chunk =
  mc_text :: "ustr option"
  mc_hits :: "marker_hit list"
  mc_finish :: bool

record marker_detector =
  md_marker :: ustr
  md_flush_threshold :: int
  md_flush_timeout :: real
  md_context_strategy :: string

definition text_chunk :: "ustr \<Rightarrow> marked_chunk" where
  "text_chunk t = \<lparr>mc_text = Some t, mc_hits = [], mc_finish = False\<rparr>"

definition hit_chunk :: "ustr \<Rightarrow> marked_chunk" where
  "hit_chunk ctx = \<lparr>mc_text = None,
     mc_hits = [\<lparr>context_text = ctx, placeholder_id = None, char_offset = 0\<rparr>], mc_finish = False\<rparr>"

definition finish_chunk :: marked_chunk where
  "finish_chunk = \<lparr>mc_text = None, mc_hits = [], mc_finish = True\<rparr>"

fun rtrim_from :: "nat \<Rightarrow> ustr \<Rightarrow> ustr \<Rightarrow> ustr \<times> ustr" where
  "rtrim_from 0 m s = (s, [])"
| "rtrim_from (Suc i) m s =
     (if endswith s (take (Suc i) m)
      then (take (length s - Suc i) s, drop (length s - Suc i) s)
      else rtrim_from i m s)"

definition rtrim_partial_marker :: "marker_detector \<Rightarrow> ustr \<Rightarrow> ustr \<times> ustr" where
  "rtrim_partial_marker d s = rtrim_from (length (md_marker d) - 1) (md_marker d) s"

definition extract_context :: "marker_detector \<Rightarrow> ustr \<Rightarrow> ustr" where
  "extract_context d preceding =
     (let t = strip preceding in
      if t = [] then []
      else if md_context_strategy d = ''full'' then t
      else if md_context_strategy d = ''heading'' then
        (case last_heading True t of Some r \<Rightarrow> strip r | None \<Rightarrow> t)
      else
        (let paragraphs = filter (\<lambda>p. strip p \<noteq> []) (re_split_nl t)
         in if paragraphs \<noteq> [] then strip (last paragraphs) else []))"

definition hit_chunks :: "marker_detector \<Rightarrow> ustr \<Rightarrow> marked_chunk list" where
  "hit_chunks d preceding =
     (if preceding \<noteq> [] then [text_chunk preceding] else [])
     @ [hit_chunk (extract_context d preceding)]"

text \<open>The loop over the complete markers of the buffer, which \<^verbatim>\<open>process\<close> and \<^verbatim>\<open>_drain_buffer\<close>
  share: the chunks it yields and the buffer it leaves.  With an empty marker it would hit at
  position 0 for ever; not returning is the value None.\<close>

partial_function (option) scan_markers ::
  "marker_detector \<Rightarrow> ustr \<Rightarrow> (marked_chunk list \<times> ustr) option" where
  "scan_markers d buffer =
     (case find_sub (md_marker d) buffer of
        None \<Rightarrow> Some ([], buffer)
      | Some pos \<Rightarrow>
          Option.bind (scan_markers d (drop (pos + length (md_marker d)) buffer))
            (\<lambda>(outs, rest). Some (hit_chunks d (take pos buffer) @ outs, rest)))"

definition drain_buffer :: "marker_detector \<Rightarrow> ustr \<Rightarrow> marked_chunk list option" where
  "drain_buffer d buffer =
     Option.bind (scan_markers d buffer)
       (\<lambda>(outs, rest). Some (outs @ (if rest \<noteq> [] then [text_chunk rest] else [])))"

definition md_end :: "marker_detector \<Rightarrow> ustr \<Rightarrow> marked_chunk list option" where
  "md_end d buffer = Option.bind (drain_buffer d buffer) (\<lambda>outs. Some (outs @ [finish_chunk]))"

fun md_loop ::
  "marker_detector \<Rightarrow> ustr \<Rightarrow> real \<Rightarrow> ('r source_chunk \<times> real) list \<Rightarrow> marked_chunk list option"
where
  "md_loop d buffer last_flush [] = md_end d buffer"
| "md_loop d buffer last_flush ((chunk, now) # chunks) =
     (if sc_finish chunk then md_end d buffer
      else case sc_text chunk of
        None \<Rightarrow> md_loop d buffer last_flush chunks
      | Some t \<Rightarrow>
          Option.bind (scan_markers d (buffer @ t)) (\<lambda>(outs, buffer1).
            let last1 = (if outs = [] then last_flush else now);
                (safe, pending) = rtrim_partial_marker d buffer1;
                flush = ((md_flush_threshold d \<le> int (length buffer1) \<and> flush_trigger True buffer1
                          \<or> md_flush_timeout d < now - last1) \<and> safe \<noteq> [])
            in Option.bind
                 (if flush then md_loop d pending now chunks else md_loop d buffer1 last1 chunks)
                 (\<lambda>more. Some (outs @ (if flush then [text_chunk safe] else []) @ more))))"

definition marker_process ::
  "marker_detector \<Rightarrow> real \<Rightarrow> ('r source_chunk \<times> real) list \<Rightarrow> marked_chunk list option" where
  "marker_process d start chunks = md_loop d [] start chunks"

section \<open>Reference: cutting the whole text at once\<close>

text \<open>The segments of a text between the leftmost, non-overlapping occurrences of a marker.\<close>

function split_marker :: "'a list \<Rightarrow> 'a list \<Rightarrow> 'a list list" where
  "split_marker m s =
     (if m = [] then [s]
      else case find_sub m s of
        None \<Rightarrow> [s]
      | Some p \<Rightarrow> take p s # split_marker m (drop (p + length m) s))"
  by pat_completeness auto
termination
proof (relation "measure (\<lambda>(m, s). length s)")
  fix m s :: "'a list" and p
  assume "m \<noteq> []" "find_sub m s = Some p"
  then show "((m, drop (p + length m) s), (m, s)) \<in> measure (\<lambda>(m, s). length s)"
    by (simp add: find_sub_shrinks)
qed simp

declare split_marker.simps [simp del]

text \<open>The segments a consumer of marked chunks sees: the text it accumulates between hits.\<close>

fun segments :: "ustr \<Rightarrow> marked_chunk list \<Rightarrow> ustr list" where
  "segments cur [] = [cur]"
| "segments cur (c # cs) =
     (let cur' = cur @ (case mc_text c of None \<Rightarrow> [] | Some t \<Rightarrow> t)
      in if mc_hits c = [] then segments cur' cs
         else cur' # replicate (length (mc_hits c) - 1) [] @ segments [] cs)"

fun prepend :: "'a list \<Rightarrow> 'a list list \<Rightarrow> 'a list list" where
  "prepend p [] = []"
| "prepend p (s # ss) = (p @ s) # ss"

lemma prepend_Nil [simp]: "prepend [] ss = ss"
  by (cases ss) auto

lemma prepend_prepend [simp]: "prepend p (prepend q ss) = prepend (p @ q) ss"
  by (cases ss) auto

lemma split_marker_None: "find_sub m s = None \<Longrightarrow> split_marker m s = [s]"
  by (subst split_marker.simps) simp

lemma split_marker_Some:
  "m \<noteq> [] \<Longrightarrow> find_sub m s = Some p \<Longrightarrow>
     split_marker m s = take p s # split_marker m (drop (p + length m) s)"
  by (subst split_marker.simps) simp

lemma split_marker_append_Some:
  assumes "m \<noteq> []" "find_sub m s = Some p"
  shows "split_marker m (s @ t) = take p s # split_marker m (drop (p + length m) s @ t)"
  using split_marker_Some[OF assms(1) find_sub_append[OF assms(2)], of t] find_sub_bound[OF assms(2)]
  by simp

lemma segments_hit_chunks [simp]:
  "segments cur (hit_chunks d pre @ ys) = (cur @ pre) # segments [] ys"
  by (simp add: hit_chunks_def text_chunk_def hit_chunk_def)

lemma segments_text [simp]: "segments cur (text_chunk t # ys) = segments (cur @ t) ys"
  by (simp add: text_chunk_def)

lemma segments_finish [simp]: "segments cur [finish_chunk] = [cur]"
  by (simp add: finish_chunk_def)

text \<open>The loop over complete markers returns, leaves no marker behind, and cuts like the
  reference.\<close>

lemma scan_markers_spec:
  assumes "md_marker d \<noteq> []"
  shows "\<exists>outs rest. scan_markers d b = Some (outs, rest)
    \<and> find_sub (md_marker d) rest = None
    \<and> (\<forall>c \<in> set outs. \<not> mc_finish c \<and> mc_text c \<noteq> Some [])
    \<and> (\<forall>t ys cur. (\<forall>cur'. segments cur' ys = prepend cur' (split_marker (md_marker d) (rest @ t)))
        \<longrightarrow> segments cur (outs @ ys) = prepend cur (split_marker (md_marker d) (b @ t)))"
proof (induction "length b" arbitrary: b rule: less_induct)
  case less
  show ?case
  proof (cases "find_sub (md_marker d) b")
    case None
    then have "scan_markers d b = Some ([], b)" by (subst scan_markers.simps) simp
    then show ?thesis using None by simp
  next
    case (Some p)
    let ?b = "drop (p + length (md_marker d)) b"
    have "length ?b < length b" using find_sub_shrinks[OF assms Some] by simp
    from less[OF this] obtain outs rest where
      IH: "scan_markers d ?b = Some (outs, rest)" "find_sub (md_marker d) rest = None"
      "\<forall>c \<in> set outs. \<not> mc_finish c \<and> mc_text c \<noteq> Some []"
      "\<And>t ys cur. \<forall>cur'. segments cur' ys = prepend cur' (split_marker (md_marker d) (rest @ t))
        \<Longrightarrow> segments cur (outs @ ys) = prepend cur (split_marker (md_marker d) (?b @ t))"
      by blast
    have "scan_markers d b = Some (hit_chunks d (take p b) @ outs, rest)"
      using Some IH(1) by (subst scan_markers.simps) simp
    moreover have "\<forall>c \<in> set (hit_chunks d (take p b) @ outs). \<not> mc_finish c \<and> mc_text c \<noteq> Some []"
      using IH(3) by (auto simp: hit_chunks_def text_chunk_def hit_chunk_def)
    ultimately show ?thesis
      using IH(2,4) split_marker_append_Some[OF assms Some] by fastforce
  qed
qed

text \<open>Half-marker protection: the held-back tail is the longest one that a marker could still
  grow from, so no occurrence can start in the part that is flushed.\<close>

lemma rtrim_from_spec:
  assumes "rtrim_from n m s = (safe, pending)" "n < length m"
  shows "s = safe @ pending \<and>
    (\<forall>i. length pending < i \<and> i \<le> n \<longrightarrow> \<not> endswith s (take i m))"
  using assms
proof (induction n)
  case (Suc n)
  show ?case
  proof (cases "endswith s (take (Suc n) m)")
    case True
    then show ?thesis using Suc.prems by (auto simp: endswith_def)
  next
    case False
    then show ?thesis using Suc by (auto simp: le_Suc_eq)
  qed
qed auto

lemma split_marker_rtrim:
  assumes m: "m \<noteq> []" and none: "find_sub m b = None"
    and rt: "rtrim_from (length m - 1) m b = (safe, pending)"
  shows "split_marker m (b @ t) = prepend safe (split_marker m (pending @ t))"
proof -
  have lt: "length m - 1 < length m" using m by simp
  note r = rtrim_from_spec[OF rt lt]
  have no_start: "\<not> startswith (drop j (safe @ pending @ t)) m" if j: "j < length safe" for j
  proof
    assume "startswith (drop j (safe @ pending @ t)) m"
    then have at: "take (length m) (drop j b @ t) = m"
      using r j by (simp add: startswith_def)
    show False
    proof (cases "length m \<le> length (drop j b)")
      case True
      then have "startswith (drop j b) m" using at by (simp add: startswith_def)
      then show False using find_sub_None[OF none, of j] r j by auto
    next
      case False
      then have "take (length (drop j b)) m = drop j b"
        using at by (metis append_eq_conv_conj nle_le take_all take_append take_take min.absorb2)
      then have "endswith b (take (length b - j) m)"
        by (simp add: endswith_def) (metis diff_diff_cancel diff_le_self endswith_def length_drop nle_le drop_all)
      moreover have "length pending < length b - j" "length b - j \<le> length m - 1"
        using r j False by auto
      ultimately show False using r by blast
    qed
  qed
  then have f: "find_sub m (safe @ pending @ t) = map_option ((+) (length safe)) (find_sub m (pending @ t))"
    by (intro find_sub_skip) simp
  show ?thesis
  proof (cases "find_sub m (pending @ t)")
    case None
    then show ?thesis using f r by (simp add: split_marker_None)
  next
    case (Some p)
    then have "find_sub m (safe @ pending @ t) = Some (length safe + p)" using f by simp
    then show ?thesis
      using split_marker_Some[OF m Some] split_marker_Some[OF m, of "safe @ pending @ t"] r
      by (simp add: add.assoc)
  qed
qed

section \<open>The detector\<close>

text \<open>The text the detector consumes: everything before the first finish chunk.\<close>

fun live_text :: "('r source_chunk \<times> real) list \<Rightarrow> ustr" where
  "live_text [] = []"
| "live_text ((c, now) # cs) =
     (if sc_finish c then [] else (case sc_text c of None \<Rightarrow> [] | Some t \<Rightarrow> t) @ live_text cs)"

definition md_good :: "marker_detector \<Rightarrow> ustr \<Rightarrow> marked_chunk list option \<Rightarrow> bool" where
  "md_good d whole res \<longleftrightarrow>
     (\<exists>outs. res = Some (outs @ [finish_chunk])
        \<and> (\<forall>c \<in> set outs. \<not> mc_finish c \<and> mc_text c \<noteq> Some [])
        \<and> (\<forall>cur. segments cur (outs @ [finish_chunk]) = prepend cur (split_marker (md_marker d) whole)))"

lemma scan_then_good:
  assumes m: "md_marker d \<noteq> []"
    and k: "\<And>rest. find_sub (md_marker d) rest = None \<Longrightarrow> md_good d (rest @ t) (k rest)"
    and scan: "scan_markers d b = Some (outs, rest)"
  shows "md_good d (b @ t) (Option.bind (k rest) (\<lambda>ys. Some (outs @ ys)))"
proof -
  obtain outs' rest' where s: "scan_markers d b = Some (outs', rest')"
    "find_sub (md_marker d) rest' = None"
    "\<forall>c \<in> set outs'. \<not> mc_finish c \<and> mc_text c \<noteq> Some []"
    "\<And>t ys cur. (\<forall>cur'. segments cur' ys = prepend cur' (split_marker (md_marker d) (rest' @ t)))
        \<Longrightarrow> segments cur (outs' @ ys) = prepend cur (split_marker (md_marker d) (b @ t))"
    using scan_markers_spec[OF m, of b] by blast
  have eq: "outs' = outs" "rest' = rest" using s(1) scan by simp_all
  obtain ys where ys: "k rest = Some (ys @ [finish_chunk])"
    "\<forall>c \<in> set ys. \<not> mc_finish c \<and> mc_text c \<noteq> Some []"
    "\<forall>cur. segments cur (ys @ [finish_chunk]) = prepend cur (split_marker (md_marker d) (rest @ t))"
    using k[of rest] s(2) eq unfolding md_good_def by auto
  show ?thesis
    unfolding md_good_def using ys s(3) s(4)[OF ys(3)[folded eq]] eq
    by (intro exI[of _ "outs @ ys"]) auto
qed

lemma md_end_good:
  assumes m: "md_marker d \<noteq> []"
  shows "md_good d b (md_end d b)"
proof -
  obtain outs rest where s: "scan_markers d b = Some (outs, rest)"
    using scan_markers_spec[OF m, of b] by blast
  let ?k = "\<lambda>rest. Some ((if rest \<noteq> [] then [text_chunk rest] else []) @ [finish_chunk])"
  have "md_good d (rest @ []) (?k rest)" if "find_sub (md_marker d) rest = None" for rest
    using split_marker_None[OF that] unfolding md_good_def
    by (intro exI[of _ "if rest \<noteq> [] then [text_chunk rest] else []"]) (auto simp: text_chunk_def finish_chunk_def)
  from scan_then_good[OF m this s] show ?thesis
    by (simp add: md_end_def drain_buffer_def s)
qed

lemma flush_good:
  assumes m: "md_marker d \<noteq> []" and none: "find_sub (md_marker d) b = None"
    and rt: "rtrim_partial_marker d b = (safe, pending)" and safe: "safe \<noteq> []"
    and good: "md_good d (pending @ t) res"
  shows "md_good d (b @ t) (Option.bind res (\<lambda>ys. Some (text_chunk safe # ys)))"
proof -
  have sp: "split_marker (md_marker d) (b @ t) = prepend safe (split_marker (md_marker d) (pending @ t))"
    using split_marker_rtrim[OF m none] rt by (simp add: rtrim_partial_marker_def)
  from good obtain ys where "res = Some (ys @ [finish_chunk])"
    "\<forall>c \<in> set ys. \<not> mc_finish c \<and> mc_text c \<noteq> Some []"
    "\<forall>cur. segments cur (ys @ [finish_chunk]) = prepend cur (split_marker (md_marker d) (pending @ t))"
    unfolding md_good_def by auto
  then show ?thesis
    unfolding md_good_def using safe sp
    by (intro exI[of _ "text_chunk safe # ys"]) (auto simp: text_chunk_def)
qed

lemma md_loop_good:
  assumes m: "md_marker d \<noteq> []"
  shows "md_good d (b @ live_text chunks) (md_loop d b last_flush chunks)"
proof (induction chunks arbitrary: b last_flush)
  case Nil
  then show ?case using md_end_good[OF m] by simp
next
  case (Cons cn chunks)
  obtain chunk now where cn: "cn = (chunk, now)" by fastforce
  consider "sc_finish chunk" | "\<not> sc_finish chunk" "sc_text chunk = None"
    | t where "\<not> sc_finish chunk" "sc_text chunk = Some t" by fastforce
  then show ?case
  proof cases
    case 3
    obtain outs rest where s: "scan_markers d (b @ t) = Some (outs, rest)"
      using scan_markers_spec[OF m, of "b @ t"] by blast
    define last1 where "last1 = (if outs = [] then last_flush else now)"
    define flush where "flush buf \<longleftrightarrow> (md_flush_threshold d \<le> int (length buf) \<and> flush_trigger True buf
        \<or> md_flush_timeout d < now - last1) \<and> fst (rtrim_partial_marker d buf) \<noteq> []" for buf
    define k where "k buf = (if flush buf
      then Option.bind (md_loop d (snd (rtrim_partial_marker d buf)) now chunks)
        (\<lambda>ys. Some (text_chunk (fst (rtrim_partial_marker d buf)) # ys))
      else md_loop d buf last1 chunks)" for buf
    have "md_good d (buf @ live_text chunks) (k buf)" if "find_sub (md_marker d) buf = None" for buf
    proof (cases "flush buf")
      case True
      then show ?thesis
        using flush_good[OF m that prod.collapse[symmetric] _ Cons.IH]
        by (simp add: k_def flush_def)
    qed (simp add: k_def Cons.IH)
    from scan_then_good[OF m this s] show ?thesis
      using 3 s by (simp add: cn k_def flush_def last1_def Let_def case_prod_unfold
        Option.bind_assoc if_distrib[of "\<lambda>x. Option.bind x _"] cong: if_cong)
  qed (simp_all add: cn md_end_good[OF m] Cons.IH)
qed

end
