(* ===== verification/Stage.thy ===== *)
theory Stage
  imports Marker
begin

text \<open>
  One stage of a stream (\<^verbatim>\<open>stages/stage.py\<close>): the source, the pipeline of splitter, demux, interception and detector,
  and the loop that pulls it and aggregates the marked chunks.  The pipeline is a chain of generators pulled one item at a
  time: what a pull does is a list of items in order, the thinking the demux collects, the callbacks of the interception, and
  the marked chunks.  The callbacks and the governor belong to the caller: they are parameters, and may raise.  What the
  environment decides while an item is awaited (the event loop's clock, whether the bounded wait of drain mode expires,
  whether the token is cancelled) is a function of the number of the item.
\<close>

record loop_env =
  le_time :: "nat \<Rightarrow> real"
  le_wait_expires :: "nat \<Rightarrow> bool"
  le_cancelled :: "nat \<Rightarrow> bool"
  le_time_after :: "nat \<Rightarrow> real"

record stage_outcome =
  so_content :: ustr
  so_thinking :: ustr
  so_hits :: "marker_hit list"

definition stage_outcome_init :: stage_outcome where
  "stage_outcome_init = \<lparr>so_content = [], so_thinking = [], so_hits = []\<rparr>"

datatype source_type = LLM | PASSTHROUGH | REPLAY

definition finish_source :: "'r source_chunk" where
  "finish_source = source_chunk_default\<lparr>sc_finish := True\<rparr>"

text \<open>\<^verbatim>\<open>_source_chunks\<close>: the third argument is what the LLM source or the replay list yields.\<close>

definition source_chunks ::
  "source_type \<Rightarrow> ustr option \<Rightarrow> 'r source_chunk list \<Rightarrow> 'r source_chunk list" where
  "source_chunks ty content chunks =
     (case ty of
        PASSTHROUGH \<Rightarrow>
          [source_chunk_default\<lparr>sc_text := Some (case content of None \<Rightarrow> [] | Some c \<Rightarrow> c)\<rparr>, finish_source]
      | REPLAY \<Rightarrow> chunks @ [finish_source]
      | LLM \<Rightarrow> chunks @ (if list_ex sc_finish chunks then [] else [finish_source]))"

text \<open>One turn of the detector: what it yields for a chunk, and the buffer and flush time it goes on with, or None when it
  has ended.\<close>

definition md_feed ::
  "marker_detector \<Rightarrow> ustr \<Rightarrow> real \<Rightarrow> 'r source_chunk \<Rightarrow> real \<Rightarrow> (marked_chunk list \<times> (ustr \<times> real) option) option" where
  "md_feed d buffer last_flush chunk now =
     (if sc_finish chunk then map_option (\<lambda>outs. (outs, None)) (md_end d buffer)
      else case sc_text chunk of
        None \<Rightarrow> Some ([], Some (buffer, last_flush))
      | Some t \<Rightarrow>
          Option.bind (scan_markers d (buffer @ t)) (\<lambda>(outs, buffer1).
            let last1 = (if outs = [] then last_flush else now);
                (safe, pending) = rtrim_partial_marker d buffer1;
                flush = ((md_flush_threshold d \<le> int (length buffer1) \<and> flush_trigger True buffer1
                          \<or> md_flush_timeout d < now - last1) \<and> safe \<noteq> [])
            in Some (outs @ (if flush then [text_chunk safe] else []), Some (if flush then (pending, now) else (buffer1, last1)))))"

datatype 'r pipe_item = Collect ustr | Thinking ustr | References "'r list" | Marked marked_chunk

text \<open>Demux, interception and detector pulled together over the chunks of the splitter with the detector's clock readings.\<close>

fun pipe_loop ::
  "marker_detector \<Rightarrow> thinking_mode \<Rightarrow> ustr \<Rightarrow> real \<Rightarrow> ('r source_chunk \<times> real) list \<Rightarrow> 'r pipe_item list option" where
  "pipe_loop d mode buffer last_flush [] = map_option (map Marked) (md_end d buffer)"
| "pipe_loop d mode buffer last_flush ((chunk, now) # chunks) =
     (let (passed, collected) = demux_step mode [] chunk
      in map_option (\<lambda>items. map Collect collected @ items)
        (if passed = [] then pipe_loop d mode buffer last_flush chunks
         else case sc_thinking chunk of
           Some th \<Rightarrow> map_option (\<lambda>items. Thinking th # items) (pipe_loop d mode buffer last_flush chunks)
         | None \<Rightarrow>
             (case sc_references chunk of
                Some rs \<Rightarrow> map_option (\<lambda>items. References rs # items) (pipe_loop d mode buffer last_flush chunks)
              | None \<Rightarrow>
                  Option.bind (md_feed d buffer last_flush chunk now) (\<lambda>(outs, next).
                    case next of
                      None \<Rightarrow> Some (map Marked outs)
                    | Some (buffer', flush') \<Rightarrow>
                        map_option (\<lambda>items. map Marked outs @ items) (pipe_loop d mode buffer' flush' chunks)))))"

definition timed :: "(nat \<Rightarrow> real) \<Rightarrow> 'a list \<Rightarrow> ('a \<times> real) list" where
  "timed clock cs = map (\<lambda>i. (cs ! i, clock i)) [0..<length cs]"

text \<open>\<^verbatim>\<open>self._detector.process(self._intercept_thinking_and_refs(self._demux.process(ChunkSplitter().process(...))))\<close>\<close>

definition stage_pipeline ::
  "marker_detector \<Rightarrow> thinking_mode \<Rightarrow> real \<Rightarrow> (nat \<Rightarrow> real) \<Rightarrow> 'r source_chunk list \<Rightarrow> 'r pipe_item list option" where
  "stage_pipeline d mode start clock chunks = pipe_loop d mode [] start (timed clock (splitter_process chunks))"

record ('s, 'r) callbacks =
  cb_text :: "ustr \<Rightarrow> ('s, unit) py"
  cb_thinking :: "ustr \<Rightarrow> ('s, unit) py"
  cb_references :: "'r list \<Rightarrow> ('s, unit) py"
  cb_hit :: "marker_hit \<Rightarrow> ('s, unit) py"

fun stage_hits ::
  "(marker_hit \<Rightarrow> ('s, unit) py) \<Rightarrow> marker_hit list \<Rightarrow> stage_outcome \<Rightarrow> ('s, stage_outcome) py" where
  "stage_hits on_hit [] out = py_return out"
| "stage_hits on_hit (h # hs) out =
     (let h' = h\<lparr>char_offset := length (so_content out)\<rparr>;
          out' = out\<lparr>so_hits := so_hits out @ [h']\<rparr>
      in py_seq (on_hit h') (stage_hits on_hit hs out'))"

text \<open>The \<^verbatim>\<open>while True\<close> loop of \<^verbatim>\<open>run\<close> over the items the pipeline still has to produce.  \<^term>\<open>n\<close> counts the items, \<^term>\<open>fresh\<close>
  says that the loop is at its head (and not inside a pull), \<^term>\<open>deadline\<close> is \<^verbatim>\<open>drain_deadline\<close>, and \<^term>\<open>coll\<close> what the demux
  has collected.\<close>

fun stage_loop ::
  "loop_env \<Rightarrow> real \<Rightarrow> ('s, 'r) callbacks \<Rightarrow> nat \<Rightarrow> bool \<Rightarrow> real option \<Rightarrow> 'r pipe_item list \<Rightarrow> stage_outcome \<Rightarrow> ustr list \<Rightarrow>
   ('s, stage_outcome \<times> ustr list) py" where
  "stage_loop env drain cb n fresh deadline [] out coll = py_return (out, coll)"
| "stage_loop env drain cb n fresh deadline (item # items) out coll =
     (if (case deadline of None \<Rightarrow> False
          | Some dl \<Rightarrow> fresh \<and> dl - le_time env n \<le> 0 \<or> le_wait_expires env n)
      then py_return (out, coll)
      else case item of
        Collect th \<Rightarrow> stage_loop env drain cb (Suc n) False deadline items out (coll @ [th])
      | Thinking th \<Rightarrow>
          py_seq (if le_cancelled env n then py_return () else cb_thinking cb th)
            (stage_loop env drain cb (Suc n) False deadline items out coll)
      | References rs \<Rightarrow>
          py_seq (if le_cancelled env n then py_return () else cb_references cb rs)
            (stage_loop env drain cb (Suc n) False deadline items out coll)
      | Marked m \<Rightarrow>
          if le_cancelled env n then
            stage_loop env drain cb (Suc n) True
              (case deadline of None \<Rightarrow> Some (le_time_after env n + drain) | Some dl \<Rightarrow> Some dl) items out coll
          else
            py_bind
              (case mc_text m of
                 Some t \<Rightarrow>
                   if t \<noteq> [] then py_seq (cb_text cb t) (py_return (out\<lparr>so_content := so_content out @ t\<rparr>))
                   else py_return out
               | None \<Rightarrow> py_return out)
              (\<lambda>out1. py_bind (stage_hits (cb_hit cb) (mc_hits m) out1)
                (\<lambda>out2. if mc_finish m then py_return (out2, coll)
                        else stage_loop env drain cb (Suc n) True deadline items out2 coll)))"

text \<open>The operations of the governor a stage calls, and the fields of \<^verbatim>\<open>StageConfig\<close> and \<^verbatim>\<open>StreamConfig\<close> it reads.\<close>

record 's resource_governor =
  gov_acquire :: "string \<Rightarrow> real \<Rightarrow> ('s, string) py"
  gov_release :: "string \<Rightarrow> string \<Rightarrow> ('s, unit) py"

record 'r stage_config =
  sg_source_type :: source_type
  sg_content :: "ustr option"
  sg_chunks :: "'r source_chunk list" \<comment> \<open>what the LLM source or the replay list yields\<close>
  sg_mode :: thinking_mode
  sg_detector :: marker_detector
  sg_resource :: "string option"
  sg_drain :: real
  sg_governor_timeout :: real

text \<open>\<^verbatim>\<open>run\<close>: acquire the stage's resource, consume the pipeline, take the collected thinking, and in
  the finally clause close the pipeline (its exceptions are swallowed) and release the token.  None is a pipeline that never
  returns.\<close>

definition stage_run ::
  "'s resource_governor option \<Rightarrow> 'r stage_config \<Rightarrow> ('s, unit) py \<Rightarrow> loop_env \<Rightarrow> real \<Rightarrow> (nat \<Rightarrow> real) \<Rightarrow>
   ('s, 'r) callbacks \<Rightarrow> 's \<Rightarrow> ((exn + stage_outcome) \<times> 's) option" where
  "stage_run governor cfg aclose env start clock cb s =
     map_option (\<lambda>items.
       let body = py_bind (stage_loop env (sg_drain cfg) cb 0 True None items stage_outcome_init [])
              (\<lambda>(out, coll). py_return (out\<lparr>so_thinking := fst (demux_pop_collected coll)\<rparr>));
           close = py_except aclose is_Exception (\<lambda>_. py_return ())
       in (case (sg_resource cfg, governor) of
             (Some res, Some gov) \<Rightarrow>
               if res = '''' then py_finally body close
               else py_bind (gov_acquire gov res (sg_governor_timeout cfg))
                 (\<lambda>tok. py_finally body (py_seq close
                    (if tok \<noteq> '''' then gov_release gov res tok else py_return ())))
           | _ \<Rightarrow> py_finally body close) s)
       (stage_pipeline (sg_detector cfg) (sg_mode cfg) start clock
          (source_chunks (sg_source_type cfg) (sg_content cfg) (sg_chunks cfg)))"

section \<open>Offsets\<close>

text \<open>The positions, in the concatenation of the segments, of the cuts between them.\<close>

fun cut_offsets :: "nat \<Rightarrow> ustr list \<Rightarrow> nat list" where
  "cut_offsets b [] = []"
| "cut_offsets b [s] = []"
| "cut_offsets b (s # s' # ss) = (b + length s) # cut_offsets (b + length s) (s' # ss)"

lemma segments_nonempty [simp]: "segments cur ms \<noteq> []"
  by (induction cur ms rule: segments.induct) (auto simp: Let_def)

lemma cut_offsets_Cons:
  "ss \<noteq> [] \<Longrightarrow> cut_offsets b (s # ss) = (b + length s) # cut_offsets (b + length s) ss"
  by (cases ss) auto

lemma cut_offsets_replicate:
  "ss \<noteq> [] \<Longrightarrow> cut_offsets b (replicate k [] @ ss) = replicate k b @ cut_offsets b ss"
  by (induction k) (auto simp: cut_offsets_Cons)

text \<open>Callbacks that return normally.\<close>

definition always_returns :: "('a \<Rightarrow> ('s, unit) py) \<Rightarrow> bool" where
  "always_returns f \<longleftrightarrow> (\<forall>x s. fst (f x s) = Inr ())"

lemma always_returnsD: "always_returns f \<Longrightarrow> \<exists>s'. f x s = (Inr (), s')"
  unfolding always_returns_def by (metis prod.collapse)

lemma always_returns_return: "always_returns (\<lambda>_. py_return ())"
  by (simp add: always_returns_def py_return_def)

lemma stage_hits_returns:
  assumes "always_returns on_hit"
  shows "\<exists>hs' s'. stage_hits on_hit hs out s = (Inr (out\<lparr>so_hits := so_hits out @ hs'\<rparr>), s')
    \<and> map char_offset hs' = replicate (length hs) (length (so_content out))"
proof (induction hs arbitrary: out s)
  case Nil
  then show ?case by (simp add: py_return_def)
next
  case (Cons h hs)
  let ?h = "h\<lparr>char_offset := length (so_content out)\<rparr>"
  obtain s1 where s1: "on_hit ?h s = (Inr (), s1)" using always_returnsD[OF assms] by blast
  from Cons[of "out\<lparr>so_hits := so_hits out @ [?h]\<rparr>" s1] obtain hs' s' where
    *: "stage_hits on_hit hs (out\<lparr>so_hits := so_hits out @ [?h]\<rparr>) s1
      = (Inr (out\<lparr>so_hits := so_hits out @ ?h # hs'\<rparr>), s')"
    "map char_offset hs' = replicate (length hs) (length (so_content out))" by auto
  show ?case
    using s1 * by (intro exI[of _ "?h # hs'"]) (simp add: py_seq_def py_bind_def Let_def)
qed

section \<open>The pipeline\<close>

text \<open>The detector's turn is a step of its loop.\<close>

lemma md_loop_feed:
  "md_loop d b lf ((c, now) # cs) = Option.bind (md_feed d b lf c now) (\<lambda>(outs, next).
     case next of None \<Rightarrow> Some outs | Some (b', lf') \<Rightarrow> map_option (\<lambda>more. outs @ more) (md_loop d b' lf' cs))"
proof (cases "sc_finish c")
  case True
  then show ?thesis by (cases "md_end d b") (simp_all add: md_feed_def)
next
  case False
  show ?thesis
  proof (cases "sc_text c")
    case None
    then show ?thesis using False by (cases "md_loop d b lf cs") (simp_all add: md_feed_def)
  next
    case (Some t)
    show ?thesis
    proof (cases "scan_markers d (b @ t)")
      case (Some p)
      obtain outs b1 where p: "p = (outs, b1)" by fastforce
      obtain safe pending where r: "rtrim_partial_marker d b1 = (safe, pending)" by fastforce
      have bind: "Option.bind x (\<lambda>more. Some (f more)) = map_option f x" for x and f :: "marked_chunk list \<Rightarrow> marked_chunk list"
        by (cases x) auto
      show ?thesis using False \<open>sc_text c = Some t\<close> Some p r
        by (cases "md_loop d pending now cs") (simp_all add: md_feed_def Let_def bind)
    qed (use False Some in \<open>simp add: md_feed_def\<close>)
  qed
qed

text \<open>The chunks that reach the detector.\<close>

definition reaches :: "'r source_chunk \<Rightarrow> bool" where
  "reaches c \<longleftrightarrow> sc_thinking c = None \<and> sc_references c = None"

fun marked_of :: "'r pipe_item list \<Rightarrow> marked_chunk list" where
  "marked_of [] = []"
| "marked_of (Marked m # items) = m # marked_of items"
| "marked_of (_ # items) = marked_of items"

fun collected_of :: "'r pipe_item list \<Rightarrow> ustr list" where
  "collected_of [] = []"
| "collected_of (Collect th # items) = th # collected_of items"
| "collected_of (_ # items) = collected_of items"

lemma item_lists [simp]:
  "marked_of (map Marked ms) = ms" "marked_of (map Collect cs) = []" "marked_of (xs @ ys) = marked_of xs @ marked_of ys"
  "collected_of (map Marked ms) = []" "collected_of (map Collect cs) = cs" "collected_of (xs @ ys) = collected_of xs @ collected_of ys"
proof -
  show "marked_of (map Marked ms) = ms" "collected_of (map Marked ms) = []" by (induction ms) simp_all
  show "marked_of (map Collect cs) = []" "collected_of (map Collect cs) = cs" by (induction cs) simp_all
  show "marked_of (xs @ ys) = marked_of xs @ marked_of ys" by (induction xs rule: marked_of.induct) simp_all
  show "collected_of (xs @ ys) = collected_of xs @ collected_of ys" by (induction xs rule: collected_of.induct) simp_all
qed

text \<open>What the demux collects before the stream ends.\<close>

fun live_thinking :: "thinking_mode \<Rightarrow> ('r source_chunk \<times> real) list \<Rightarrow> ustr list" where
  "live_thinking mode [] = []"
| "live_thinking mode ((c, now) # cs) =
     snd (demux_step mode [] c) @ (if reaches c \<and> sc_finish c then [] else live_thinking mode cs)"

text \<open>The pipeline marks what the detector alone marks on the chunks that reach it, and ends with its finish chunk.\<close>

lemma md_feed_next: "md_feed d b lf c now = Some (outs, next) \<Longrightarrow> next = None \<longleftrightarrow> sc_finish c"
  by (auto simp: md_feed_def Let_def split: if_splits option.splits prod.splits Option.bind_splits)

lemma demux_step_cases:
  "fst (demux_step mode [] c) = (if sc_thinking c \<noteq> None \<and> mode \<noteq> INLINE then [] else [c])"
  "snd (demux_step mode [] c) = (if mode = SEPARATE then (case sc_thinking c of Some th \<Rightarrow> [th] | None \<Rightarrow> []) else [])"
  by (cases mode; cases "sc_thinking c"; simp add: demux_step_def)+

lemma pipe_loop_marked:
  assumes "md_loop d b lf (filter (\<lambda>(c, now). reaches c) cs) = Some ms"
  shows "\<exists>items. pipe_loop d mode b lf cs = Some items \<and> marked_of items = ms \<and> collected_of items = live_thinking mode cs"
  using assms
proof (induction cs arbitrary: b lf ms)
  case Nil
  then show ?case by auto
next
  case (Cons cn cs)
  obtain c now where cn: "cn = (c, now)" by fastforce
  let ?coll = "snd (demux_step mode [] c)"
  show ?case
  proof (cases "reaches c")
    case False
    then have ms: "md_loop d b lf (filter (\<lambda>(c, now). reaches c) cs) = Some ms" using Cons.prems cn by simp
    from Cons.IH[OF ms] obtain items where i: "pipe_loop d mode b lf cs = Some items" "marked_of items = ms"
      "collected_of items = live_thinking mode cs" by blast
    have "\<exists>pre. pipe_loop d mode b lf (cn # cs) = Some (map Collect ?coll @ pre @ items) \<and> marked_of pre = [] \<and> collected_of pre = []"
      using False i(1) demux_step_cases[of mode c] unfolding reaches_def
      by (cases "demux_step mode [] c"; cases "sc_thinking c"; cases "sc_references c") (auto simp: cn intro: exI[of _ "[]"])
    then show ?thesis using i(2,3) False by (auto simp: cn)
  next
    case True
    then have th: "sc_thinking c = None" "sc_references c = None" by (simp_all add: reaches_def)
    then have dx: "demux_step mode [] c = ([c], [])" by (simp add: demux_step_def)
    from Cons.prems True have "md_loop d b lf ((c, now) # filter (\<lambda>(c, now). reaches c) cs) = Some ms" by (simp add: cn)
    then obtain outs nxt where f: "md_feed d b lf c now = Some (outs, nxt)"
      and n: "(case nxt of None \<Rightarrow> Some outs | Some (b', lf') \<Rightarrow> map_option (\<lambda>more. outs @ more) (md_loop d b' lf' (filter (\<lambda>(c, now). reaches c) cs))) = Some ms"
      unfolding md_loop_feed by (cases "md_feed d b lf c now") auto
    note fin = md_feed_next[OF f]
    show ?thesis
    proof (cases nxt)
      case None
      then show ?thesis using f n fin dx th True by (simp add: cn)
    next
      case (Some p)
      obtain b' lf' where p: "p = (b', lf')" by fastforce
      then obtain more where more: "md_loop d b' lf' (filter (\<lambda>(c, now). reaches c) cs) = Some more" "ms = outs @ more" using n Some by auto
      from Cons.IH[OF more(1)] obtain items where "pipe_loop d mode b' lf' cs = Some items" "marked_of items = more"
        "collected_of items = live_thinking mode cs" by blast
      then show ?thesis using f fin dx th more(2) Some p by (simp add: cn)
    qed
  qed
qed

lemma pipe_loop_ends:
  "pipe_loop d mode b lf cs = Some items \<Longrightarrow> \<exists>pre. items = pre @ [Marked finish_chunk]"
proof (induction cs arbitrary: b lf items)
  case Nil
  then show ?case by (auto simp: md_end_def split: Option.bind_splits)
next
  case (Cons cn cs)
  obtain c now where cn: "cn = (c, now)" by fastforce
  obtain passed coll where dx: "demux_step mode [] c = (passed, coll)" by fastforce
  show ?case
  proof (cases "passed \<noteq> [] \<and> sc_thinking c = None \<and> sc_references c = None")
    case True
    then obtain outs nxt rest where f: "md_feed d b lf c now = Some (outs, nxt)" "items = map Collect coll @ rest"
      and r: "(case nxt of None \<Rightarrow> Some (map Marked outs)
        | Some (b', lf') \<Rightarrow> map_option (\<lambda>items. map Marked outs @ items) (pipe_loop d mode b' lf' cs)) = Some rest"
      using Cons.prems dx by (auto simp: cn split: Option.bind_splits)
    show ?thesis
    proof (cases nxt)
      case None
      then have "sc_finish c" using md_feed_next[OF f(1)] by simp
      then show ?thesis using f None r by (auto simp: md_feed_def md_end_def split: Option.bind_splits)
    next
      case (Some p)
      then show ?thesis using Cons.IH r f(2) by (cases p) fastforce
    qed
  next
    case False
    then obtain pre rest where "pipe_loop d mode b lf cs = Some rest" "items = pre @ rest"
      using Cons.prems dx by (auto simp: cn split: if_splits option.splits)
    then show ?thesis using Cons.IH[of b lf rest] by fastforce
  qed
qed

text \<open>The chunks of a source up to the first finish chunk: what the pipeline consumes.\<close>

fun upto_finish :: "'r source_chunk list \<Rightarrow> 'r source_chunk list" where
  "upto_finish [] = []"
| "upto_finish (c # cs) = c # (if sc_finish c then [] else upto_finish cs)"

lemma split_chunk_live:
  assumes "map fst ts = split_chunk c"
  shows "live_text (filter (\<lambda>(c, now). reaches c) (ts @ us))
      = (case sc_text c of None \<Rightarrow> [] | Some t \<Rightarrow> t) @ (if sc_finish c then [] else live_text (filter (\<lambda>(c, now). reaches c) us))"
    "live_thinking mode (ts @ us)
      = (if mode = SEPARATE then (case sc_thinking c of Some th \<Rightarrow> [th] | None \<Rightarrow> []) else [])
        @ (if sc_finish c then [] else live_thinking mode us)"
  using assms
  by (cases "sc_text c"; cases "sc_thinking c"; cases "sc_references c"; cases "sc_finish c";
      auto simp: split_chunk_def source_chunk_default_def map_eq_Cons_conv reaches_def demux_step_cases)+

lemma split_live:
  assumes "map fst ts = splitter_process cs"
  shows "live_text (filter (\<lambda>(c, now). reaches c) ts) = concat (texts_of (upto_finish cs))
    \<and> live_thinking mode ts = (if mode = SEPARATE then thinkings_of (upto_finish cs) else [])"
  using assms
proof (induction cs arbitrary: ts)
  case Nil
  then show ?case by (simp add: splitter_process_def fields_of_defs)
next
  case (Cons c cs)
  then obtain ts1 ts2 where ts: "ts = ts1 @ ts2" "map fst ts1 = split_chunk c" "map fst ts2 = splitter_process cs"
    by (auto simp: splitter_process_def map_eq_append_conv)
  show ?case
    unfolding ts(1) split_chunk_live[OF ts(2)] using Cons.IH[OF ts(3)]
    by (auto simp: fields_of_defs split: option.splits)
qed

lemma timed_fst [simp]: "map fst (timed clock cs) = cs"
  by (simp add: timed_def comp_def map_nth)

section \<open>The loop over the pipeline\<close>

definition callbacks_return :: "('s, 'r) callbacks \<Rightarrow> bool" where
  "callbacks_return cb \<longleftrightarrow> always_returns (cb_text cb) \<and> always_returns (cb_thinking cb)
     \<and> always_returns (cb_references cb) \<and> always_returns (cb_hit cb)"

lemma stage_loop_marked:
  assumes cb: "callbacks_return cb" and live: "\<not> le_cancelled env n" and fin: "\<not> mc_finish m"
  shows "\<exists>hs s'. stage_loop env drain cb n fresh None (Marked m # items) out coll s
      = stage_loop env drain cb (Suc n) True None items
          (out\<lparr>so_content := so_content out @ (case mc_text m of None \<Rightarrow> [] | Some t \<Rightarrow> t), so_hits := so_hits out @ hs\<rparr>) coll s'
    \<and> map char_offset hs = replicate (length (mc_hits m)) (length (so_content out @ (case mc_text m of None \<Rightarrow> [] | Some t \<Rightarrow> t)))"
proof -
  let ?t = "case mc_text m of None \<Rightarrow> [] | Some t \<Rightarrow> t"
  let ?out1 = "out\<lparr>so_content := so_content out @ ?t\<rparr>"
  let ?step = "case mc_text m of
             Some t \<Rightarrow>
               if t \<noteq> [] then py_seq (cb_text cb t) (py_return (out\<lparr>so_content := so_content out @ t\<rparr>))
               else py_return out
           | None \<Rightarrow> py_return out"
  have "\<exists>s1. ?step s = (Inr ?out1, s1)"
  proof (cases "mc_text m")
    case (Some t)
    then show ?thesis using always_returnsD[of "cb_text cb" t s] cb by (auto simp: py_simps callbacks_return_def)
  qed (simp add: py_return_def)
  then obtain s1 where s1: "?step s = (Inr ?out1, s1)" by blast
  from stage_hits_returns[of "cb_hit cb" "mc_hits m" ?out1 s1] cb obtain hs s2 where
    h: "stage_hits (cb_hit cb) (mc_hits m) ?out1 s1 = (Inr (?out1\<lparr>so_hits := so_hits out @ hs\<rparr>), s2)"
    "map char_offset hs = replicate (length (mc_hits m)) (length (so_content out @ ?t))"
    by (auto simp: callbacks_return_def)
  show ?thesis using s1 h fin live by (intro exI[of _ hs] exI[of _ s2]) (simp add: py_bind_def)
qed

lemma stage_loop_aside:
  assumes "callbacks_return cb" "\<forall>m. item \<noteq> Marked m"
  shows "\<exists>s'. stage_loop env drain cb n fresh None (item # items) out coll s
    = stage_loop env drain cb (Suc n) False None items out (coll @ collected_of [item]) s'"
proof (cases item)
  case (Thinking th)
  then show ?thesis using always_returnsD[of "cb_thinking cb" th s] assms(1) by (auto simp: py_simps callbacks_return_def)
next
  case (References rs)
  then show ?thesis using always_returnsD[of "cb_references cb" rs s] assms(1) by (auto simp: py_simps callbacks_return_def)
qed (use assms(2) in auto)

lemma stage_loop_returns:
  assumes cb: "callbacks_return cb" and live: "\<And>n. \<not> le_cancelled env n"
    and fin: "\<forall>m \<in> set (marked_of pre). \<not> mc_finish m"
    and content: "so_content out = before @ cur"
  shows "\<exists>out' hs s'. stage_loop env drain cb n fresh None (pre @ [Marked finish_chunk]) out coll s
      = (Inr (out', coll @ collected_of pre), s')
    \<and> so_content out' = before @ concat (segments cur (marked_of pre @ [finish_chunk]))
    \<and> so_hits out' = so_hits out @ hs
    \<and> map char_offset hs = cut_offsets (length before) (segments cur (marked_of pre @ [finish_chunk]))"
  using fin content
proof (induction pre arbitrary: n fresh out s before cur coll)
  case Nil
  then show ?case using live by (simp add: finish_chunk_def py_simps)
next
  case (Cons item pre)
  show ?case
  proof (cases "\<exists>m. item = Marked m")
    case False
    then obtain s1 where s1: "stage_loop env drain cb n fresh None (item # pre @ [Marked finish_chunk]) out coll s
        = stage_loop env drain cb (Suc n) False None (pre @ [Marked finish_chunk]) out (coll @ collected_of [item]) s1"
      using stage_loop_aside[OF cb] by blast
    have "marked_of (item # pre) = marked_of pre" "collected_of (item # pre) = collected_of [item] @ collected_of pre"
      using False by (cases item; simp)+
    then show ?thesis
      using Cons.IH[of out before cur "Suc n" False "coll @ collected_of [item]" s1] Cons.prems s1 by simp
  next
    case True
    then obtain m where m: "item = Marked m" by blast
    let ?t = "case mc_text m of None \<Rightarrow> [] | Some t \<Rightarrow> t"
    obtain hs1 s2 where h: "stage_loop env drain cb n fresh None (Marked m # pre @ [Marked finish_chunk]) out coll s
        = stage_loop env drain cb (Suc n) True None (pre @ [Marked finish_chunk])
            (out\<lparr>so_content := so_content out @ ?t, so_hits := so_hits out @ hs1\<rparr>) coll s2"
      "map char_offset hs1 = replicate (length (mc_hits m)) (length (so_content out @ ?t))"
      using stage_loop_marked[OF cb live, of m] Cons.prems(1) m by (metis list.set_intros(1) marked_of.simps(2))
    let ?out2 = "out\<lparr>so_content := so_content out @ ?t, so_hits := so_hits out @ hs1\<rparr>"
    show ?thesis
    proof (cases "mc_hits m = []")
      case True
      then show ?thesis
        using Cons.IH[of ?out2 before "cur @ ?t" "Suc n" True coll s2] Cons.prems h m by auto
    next
      case False
      then obtain k where k: "length (mc_hits m) = Suc k" by (cases "mc_hits m") auto
      show ?thesis
        using Cons.IH[of ?out2 "before @ cur @ ?t" "[]" "Suc n" True coll s2] Cons.prems h m False k
        by (auto simp: cut_offsets_Cons cut_offsets_replicate)
    qed
  qed
qed

text \<open>The whole pipeline over any chunks.\<close>

lemma stage_pipeline_good:
  assumes "md_marker d \<noteq> []"
  shows "\<exists>pre. stage_pipeline d mode start clock cs = Some (pre @ [Marked finish_chunk])
    \<and> (\<forall>m \<in> set (marked_of pre). \<not> mc_finish m)
    \<and> segments [] (marked_of pre @ [finish_chunk]) = split_marker (md_marker d) (concat (texts_of (upto_finish cs)))
    \<and> collected_of pre = (if mode = SEPARATE then thinkings_of (upto_finish cs) else [])"
proof -
  let ?ts = "timed clock (splitter_process cs)"
  note sl = split_live[OF timed_fst[of clock "splitter_process cs"], of mode]
  from md_loop_good[OF assms, of "[]" "filter (\<lambda>(c, now). reaches c) ?ts" start] obtain ms where
    ms: "md_loop d [] start (filter (\<lambda>(c, now). reaches c) ?ts) = Some (ms @ [finish_chunk])"
    "\<forall>c \<in> set ms. \<not> mc_finish c"
    "segments [] (ms @ [finish_chunk]) = split_marker (md_marker d) (concat (texts_of (upto_finish cs)))"
    using sl unfolding md_good_def by fastforce
  from pipe_loop_marked[OF ms(1), of mode] obtain items where
    i: "pipe_loop d mode [] start ?ts = Some items" "marked_of items = ms @ [finish_chunk]"
    "collected_of items = live_thinking mode ?ts" by blast
  from pipe_loop_ends[OF i(1)] obtain pre where "items = pre @ [Marked finish_chunk]" by blast
  then show ?thesis using i ms(2,3) sl by (auto simp: stage_pipeline_def)
qed

definition governor_returns :: "'s resource_governor option \<Rightarrow> bool" where
  "governor_returns governor \<longleftrightarrow> (\<forall>gov. governor = Some gov \<longrightarrow>
     (\<forall>res timeout s. \<exists>tok s'. gov_acquire gov res timeout s = (Inr tok, s'))
     \<and> (\<forall>res. always_returns (gov_release gov res)))"

lemma stage_run_body:
  assumes items: "stage_pipeline (sg_detector cfg) (sg_mode cfg) start clock
      (source_chunks (sg_source_type cfg) (sg_content cfg) (sg_chunks cfg)) = Some items"
    and gov: "governor_returns governor" and ac: "always_returns (\<lambda>_::unit. aclose)"
    and loop: "\<And>s. \<exists>out s'. stage_loop env (sg_drain cfg) cb 0 True None items stage_outcome_init [] s = (Inr (out, coll), s')
      \<and> P out"
  shows "\<exists>out s'. stage_run governor cfg aclose env start clock cb s = Some (Inr (out\<lparr>so_thinking := concat coll\<rparr>), s') \<and> P out"
proof -
  let ?body = "py_bind (stage_loop env (sg_drain cfg) cb 0 True None items stage_outcome_init [])
    (\<lambda>(out, coll). py_return (out\<lparr>so_thinking := fst (demux_pop_collected coll)\<rparr>))"
  let ?close = "py_except aclose is_Exception (\<lambda>_. py_return ())"
  have close: "\<exists>s'. ?close s = (Inr (), s')" for s
    using always_returnsD[OF ac, of s] by (auto simp: py_simps)
  have body: "\<exists>out s'. ?body s = (Inr (out\<lparr>so_thinking := concat coll\<rparr>), s') \<and> P out" for s
    using loop[of s] by (auto simp: py_simps demux_pop_collected_def demux_collect_def)
  have fin: "\<exists>out s'. py_finally ?body fc s = (Inr (out\<lparr>so_thinking := concat coll\<rparr>), s') \<and> P out"
    if fc: "\<And>s. \<exists>s'. fc s = (Inr (), s')" for fc s
  proof -
    obtain out s1 where b: "?body s = (Inr (out\<lparr>so_thinking := concat coll\<rparr>), s1)" "P out" using body by blast
    obtain s2 where "fc s1 = (Inr (), s2)" using fc by blast
    then show ?thesis using b by (auto simp: py_finally_def)
  qed
  have rel: "\<exists>s'. py_seq ?close (if tok \<noteq> '''' then gov_release gov res tok else py_return ()) s = (Inr (), s')"
    if "governor = Some gov" for tok res gov s
  proof -
    obtain s1 where "?close s = (Inr (), s1)" using close by blast
    moreover have "\<exists>s'. gov_release gov res tok s1 = (Inr (), s')"
      using gov that by (intro always_returnsD) (simp add: governor_returns_def)
    ultimately show ?thesis by (auto simp: py_seq_def py_bind_def py_return_def)
  qed
  show ?thesis
  proof (cases governor)
    case None
    then show ?thesis using fin[of ?close s, OF close] items by (auto simp: stage_run_def Let_def split: option.splits)
  next
    case (Some gov)
    show ?thesis
    proof (cases "sg_resource cfg = None \<or> sg_resource cfg = Some ''''")
      case True
      then show ?thesis using fin[of ?close s, OF close] items Some by (auto simp: stage_run_def Let_def)
    next
      case False
      then obtain res where res: "sg_resource cfg = Some res" "res \<noteq> ''''" by auto
      obtain tok s1 where t: "gov_acquire gov res (sg_governor_timeout cfg) s = (Inr tok, s1)"
        using gov Some unfolding governor_returns_def by blast
      from fin[of "py_seq ?close (if tok \<noteq> '''' then gov_release gov res tok else py_return ())" s1, OF rel[OF Some]]
        items Some res t show ?thesis
        by (auto simp: stage_run_def Let_def py_bind_def)
    qed
  qed
qed

text \<open>C2. A stage, with or without a governed resource, whose token is not cancelled and whose callbacks and governor return:
  for every kind of source, the whole pipeline of splitter, demux, interception and detector ends, and the stage aggregates
  exactly the text of the source's chunks up to and including its first finish chunk (a text carried by that chunk is not
  lost), with the markers cut out, and gives every hit the offset of its marker in that text, whatever fields share a chunk
  and whatever the chunk boundaries, the flush triggers and the clock readings were; in separate mode the thinking is that
  of the same chunks, in the other modes it is empty.\<close>

theorem stage_content_and_offsets:
  assumes "md_marker (sg_detector cfg) \<noteq> []" "callbacks_return cb" "always_returns (\<lambda>_::unit. aclose)"
    "\<forall>n. \<not> le_cancelled env n" "governor_returns governor"
  shows "let live = upto_finish (source_chunks (sg_source_type cfg) (sg_content cfg) (sg_chunks cfg));
      pieces = split_marker (md_marker (sg_detector cfg)) (concat (texts_of live))
    in \<exists>out s'. stage_run governor cfg aclose env start clock cb s = Some (Inr out, s')
      \<and> so_content out = concat pieces \<and> map char_offset (so_hits out) = cut_offsets 0 pieces
      \<and> so_thinking out = (if sg_mode cfg = SEPARATE then concat (thinkings_of live) else [])"
proof -
  let ?live = "upto_finish (source_chunks (sg_source_type cfg) (sg_content cfg) (sg_chunks cfg))"
  let ?pieces = "split_marker (md_marker (sg_detector cfg)) (concat (texts_of ?live))"
  from stage_pipeline_good[OF assms(1)] obtain pre where
    pre: "stage_pipeline (sg_detector cfg) (sg_mode cfg) start clock
        (source_chunks (sg_source_type cfg) (sg_content cfg) (sg_chunks cfg)) = Some (pre @ [Marked finish_chunk])"
      "\<forall>m \<in> set (marked_of pre). \<not> mc_finish m" "segments [] (marked_of pre @ [finish_chunk]) = ?pieces"
      "collected_of pre = (if sg_mode cfg = SEPARATE then thinkings_of ?live else [])" by blast
  have loop: "\<exists>out s'. stage_loop env (sg_drain cfg) cb 0 True None (pre @ [Marked finish_chunk]) stage_outcome_init [] s
      = (Inr (out, collected_of pre), s') \<and> so_content out = concat ?pieces \<and> map char_offset (so_hits out) = cut_offsets 0 ?pieces" for s
    using stage_loop_returns[OF assms(2) _ pre(2), where env = env and out = stage_outcome_init and before = "[]" and cur = "[]"
      and drain = "sg_drain cfg" and n = 0 and fresh = True and coll = "[]" and s = s] assms(4) pre(3)
    by (auto simp: stage_outcome_init_def)
  from stage_run_body[OF pre(1) assms(5,3) loop, of s] obtain out s' where
    r: "stage_run governor cfg aclose env start clock cb s = Some (Inr (out\<lparr>so_thinking := concat (collected_of pre)\<rparr>), s')"
      "so_content out = concat ?pieces" "map char_offset (so_hits out) = cut_offsets 0 ?pieces" by blast
  show ?thesis unfolding Let_def
    by (intro exI[of _ "out\<lparr>so_thinking := concat (collected_of pre)\<rparr>"] exI[of _ s']) (use r pre(4) in auto)
qed

definition demo_detector :: marker_detector where
  "demo_detector = \<lparr>md_marker = lit ''![img]'', md_flush_threshold = 50, md_flush_timeout = 1/10,
     md_context_strategy = ''paragraph''\<rparr>"

text \<open>A source whose last chunk carries thinking and text beside the finish flag, and one chunk after it.\<close>

definition demo_stage :: "unit stage_config" where
  "demo_stage = \<lparr>sg_source_type = LLM, sg_content = None,
     sg_chunks = [source_chunk_default\<lparr>sc_text := Some (lit ''ab![i'')\<rparr>,
       source_chunk_default\<lparr>sc_text := Some (lit ''mg]c''), sc_thinking := Some (lit ''t''), sc_finish := True\<rparr>,
       source_chunk_default\<lparr>sc_text := Some (lit ''x'')\<rparr>],
     sg_mode = SEPARATE, sg_detector = demo_detector, sg_resource = Some ''default_stream_llm'',
     sg_drain = 30, sg_governor_timeout = 1\<rparr>"

definition demo_env :: loop_env where
  "demo_env = \<lparr>le_time = (\<lambda>_. 0), le_wait_expires = (\<lambda>_. False), le_cancelled = (\<lambda>_. False),
     le_time_after = (\<lambda>_. 0)\<rparr>"

definition demo_callbacks :: "(unit, unit) callbacks" where
  "demo_callbacks = \<lparr>cb_text = (\<lambda>_. py_return ()), cb_thinking = (\<lambda>_. py_return ()),
     cb_references = (\<lambda>_. py_return ()), cb_hit = (\<lambda>_. py_return ())\<rparr>"

definition demo_stage_governor :: "unit resource_governor" where
  "demo_stage_governor = \<lparr>gov_acquire = (\<lambda>_ _. py_return ''tok''), gov_release = (\<lambda>_ _. py_return ())\<rparr>"

lemma demo_live:
  "texts_of (upto_finish (source_chunks (sg_source_type demo_stage) (sg_content demo_stage) (sg_chunks demo_stage)))
     = [lit ''ab![i'', lit ''mg]c'']"
  "thinkings_of (upto_finish (source_chunks (sg_source_type demo_stage) (sg_content demo_stage) (sg_chunks demo_stage)))
     = [lit ''t'']"
  by (simp_all add: demo_stage_def source_chunks_def source_chunk_default_def fields_of_defs)

lemma demo_split:
  "split_marker (md_marker (sg_detector demo_stage)) (concat [lit ''ab![i'', lit ''mg]c'']) = [lit ''ab'', lit ''c'']"
  by (simp add: demo_stage_def demo_detector_def lit_def split_marker.simps startswith_def)

lemma demo_cuts:
  "concat [lit ''ab'', lit ''c''] = lit ''abc''" "cut_offsets 0 [lit ''ab'', lit ''c''] = [2]"
  "concat [lit ''t''] = lit ''t''" "(sg_mode demo_stage = SEPARATE) = True"
  by (simp_all add: lit_def demo_stage_def)

theorem stage_content_and_offsets_witness:
  "\<exists>out s'. stage_run (Some demo_stage_governor) demo_stage (py_return ()) demo_env 0 real demo_callbacks () = Some (Inr out, s')
     \<and> so_content out = lit ''abc'' \<and> map char_offset (so_hits out) = [2] \<and> so_thinking out = lit ''t''"
proof -
  have h: "md_marker (sg_detector demo_stage) \<noteq> []" "\<forall>n. \<not> le_cancelled demo_env n" "callbacks_return demo_callbacks"
    "governor_returns (Some demo_stage_governor)"
    by (simp_all add: demo_stage_def demo_detector_def demo_env_def demo_callbacks_def callbacks_return_def always_returns_return
        governor_returns_def demo_stage_governor_def py_return_def always_returns_def)
  from stage_content_and_offsets[OF h(1,3) always_returns_return h(2,4), where start = 0 and clock = real and s = "()"]
  show ?thesis unfolding Let_def demo_live demo_split demo_cuts if_True .
qed

end
