(* ===== verification/Redis_Service.thy ===== *)
theory Redis_Service
  imports Prelude "HOL-Library.List_Lexorder" "HOL-Library.Char_ord" "HOL-Library.Product_Lexorder"
begin

text \<open>
  The Redis server that \<^verbatim>\<open>packages/core\<close> talks to.  Redis is not part of the repository: its
  commands are a parameter, the record \<^verbatim>\<open>redis\<close> over an arbitrary server state, and what the code
  relies on is the locale \<^verbatim>\<open>redis_service\<close>: seen through a view of the server state as a
  keyspace, each command acts as the Redis command reference says, on keys that are absent or
  of the right type.  How \<^verbatim>\<open>TTL\<close> rounds to seconds is left open.  \<^verbatim>\<open>ks_redis\<close> is the instance in
  which the server state is the keyspace itself.

  A Redis string is represented by what its text denotes: a JSON document, a decimal integer,
  or the two integers that the token bucket writes.  A Lua script runs atomically, so it is a
  state transformer; a Python coroutine is a sequence of such calls, and before each of them
  the rest of the world may act on the server or the connection may fail
  (\<^verbatim>\<open>redis_call\<close>).
\<close>

section \<open>Values and keyspace\<close>

datatype json = JNull | JBool bool | JNum real | JStr string | JArr "json list"
  | JObj "(string \<times> json) list"

type_synonym jdict = "(string, json) dict"

datatype rstr = TJson json | TInt int | TPair int int

datatype rval = RStr rstr | RZset "(string \<times> real) list" | RSet "string list"
  | RHash "(string \<times> rstr) list"

datatype kind = KStr | KZset | KSet | KHash

fun kind_of :: "rval \<Rightarrow> kind" where
  "kind_of (RStr _) = KStr"
| "kind_of (RZset _) = KZset"
| "kind_of (RSet _) = KSet"
| "kind_of (RHash _) = KHash"

text \<open>Live keys with their values, the deadlines (in ms) of those that expire, and the server
  clock in microseconds.\<close>

record keyspace =
  ks_vals :: "string \<Rightarrow> rval option"
  ks_dl :: "string \<Rightarrow> int option"
  ks_us :: nat

definition ks_ms :: "keyspace \<Rightarrow> int" where
  "ks_ms ks = int (ks_us ks div 1000)"

definition ks_put :: "string \<Rightarrow> rval option \<Rightarrow> int option \<Rightarrow> keyspace \<Rightarrow> keyspace" where
  "ks_put k v dl ks = ks\<lparr>ks_vals := (ks_vals ks)(k := v), ks_dl := (ks_dl ks)(k := dl)\<rparr>"

definition ks_keep_dl :: "string \<Rightarrow> keyspace \<Rightarrow> int option" where
  "ks_keep_dl k ks = (if ks_vals ks k = None then None else ks_dl ks k)"

lemma ks_put_simps [simp]:
  "ks_vals (ks_put k v dl ks) k' = (if k' = k then v else ks_vals ks k')"
  "ks_dl (ks_put k v dl ks) k' = (if k' = k then dl else ks_dl ks k')"
  "ks_us (ks_put k v dl ks) = ks_us ks" "ks_ms (ks_put k v dl ks) = ks_ms ks"
  by (auto simp: ks_put_def ks_ms_def)

section \<open>Reference semantics of the commands\<close>

definition ks_time :: "keyspace \<Rightarrow> nat \<times> nat" where
  "ks_time ks = (ks_us ks div 1000000, ks_us ks mod 1000000)"

definition ks_get :: "string \<Rightarrow> keyspace \<Rightarrow> rstr option" where
  "ks_get k ks = (case ks_vals ks k of Some (RStr v) \<Rightarrow> Some v | _ \<Rightarrow> None)"

definition ks_exists :: "string \<Rightarrow> keyspace \<Rightarrow> bool" where
  "ks_exists k ks \<longleftrightarrow> ks_vals ks k \<noteq> None"

definition ks_zset :: "string \<Rightarrow> keyspace \<Rightarrow> (string \<times> real) list" where
  "ks_zset k ks = (case ks_vals ks k of Some (RZset z) \<Rightarrow> z | _ \<Rightarrow> [])"

definition ks_hash :: "string \<Rightarrow> keyspace \<Rightarrow> (string \<times> rstr) list" where
  "ks_hash k ks = (case ks_vals ks k of Some (RHash h) \<Rightarrow> h | _ \<Rightarrow> [])"

definition ks_set :: "string \<Rightarrow> keyspace \<Rightarrow> string list" where
  "ks_set k ks = (case ks_vals ks k of Some (RSet x) \<Rightarrow> x | _ \<Rightarrow> [])"

text \<open>An aggregate that becomes empty is removed.\<close>

definition ks_put_zset :: "string \<Rightarrow> (string \<times> real) list \<Rightarrow> keyspace \<Rightarrow> keyspace" where
  "ks_put_zset k z ks =
     (if z = [] then ks_put k None None ks else ks_put k (Some (RZset z)) (ks_keep_dl k ks) ks)"

definition ks_put_hash :: "string \<Rightarrow> (string \<times> rstr) list \<Rightarrow> keyspace \<Rightarrow> keyspace" where
  "ks_put_hash k h ks =
     (if h = [] then ks_put k None None ks else ks_put k (Some (RHash h)) (ks_keep_dl k ks) ks)"

definition ks_put_set :: "string \<Rightarrow> string list \<Rightarrow> keyspace \<Rightarrow> keyspace" where
  "ks_put_set k x ks =
     (if x = [] then ks_put k None None ks else ks_put k (Some (RSet x)) (ks_keep_dl k ks) ks)"

definition ks_expire :: "string \<Rightarrow> int \<Rightarrow> keyspace \<Rightarrow> keyspace" where
  "ks_expire k sec ks =
     (if ks_vals ks k = None then ks
      else if sec \<le> 0 then ks_put k None None ks
      else ks_put k (ks_vals ks k) (Some (ks_ms ks + 1000 * sec)) ks)"

definition zrange_of :: "(string \<times> real) list \<Rightarrow> string list" where
  "zrange_of z = map fst (sort_key (\<lambda>(m, sc). (sc, m)) z)"

definition set_add :: "string \<Rightarrow> string list \<Rightarrow> string list" where
  "set_add m x = (if m \<in> set x then x else x @ [m])"

definition rint :: "rstr option \<Rightarrow> int" where
  "rint v = (case v of Some (TInt i) \<Rightarrow> i | _ \<Rightarrow> 0)"

definition str_or_absent :: "string \<Rightarrow> keyspace \<Rightarrow> bool" where
  "str_or_absent k ks \<longleftrightarrow> (case ks_vals ks k of None \<Rightarrow> True | Some v \<Rightarrow> kind_of v = KStr)"

definition zset_or_absent :: "string \<Rightarrow> keyspace \<Rightarrow> bool" where
  "zset_or_absent k ks \<longleftrightarrow> (case ks_vals ks k of None \<Rightarrow> True | Some v \<Rightarrow> kind_of v = KZset)"

definition set_or_absent :: "string \<Rightarrow> keyspace \<Rightarrow> bool" where
  "set_or_absent k ks \<longleftrightarrow> (case ks_vals ks k of None \<Rightarrow> True | Some v \<Rightarrow> kind_of v = KSet)"

definition hash_or_absent :: "string \<Rightarrow> keyspace \<Rightarrow> bool" where
  "hash_or_absent k ks \<longleftrightarrow> (case ks_vals ks k of None \<Rightarrow> True | Some v \<Rightarrow> kind_of v = KHash)"

section \<open>The commands as a parameter\<close>

record 'r redis =
  r_time :: "'r \<Rightarrow> nat \<times> nat"
  r_get :: "string \<Rightarrow> 'r \<Rightarrow> rstr option"
  r_exists :: "string \<Rightarrow> 'r \<Rightarrow> bool"
  r_ttl :: "string \<Rightarrow> 'r \<Rightarrow> int"
  r_set :: "string \<Rightarrow> rstr \<Rightarrow> 'r \<Rightarrow> 'r"
  r_setex :: "string \<Rightarrow> rstr \<Rightarrow> int \<Rightarrow> 'r \<Rightarrow> 'r"
  r_del :: "string \<Rightarrow> 'r \<Rightarrow> 'r"
  r_expire :: "string \<Rightarrow> int \<Rightarrow> 'r \<Rightarrow> 'r"
  r_decr :: "string \<Rightarrow> 'r \<Rightarrow> int \<times> 'r"
  r_zadd :: "string \<Rightarrow> real \<Rightarrow> string \<Rightarrow> 'r \<Rightarrow> 'r"
  r_zrem :: "string \<Rightarrow> string \<Rightarrow> 'r \<Rightarrow> 'r"
  r_zscore :: "string \<Rightarrow> string \<Rightarrow> 'r \<Rightarrow> real option"
  r_zcard :: "string \<Rightarrow> 'r \<Rightarrow> nat"
  r_zrange :: "string \<Rightarrow> 'r \<Rightarrow> string list"
  r_zrangebyscore :: "string \<Rightarrow> real \<Rightarrow> 'r \<Rightarrow> string list"
  r_zremrangebyscore :: "string \<Rightarrow> real \<Rightarrow> 'r \<Rightarrow> 'r"
  r_hset :: "string \<Rightarrow> string \<Rightarrow> rstr \<Rightarrow> 'r \<Rightarrow> 'r"
  r_hget :: "string \<Rightarrow> string \<Rightarrow> 'r \<Rightarrow> rstr option"
  r_hdel :: "string \<Rightarrow> string \<Rightarrow> 'r \<Rightarrow> 'r"
  r_sadd :: "string \<Rightarrow> string \<Rightarrow> 'r \<Rightarrow> nat \<times> 'r"
  r_srem :: "string \<Rightarrow> string \<Rightarrow> 'r \<Rightarrow> 'r"
  r_scard :: "string \<Rightarrow> 'r \<Rightarrow> nat"
  r_smembers :: "string \<Rightarrow> 'r \<Rightarrow> string list"

text \<open>The instance in which the server state is the keyspace.  It rounds TTL down.\<close>

definition ks_redis :: "keyspace redis" where
  "ks_redis = \<lparr>
     r_time = ks_time, r_get = ks_get, r_exists = ks_exists,
     r_ttl = (\<lambda>k ks. if ks_vals ks k = None then -2
        else case ks_dl ks k of None \<Rightarrow> -1 | Some d \<Rightarrow> max 0 ((d - ks_ms ks) div 1000)),
     r_set = (\<lambda>k v. ks_put k (Some (RStr v)) None),
     r_setex = (\<lambda>k v sec ks. ks_put k (Some (RStr v)) (Some (ks_ms ks + 1000 * sec)) ks),
     r_del = (\<lambda>k. ks_put k None None),
     r_expire = ks_expire,
     r_decr = (\<lambda>k ks. let n = rint (ks_get k ks) - 1
        in (n, ks_put k (Some (RStr (TInt n))) (ks_keep_dl k ks) ks)),
     r_zadd = (\<lambda>k sc m ks. ks_put_zset k (dset m sc (ks_zset k ks)) ks),
     r_zrem = (\<lambda>k m ks. ks_put_zset k (ddel m (ks_zset k ks)) ks),
     r_zscore = (\<lambda>k m ks. map_of (ks_zset k ks) m),
     r_zcard = (\<lambda>k ks. length (ks_zset k ks)),
     r_zrange = (\<lambda>k ks. zrange_of (ks_zset k ks)),
     r_zrangebyscore = (\<lambda>k hi ks. zrange_of (filter (\<lambda>(m, sc). sc \<le> hi) (ks_zset k ks))),
     r_zremrangebyscore = (\<lambda>k hi ks. ks_put_zset k (filter (\<lambda>(m, sc). hi < sc) (ks_zset k ks)) ks),
     r_hset = (\<lambda>k f v ks. ks_put_hash k (dset f v (ks_hash k ks)) ks),
     r_hget = (\<lambda>k f ks. map_of (ks_hash k ks) f),
     r_hdel = (\<lambda>k f ks. ks_put_hash k (ddel f (ks_hash k ks)) ks),
     r_sadd = (\<lambda>k m ks. (if m \<in> set (ks_set k ks) then 0 else 1, ks_put_set k (set_add m (ks_set k ks)) ks)),
     r_srem = (\<lambda>k m ks. ks_put_set k (removeAll m (ks_set k ks)) ks),
     r_scard = (\<lambda>k ks. length (ks_set k ks)),
     r_smembers = ks_set\<rparr>"

section \<open>What the code relies on\<close>

definition ttl_documented :: "int \<Rightarrow> string \<Rightarrow> keyspace \<Rightarrow> bool" where
  "ttl_documented t k ks \<longleftrightarrow>
     (if ks_vals ks k = None then t = -2
      else case ks_dl ks k of
        None \<Rightarrow> t = -1
      | Some d \<Rightarrow> 0 \<le> t \<and> (ks_ms ks < d \<longrightarrow> \<bar>(d - ks_ms ks) - 1000 * t\<bar> \<le> 1000))"

locale redis_service =
  fixes R :: "'r redis" and view :: "'r \<Rightarrow> keyspace"
  assumes time [simp]: "r_time R s = ks_time (view s)"
    and get: "str_or_absent k (view s) \<Longrightarrow> r_get R k s = ks_get k (view s)"
    and exists [simp]: "r_exists R k s = ks_exists k (view s)"
    and ttl: "ttl_documented (r_ttl R k s) k (view s)"
    and set [simp]: "view (r_set R k v s) = ks_put k (Some (RStr v)) None (view s)"
    and setex: "0 < sec \<Longrightarrow> view (r_setex R k v sec s)
      = ks_put k (Some (RStr v)) (Some (ks_ms (view s) + 1000 * sec)) (view s)"
    and del [simp]: "view (r_del R k s) = ks_put k None None (view s)"
    and expire [simp]: "view (r_expire R k sec s) = ks_expire k sec (view s)"
    and decr: "ks_vals (view s) k = None \<or> (\<exists>i. ks_vals (view s) k = Some (RStr (TInt i))) \<Longrightarrow>
      fst (r_decr R k s) = rint (ks_get k (view s)) - 1
      \<and> view (snd (r_decr R k s))
        = ks_put k (Some (RStr (TInt (rint (ks_get k (view s)) - 1)))) (ks_keep_dl k (view s)) (view s)"
    and zadd: "zset_or_absent k (view s) \<Longrightarrow>
      view (r_zadd R k sc m s) = ks_put_zset k (dset m sc (ks_zset k (view s))) (view s)"
    and zrem: "zset_or_absent k (view s) \<Longrightarrow>
      view (r_zrem R k m s) = ks_put_zset k (ddel m (ks_zset k (view s))) (view s)"
    and zscore: "zset_or_absent k (view s) \<Longrightarrow> r_zscore R k m s = map_of (ks_zset k (view s)) m"
    and zcard: "zset_or_absent k (view s) \<Longrightarrow> r_zcard R k s = length (ks_zset k (view s))"
    and zrange: "zset_or_absent k (view s) \<Longrightarrow> r_zrange R k s = zrange_of (ks_zset k (view s))"
    and zrangebyscore: "zset_or_absent k (view s) \<Longrightarrow>
      r_zrangebyscore R k hi s = zrange_of (filter (\<lambda>(m, sc). sc \<le> hi) (ks_zset k (view s)))"
    and zremrangebyscore: "zset_or_absent k (view s) \<Longrightarrow>
      view (r_zremrangebyscore R k hi s)
        = ks_put_zset k (filter (\<lambda>(m, sc). hi < sc) (ks_zset k (view s))) (view s)"
    and hset: "hash_or_absent k (view s) \<Longrightarrow>
      view (r_hset R k f v s) = ks_put_hash k (dset f v (ks_hash k (view s))) (view s)"
    and hget: "hash_or_absent k (view s) \<Longrightarrow> r_hget R k f s = map_of (ks_hash k (view s)) f"
    and hdel: "hash_or_absent k (view s) \<Longrightarrow>
      view (r_hdel R k f s) = ks_put_hash k (ddel f (ks_hash k (view s))) (view s)"
    and sadd: "set_or_absent k (view s) \<Longrightarrow>
      fst (r_sadd R k m s) = (if m \<in> set (ks_set k (view s)) then 0 else 1)
      \<and> view (snd (r_sadd R k m s)) = ks_put_set k (set_add m (ks_set k (view s))) (view s)"
    and srem: "set_or_absent k (view s) \<Longrightarrow>
      view (r_srem R k m s) = ks_put_set k (removeAll m (ks_set k (view s))) (view s)"
    and scard: "set_or_absent k (view s) \<Longrightarrow> r_scard R k s = length (ks_set k (view s))"
    and smembers: "set_or_absent k (view s) \<Longrightarrow> set (r_smembers R k s) = set (ks_set k (view s))
      \<and> (distinct (ks_set k (view s)) \<longrightarrow> distinct (r_smembers R k s))"

lemma ks_redis_simps [simp]:
  "r_time ks_redis = ks_time" "r_get ks_redis = ks_get" "r_exists ks_redis = ks_exists"
  "r_set ks_redis k v = ks_put k (Some (RStr v)) None"
  "r_setex ks_redis k v sec ks = ks_put k (Some (RStr v)) (Some (ks_ms ks + 1000 * sec)) ks"
  "r_del ks_redis k = ks_put k None None" "r_expire ks_redis = ks_expire"
  "r_zadd ks_redis k sc m ks = ks_put_zset k (dset m sc (ks_zset k ks)) ks"
  "r_zrem ks_redis k m ks = ks_put_zset k (ddel m (ks_zset k ks)) ks"
  "r_zscore ks_redis k m ks = map_of (ks_zset k ks) m"
  "r_zcard ks_redis k ks = length (ks_zset k ks)"
  "r_zrange ks_redis k ks = zrange_of (ks_zset k ks)"
  "r_zrangebyscore ks_redis k hi ks = zrange_of (filter (\<lambda>(m, sc). sc \<le> hi) (ks_zset k ks))"
  "r_zremrangebyscore ks_redis k hi ks = ks_put_zset k (filter (\<lambda>(m, sc). hi < sc) (ks_zset k ks)) ks"
  "r_hset ks_redis k f v ks = ks_put_hash k (dset f v (ks_hash k ks)) ks"
  "r_hget ks_redis k f ks = map_of (ks_hash k ks) f"
  "r_hdel ks_redis k f ks = ks_put_hash k (ddel f (ks_hash k ks)) ks"
  "r_sadd ks_redis k m ks =
     (if m \<in> set (ks_set k ks) then 0 else 1, ks_put_set k (set_add m (ks_set k ks)) ks)"
  "r_srem ks_redis k m ks = ks_put_set k (removeAll m (ks_set k ks)) ks"
  "r_scard ks_redis k ks = length (ks_set k ks)"
  "r_smembers ks_redis = ks_set"
  "r_decr ks_redis k ks = (rint (ks_get k ks) - 1,
     ks_put k (Some (RStr (TInt (rint (ks_get k ks) - 1)))) (ks_keep_dl k ks) ks)"
  by (simp_all add: ks_redis_def Let_def)

lemma r_ttl_ks_redis:
  "r_ttl ks_redis k ks = (if ks_vals ks k = None then -2
     else case ks_dl ks k of None \<Rightarrow> -1 | Some d \<Rightarrow> max 0 ((d - ks_ms ks) div 1000))"
  by (simp add: ks_redis_def)

lemma ttl_ks_redis: "ttl_documented (r_ttl ks_redis k ks) k ks"
proof (cases "ks_dl ks k")
  case (Some d)
  let ?x = "d - ks_ms ks"
  have "1000 * (?x div 1000) + ?x mod 1000 = ?x" "0 \<le> ?x mod 1000" "?x mod 1000 < 1000"
    by (rule mult_div_mod_eq) simp_all
  moreover have "0 \<le> ?x div 1000" if "ks_ms ks < d"
    using that by (simp add: pos_imp_zdiv_nonneg_iff)
  ultimately show ?thesis
    using Some by (auto simp: ttl_documented_def r_ttl_ks_redis max_def)
qed (simp add: ttl_documented_def r_ttl_ks_redis)

interpretation ks: redis_service ks_redis "\<lambda>ks. ks"
  by unfold_locales (simp_all add: ttl_ks_redis)

section \<open>Typing of the keyspace\<close>

text \<open>The code uses families of keys, each for one type of value.  \<^term>\<open>ty\<close> says which type a key is
  for; it exists when the families are disjoint.\<close>

definition well_typed :: "(string \<Rightarrow> kind) \<Rightarrow> keyspace \<Rightarrow> bool" where
  "well_typed ty ks \<longleftrightarrow> (\<forall>k v. ks_vals ks k = Some v \<longrightarrow> kind_of v = ty k)"

lemma well_typedD:
  assumes "well_typed ty ks"
  shows "ty k = KStr \<Longrightarrow> str_or_absent k ks" "ty k = KZset \<Longrightarrow> zset_or_absent k ks"
    "ty k = KSet \<Longrightarrow> set_or_absent k ks" "ty k = KHash \<Longrightarrow> hash_or_absent k ks"
  using assms by (auto simp: well_typed_def str_or_absent_def zset_or_absent_def
    set_or_absent_def hash_or_absent_def split: option.splits)

lemma well_typed_put:
  "well_typed ty ks \<Longrightarrow> v = None \<or> kind_of (the v) = ty k \<Longrightarrow> well_typed ty (ks_put k v dl ks)"
  by (auto simp: well_typed_def)

lemma well_typed_put_zset: "well_typed ty ks \<Longrightarrow> ty k = KZset \<Longrightarrow> well_typed ty (ks_put_zset k z ks)"
  by (simp add: ks_put_zset_def well_typed_put)

lemma well_typed_expire: "well_typed ty ks \<Longrightarrow> well_typed ty (ks_expire k sec ks)"
  by (auto simp: ks_expire_def well_typed_def)

lemmas well_typed_intros = well_typed_put well_typed_put_zset well_typed_expire

lemma ks_zset_put_zset [simp]:
  "ks_zset k (ks_put_zset k' z ks) = (if k = k' then z else ks_zset k ks)"
  by (simp add: ks_zset_def ks_put_zset_def)

lemma ks_zset_put_other [simp]: "k \<noteq> k' \<Longrightarrow> ks_zset k (ks_put k' v dl ks) = ks_zset k ks"
  by (simp add: ks_zset_def)

lemma ks_zset_expire [simp]: "0 < sec \<Longrightarrow> ks_zset k (ks_expire k' sec ks) = ks_zset k ks"
  by (simp add: ks_zset_def ks_expire_def)

lemma ks_vals_expire [simp]: "0 < sec \<Longrightarrow> ks_vals (ks_expire k' sec ks) = ks_vals ks"
  by (auto simp: ks_expire_def)

lemma ks_vals_put_zset:
  "ks_vals (ks_put_zset k z ks) k' = (if k' = k then if z = [] then None else Some (RZset z) else ks_vals ks k')"
  by (simp add: ks_put_zset_def)

lemma ks_us_simps [simp]:
  "ks_us (ks_put_zset k z ks) = ks_us ks" "ks_us (ks_expire k sec ks) = ks_us ks"
  "ks_ms (ks_put_zset k z ks) = ks_ms ks" "ks_ms (ks_expire k sec ks) = ks_ms ks"
  by (auto simp: ks_put_zset_def ks_expire_def ks_ms_def)

text \<open>The millisecond clock every script computes from TIME.\<close>

definition lua_now_ms :: "nat \<times> nat \<Rightarrow> int" where
  "lua_now_ms t = int (fst t) * 1000 + int (snd t) div 1000"

lemma lua_now_ms_time [simp]: "lua_now_ms (ks_time ks) = ks_ms ks"
proof -
  let ?u = "ks_us ks"
  have "?u mod 1000000 = 1000 * (?u div 1000 mod 1000) + ?u mod 1000"
    using mod_mult2_eq[of ?u 1000 1000] by simp
  then have "?u mod 1000000 div 1000 = ?u div 1000 mod 1000" by simp
  moreover have "?u div 1000000 = ?u div 1000 div 1000"
    using div_mult2_eq[of ?u 1000 1000] by simp
  ultimately have "?u div 1000000 * 1000 + ?u mod 1000000 div 1000 = ?u div 1000"
    by (simp add: div_mult_mod_eq)
  then show ?thesis
    unfolding lua_now_ms_def ks_time_def ks_ms_def fst_conv snd_conv
    by (drule_tac arg_cong[where f = int]) (simp only: of_nat_add of_nat_mult of_nat_numeral zdiv_int)
qed

section \<open>Calls from Python\<close>

text \<open>What happens at the n-th call of a coroutine: the rest of the world changes the server state
  (other clients, the clock, expiry), and the connection may fail before or after the server
  has executed the call.\<close>

datatype fault = No_fault | Fault_before exn | Fault_after exn

record 'r world =
  w_db :: 'r
  w_env :: "nat \<Rightarrow> 'r \<Rightarrow> 'r"
  w_fault :: "nat \<Rightarrow> fault"
  w_pc :: nat

definition redis_call :: "('r \<Rightarrow> 'a \<times> 'r) \<Rightarrow> (('r, 'z) world_scheme, 'a) py" where
  "redis_call f w =
     (let d = w_env w (w_pc w) (w_db w); w' = w\<lparr>w_pc := Suc (w_pc w)\<rparr>
      in case w_fault w (w_pc w) of
           No_fault \<Rightarrow> (Inr (fst (f d)), w'\<lparr>w_db := snd (f d)\<rparr>)
         | Fault_before e \<Rightarrow> (Inl e, w'\<lparr>w_db := d\<rparr>)
         | Fault_after e \<Rightarrow> (Inl e, w'\<lparr>w_db := snd (f d)\<rparr>))"

definition redis_read :: "('r \<Rightarrow> 'a) \<Rightarrow> (('r, 'z) world_scheme, 'a) py" where
  "redis_read f = redis_call (\<lambda>d. (f d, d))"

definition redis_write :: "('r \<Rightarrow> 'r) \<Rightarrow> (('r, 'z) world_scheme, unit) py" where
  "redis_write f = redis_call (\<lambda>d. ((), f d))"

text \<open>A world without interference and without faults.\<close>

definition quiet_world :: "'r \<Rightarrow> 'r world" where
  "quiet_world d = \<lparr>w_db = d, w_env = (\<lambda>_ d. d), w_fault = (\<lambda>_. No_fault), w_pc = 0\<rparr>"

lemma quiet_world_simps [simp]:
  "w_db (quiet_world d) = d" "w_env (quiet_world d) = (\<lambda>_ d. d)" "w_fault (quiet_world d) = (\<lambda>_. No_fault)"
  "w_pc (quiet_world d) = 0"
  by (simp_all add: quiet_world_def)

text \<open>Time passes: the clock advances and the keys whose deadline is reached disappear.\<close>

definition ks_elapse :: "nat \<Rightarrow> keyspace \<Rightarrow> keyspace" where
  "ks_elapse us ks =
     (let now = int ((ks_us ks + us) div 1000);
          dead = (\<lambda>k. case ks_dl ks k of None \<Rightarrow> False | Some d \<Rightarrow> d \<le> now)
      in \<lparr>ks_vals = (\<lambda>k. if dead k then None else ks_vals ks k),
          ks_dl = (\<lambda>k. if dead k then None else ks_dl ks k), ks_us = ks_us ks + us\<rparr>)"

definition empty_ks :: "nat \<Rightarrow> keyspace" where
  "empty_ks us = \<lparr>ks_vals = (\<lambda>_. None), ks_dl = (\<lambda>_. None), ks_us = us\<rparr>"

lemma empty_ks_simps [simp]:
  "ks_vals (empty_ks us) k = None" "ks_dl (empty_ks us) k = None" "ks_us (empty_ks us) = us"
  "ks_zset k (empty_ks us) = []" "ks_get k (empty_ks us) = None" "well_typed ty (empty_ks us)"
  "zset_or_absent k (empty_ks us)" "str_or_absent k (empty_ks us)"
  by (simp_all add: empty_ks_def ks_zset_def ks_get_def well_typed_def zset_or_absent_def str_or_absent_def)

lemma triple_redis_call:
  assumes "\<And>w d. P w \<Longrightarrow> d = w_env w (w_pc w) (w_db w) \<Longrightarrow>
      Q (fst (f d)) (w\<lparr>w_pc := Suc (w_pc w), w_db := snd (f d)\<rparr>)
      \<and> (\<forall>e. E e (w\<lparr>w_pc := Suc (w_pc w), w_db := d\<rparr>) \<and> E e (w\<lparr>w_pc := Suc (w_pc w), w_db := snd (f d)\<rparr>))"
  shows "triple P (redis_call f) Q E"
  using assms by (auto simp: triple_def redis_call_def Let_def split: fault.splits)

end
