(* ===== verification/Semaphore.thy ===== *)
theory Semaphore
  imports Redis_Service
begin

text \<open>
  The distributed lease semaphore (\<^verbatim>\<open>core/limiter/semaphore.py\<close>, \<^verbatim>\<open>core/limiter/lease.py\<close>) and its
  Lua scripts.  A slot is a member of a sorted set whose score is the time of the last renewal.
  The scripts are state transformers of the server; \<^verbatim>\<open>sem_run\<close> closes them under arbitrary
  interleaving of clients and the passing of time.
\<close>

section \<open>sem_acquire.lua, sem_refresh.lua, sem_release.lua\<close>

definition sem_key_ttl :: "real \<Rightarrow> int" where
  "sem_key_ttl lease = max 1 \<lfloor>lease * 2\<rfloor>"

definition sem_acquire_lua ::
  "'r redis \<Rightarrow> string \<Rightarrow> int \<Rightarrow> real \<Rightarrow> string \<Rightarrow> 'r \<Rightarrow> string option \<times> 'r" where
  "sem_acquire_lua R key limit lease token d =
     (let now_ms = lua_now_ms (r_time R d);
          d1 = r_zremrangebyscore R key (of_int now_ms - lease * 1000) d
      in if int (r_zcard R key d1) < limit
         then let d2 = r_zadd R key (of_int now_ms) token d1
              in (Some token, r_expire R key (sem_key_ttl lease) d2)
         else (None, d1))"

definition sem_refresh_lua :: "'r redis \<Rightarrow> string \<Rightarrow> string \<Rightarrow> real \<Rightarrow> 'r \<Rightarrow> int \<times> 'r" where
  "sem_refresh_lua R key token lease d =
     (let now_ms = lua_now_ms (r_time R d)
      in if r_zscore R key token d \<noteq> None
         then let d1 = r_zadd R key (of_int now_ms) token d
              in (1, r_expire R key (sem_key_ttl lease) d1)
         else (0, d))"

definition sem_release_lua :: "'r redis \<Rightarrow> string \<Rightarrow> string \<Rightarrow> 'r \<Rightarrow> int \<times> 'r" where
  "sem_release_lua R key token d = (1, r_zrem R key token d)"

section \<open>AsyncLeaseSemaphore\<close>

record 's semaphore =
  sem_name :: string
  sem_limit :: int
  sem_lease_time :: real
  sem_key_prefix :: string
  sem_hooks :: "(string \<Rightarrow> 's \<Rightarrow> (exn + unit) \<times> 's) list"

text \<open>The registry \<^verbatim>\<open>_guards\<close> holds the tokens whose watchdog runs.\<close>

record 'r sem_world = "'r world" +
  sw_guards :: "string list"

definition sem_key :: "'s semaphore \<Rightarrow> string" where
  "sem_key sem = sem_key_prefix sem @ '':'' @ sem_name sem"

definition call_hooks :: "'s semaphore \<Rightarrow> string \<Rightarrow> ('s, unit) py" where
  "call_hooks sem meth =
     py_for (sem_hooks sem) (\<lambda>hook. py_except (hook meth) is_Exception (\<lambda>_. py_return ()))"

definition in_use :: "'r redis \<Rightarrow> 'r sem_world semaphore \<Rightarrow> ('r sem_world, nat) py" where
  "in_use R sem =
     py_bind (redis_read (r_time R)) (\<lambda>server_time.
       let now_ms = lua_now_ms server_time;
           lease_ms = py_int (sem_lease_time sem * 1000)
       in py_seq (redis_write (r_zremrangebyscore R (sem_key sem) (of_int (now_ms - lease_ms))))
            (redis_read (r_zcard R (sem_key sem))))"

definition release_script ::
  "'r redis \<Rightarrow> 'r sem_world semaphore \<Rightarrow> string \<Rightarrow> ('r sem_world, int) py" where
  "release_script R sem token = redis_call (sem_release_lua R (sem_key sem) token)"

text \<open>What follows a granted script call in \<^verbatim>\<open>acquire\<close> and \<^verbatim>\<open>try_acquire\<close>: read the level, start the
  watchdog (creating its task may fail), register it, call the hooks.  Any exception before the
  registration gives the slot back.  \<^term>\<open>start\<close> is \<^verbatim>\<open>guard.start()\<close>.\<close>

definition after_grant ::
  "'r redis \<Rightarrow> 'r sem_world semaphore \<Rightarrow> ('r sem_world, unit) py \<Rightarrow> string \<Rightarrow> ('r sem_world, string) py" where
  "after_grant R sem start token =
     py_seq
       (py_except (py_seq (in_use R sem) start) (\<lambda>_. True)
          (\<lambda>e. py_seq (release_script R sem token) (py_raise e)))
       (py_seq (py_modify (\<lambda>w. w\<lparr>sw_guards := token # removeAll token (sw_guards w)\<rparr>))
          (py_seq (call_hooks sem ''on_acquired'') (py_return token)))"

definition acquire_script ::
  "'r redis \<Rightarrow> 'r sem_world semaphore \<Rightarrow> string \<Rightarrow> ('r sem_world, string option) py" where
  "acquire_script R sem token =
     redis_call (sem_acquire_lua R (sem_key sem) (sem_limit sem) (sem_lease_time sem) token)"

text \<open>\<^verbatim>\<open>acquire\<close>: \<^term>\<open>waited i\<close> is the time since the start when the i-th attempt has failed.  The loop may
  run for ever, so it takes fuel; the result None means that the fuel was used up.\<close>

fun sem_acquire ::
  "nat \<Rightarrow> 'r redis \<Rightarrow> 'r sem_world semaphore \<Rightarrow> ('r sem_world, unit) py \<Rightarrow> string \<Rightarrow> real option \<Rightarrow>
   (nat \<Rightarrow> real) \<Rightarrow> nat \<Rightarrow> ('r sem_world, string option) py" where
  "sem_acquire 0 R sem start token timeout waited i = py_return None"
| "sem_acquire (Suc fuel) R sem start token timeout waited i =
     py_bind (acquire_script R sem token) (\<lambda>result.
       if result = Some token
       then py_bind (after_grant R sem start token) (\<lambda>t. py_return (Some t))
       else if (case timeout of None \<Rightarrow> False | Some t \<Rightarrow> t \<le> waited i)
       then py_seq (call_hooks sem ''on_timeout'') (py_raise CoreAcquireTimeout)
       else sem_acquire fuel R sem start token timeout waited (Suc i))"

definition sem_try_acquire ::
  "'r redis \<Rightarrow> 'r sem_world semaphore \<Rightarrow> ('r sem_world, unit) py \<Rightarrow> string \<Rightarrow>
   ('r sem_world, string option) py" where
  "sem_try_acquire R sem start token =
     py_bind (acquire_script R sem token) (\<lambda>result.
       if result \<noteq> Some token
       then py_seq (call_hooks sem ''on_rejected'') (py_return None)
       else py_bind (after_grant R sem start token) (\<lambda>t. py_return (Some t)))"

text \<open>\<^verbatim>\<open>release\<close>: \<^term>\<open>stop\<close> is \<^verbatim>\<open>guard.stop()\<close>.\<close>

definition sem_release ::
  "'r redis \<Rightarrow> 'r sem_world semaphore \<Rightarrow> ('r sem_world, unit) py \<Rightarrow> string \<Rightarrow> ('r sem_world, unit) py" where
  "sem_release R sem stop token =
     py_bind (py_get (\<lambda>w. token \<in> set (sw_guards w))) (\<lambda>guarded.
       py_seq (py_modify (\<lambda>w. w\<lparr>sw_guards := removeAll token (sw_guards w)\<rparr>))
         (py_seq (if guarded then stop else py_return ())
           (py_seq (release_script R sem token) (call_hooks sem ''on_released''))))"

text \<open>One renewal of the watchdog loop of \<^verbatim>\<open>lease.py\<close>: whether the loop goes on.  On the way out the
  finally clause takes the guard off the registry.\<close>

definition watchdog_renew ::
  "'r redis \<Rightarrow> 'r sem_world semaphore \<Rightarrow> string \<Rightarrow> ('r sem_world, bool) py" where
  "watchdog_renew R sem token =
     py_bind
       (py_except
          (py_bind (redis_call (sem_refresh_lua R (sem_key sem) token (sem_lease_time sem)))
             (\<lambda>result. py_return (result \<noteq> 0)))
          (\<lambda>_. True)
          (\<lambda>e. py_return (e \<noteq> CancelledErr)))
       (\<lambda>go_on. if go_on then py_return True
          else py_seq (py_modify (\<lambda>w. w\<lparr>sw_guards := removeAll token (sw_guards w)\<rparr>)) (py_return False))"

section \<open>Interleavings\<close>

text \<open>The atomic actions on one semaphore key.  \<^term>\<open>Reap\<close> is the second command of \<^verbatim>\<open>in_use\<close>, with a
  clock reading taken earlier; \<^term>\<open>Other\<close> is anything that touches other keys only.\<close>

datatype sem_op = Acq string | Ref string | Rel string | Reap int | Elapse nat | Other

inductive sem_step ::
  "'r redis \<Rightarrow> ('r \<Rightarrow> keyspace) \<Rightarrow> string \<Rightarrow> int \<Rightarrow> real \<Rightarrow> sem_op \<Rightarrow> 'r \<Rightarrow> 'r \<Rightarrow> bool"
  for R view key limit lease where
  acq: "sem_step R view key limit lease (Acq tok) d (snd (sem_acquire_lua R key limit lease tok d))"
| ref: "sem_step R view key limit lease (Ref tok) d (snd (sem_refresh_lua R key tok lease d))"
| rel: "sem_step R view key limit lease (Rel tok) d (snd (sem_release_lua R key tok d))"
| reap: "now \<le> ks_ms (view d) \<Longrightarrow>
    sem_step R view key limit lease (Reap now) d
      (r_zremrangebyscore R key (of_int (now - py_int (lease * 1000))) d)"
| elapse: "view d' = ks_elapse us (view d) \<Longrightarrow> sem_step R view key limit lease (Elapse us) d d'"
| other: "ks_vals (view d') key = ks_vals (view d) key \<Longrightarrow> ks_dl (view d') key = ks_dl (view d) key \<Longrightarrow>
    ks_us (view d') = ks_us (view d) \<Longrightarrow> sem_step R view key limit lease Other d d'"

inductive sem_run ::
  "'r redis \<Rightarrow> ('r \<Rightarrow> keyspace) \<Rightarrow> string \<Rightarrow> int \<Rightarrow> real \<Rightarrow> 'r \<Rightarrow> sem_op list \<Rightarrow> 'r \<Rightarrow> bool"
  for R view key limit lease where
  nil: "sem_run R view key limit lease d [] d"
| cons: "sem_step R view key limit lease op d d' \<Longrightarrow> sem_run R view key limit lease d' ops d'' \<Longrightarrow>
    sem_run R view key limit lease d (op # ops) d''"

inductive_cases sem_run_nilE: "sem_run R view key limit lease d [] d'"
inductive_cases sem_run_consE: "sem_run R view key limit lease d (op # ops) d'"

definition sem_inv :: "string \<Rightarrow> int \<Rightarrow> real \<Rightarrow> keyspace \<Rightarrow> bool" where
  "sem_inv key limit lease ks \<longleftrightarrow>
     zset_or_absent key ks
     \<and> int (length (ks_zset key ks)) \<le> max 0 limit
     \<and> distinct (dkeys (ks_zset key ks))
     \<and> (\<forall>(m, sc) \<in> set (ks_zset key ks). sc \<le> of_int (ks_ms ks)
          \<and> (\<exists>dl. ks_dl ks key = Some dl \<and> sc + lease * 1000 \<le> of_int dl))"

lemma sem_key_ttl_bound: "lease \<le> of_int (sem_key_ttl lease)" "0 < sem_key_ttl lease"
proof -
  have "lease \<le> of_int \<lfloor>lease * 2\<rfloor>" if "1 < lease" using that by linarith
  moreover have "\<lfloor>lease * 2\<rfloor> \<le> sem_key_ttl lease" "1 \<le> sem_key_ttl lease"
    by (simp_all add: sem_key_ttl_def)
  ultimately show "lease \<le> of_int (sem_key_ttl lease)" by (cases "1 < lease") linarith+
qed (simp add: sem_key_ttl_def)

lemma ks_dl_put_zset:
  "z \<noteq> [] \<Longrightarrow> ks_dl (ks_put_zset k z ks) k = ks_keep_dl k ks"
  by (simp add: ks_put_zset_def)

lemma zset_or_absent_put_zset [simp]: "zset_or_absent k (ks_put_zset k z ks)"
  by (simp add: zset_or_absent_def ks_put_zset_def)

lemma zset_or_absent_expire: "zset_or_absent k ks \<Longrightarrow> zset_or_absent k (ks_expire k' sec ks)"
  by (auto simp: zset_or_absent_def ks_expire_def split: option.splits)

text \<open>The effect of shrinking the set, and of setting a score to the current time and renewing the
  key's deadline.\<close>

lemma sem_inv_shrink:
  assumes "sem_inv key limit lease ks" "set z \<subseteq> set (ks_zset key ks)"
    "length z \<le> length (ks_zset key ks)" "distinct (dkeys z)"
  shows "sem_inv key limit lease (ks_put_zset key z ks)"
proof (cases "z = []")
  case False
  then obtain v where "ks_vals ks key = Some v"
    using assms(2,3) by (auto simp: ks_zset_def split: option.splits)
  then have "ks_dl (ks_put_zset key z ks) key = ks_dl ks key"
    using False by (simp add: ks_dl_put_zset ks_keep_dl_def)
  then show ?thesis
    using assms unfolding sem_inv_def by (simp add: subset_iff) fastforce
qed (simp add: sem_inv_def)

lemma sem_inv_renew:
  assumes inv: "sem_inv key limit lease ks" and len: "int (length (dset tok now (ks_zset key ks))) \<le> max 0 limit"
    and now: "now = of_int (ks_ms ks)"
  shows "sem_inv key limit lease
     (ks_expire key (sem_key_ttl lease) (ks_put_zset key (dset tok now (ks_zset key ks)) ks))"
    (is "sem_inv _ _ _ ?ks'")
proof -
  let ?z = "dset tok now (ks_zset key ks)"
  have ne: "?z \<noteq> []" by (metis length_0_conv length_dset length_greater_0_conv length_pos_if_in_set nat.distinct(1) list.set_map image_iff)
  have dl: "ks_dl ?ks' key = Some (ks_ms ks + 1000 * sem_key_ttl lease)"
    using ne sem_key_ttl_bound(2)[of lease] by (simp add: ks_expire_def ks_vals_put_zset)
  have z: "ks_zset key ?ks' = ?z" using sem_key_ttl_bound(2)[of lease] by simp
  have "sc \<le> of_int (ks_ms ks)" if "(m, sc) \<in> set ?z" for m sc
    using that set_dset[of tok now] inv now unfolding sem_inv_def by fastforce
  moreover have "sc + lease * 1000 \<le> of_int (ks_ms ks + 1000 * sem_key_ttl lease)"
    if "(m, sc) \<in> set ?z" for m sc
    using calculation[OF that] sem_key_ttl_bound(1)[of lease] by simp
  ultimately show ?thesis
    using inv len dl z unfolding sem_inv_def
    by (auto simp: distinct_dset zset_or_absent_expire)
qed

lemma sem_inv_elapse: "sem_inv key limit lease ks \<Longrightarrow> sem_inv key limit lease (ks_elapse us ks)"
proof -
  assume inv: "sem_inv key limit lease ks"
  have ms: "ks_ms ks \<le> ks_ms (ks_elapse us ks)"
    by (simp add: ks_ms_def ks_elapse_def Let_def div_le_mono)
  show ?thesis
  proof (cases "ks_vals (ks_elapse us ks) key")
    case None
    then show ?thesis by (simp add: sem_inv_def ks_zset_def zset_or_absent_def)
  next
    case (Some v)
    then have "ks_vals (ks_elapse us ks) key = ks_vals ks key" "ks_dl (ks_elapse us ks) key = ks_dl ks key"
      by (auto simp: ks_elapse_def Let_def split: if_splits)
    then show ?thesis
      using inv ms unfolding sem_inv_def zset_or_absent_def ks_zset_def by fastforce
  qed
qed

lemma sem_inv_other:
  "ks_vals ks' key = ks_vals ks key \<Longrightarrow> ks_dl ks' key = ks_dl ks key \<Longrightarrow> ks_us ks' = ks_us ks \<Longrightarrow>
    sem_inv key limit lease ks' = sem_inv key limit lease ks"
  by (simp add: sem_inv_def zset_or_absent_def ks_zset_def ks_ms_def)

context redis_service
begin

lemma acquire_lua_view:
  fixes lease :: real
  assumes "zset_or_absent key (view d)"
  defines "z \<equiv> filter (\<lambda>(m, sc). of_int (ks_ms (view d)) - lease * 1000 < sc) (ks_zset key (view d))"
  shows "fst (sem_acquire_lua R key limit lease tok d) = (if int (length z) < limit then Some tok else None)"
    and "view (snd (sem_acquire_lua R key limit lease tok d)) =
      (if int (length z) < limit
       then ks_expire key (sem_key_ttl lease)
         (ks_put_zset key (dset tok (of_int (ks_ms (view d))) z) (ks_put_zset key z (view d)))
       else ks_put_zset key z (view d))"
  using assms by (simp_all add: sem_acquire_lua_def Let_def zremrangebyscore zcard zadd)

lemma refresh_lua_view:
  assumes "zset_or_absent key (view d)"
  shows "fst (sem_refresh_lua R key tok lease d)
      = (if map_of (ks_zset key (view d)) tok = None then 0 else 1)"
    and "view (snd (sem_refresh_lua R key tok lease d)) =
      (if map_of (ks_zset key (view d)) tok = None then view d
       else ks_expire key (sem_key_ttl lease)
         (ks_put_zset key (dset tok (of_int (ks_ms (view d))) (ks_zset key (view d))) (view d)))"
  using assms by (auto simp: sem_refresh_lua_def Let_def zscore zadd)

lemma release_lua_view:
  assumes "zset_or_absent key (view d)"
  shows "view (snd (sem_release_lua R key tok d)) = ks_put_zset key (ddel tok (ks_zset key (view d))) (view d)"
  using assms by (simp add: sem_release_lua_def zrem)

lemma sem_step_inv:
  assumes "sem_step R view key limit lease op d d'" "sem_inv key limit lease (view d)"
  shows "sem_inv key limit lease (view d')"
  using assms
proof (induction rule: sem_step.induct)
  case (acq tok d)
  let ?z = "filter (\<lambda>(m, sc). of_int (ks_ms (view d)) - lease * 1000 < sc) (ks_zset key (view d))"
  have za: "zset_or_absent key (view d)" using acq by (simp add: sem_inv_def)
  have shrink: "sem_inv key limit lease (ks_put_zset key ?z (view d))"
    using acq by (intro sem_inv_shrink) (auto simp: sem_inv_def distinct_map_filter)
  show ?case
  proof (cases "int (length ?z) < limit")
    case True
    have "int (length (dset tok (of_int (ks_ms (view d))) ?z)) \<le> max 0 limit"
      using True by (simp add: length_dset)
    then show ?thesis
      using sem_inv_renew[OF shrink, of tok "of_int (ks_ms (view d))"] True
      by (simp add: acquire_lua_view(2)[OF za])
  qed (use shrink in \<open>simp add: acquire_lua_view(2)[OF za]\<close>)
next
  case (ref tok d)
  then have za: "zset_or_absent key (view d)" by (simp add: sem_inv_def)
  have "int (length (dset tok (of_int (ks_ms (view d))) (ks_zset key (view d)))) \<le> max 0 limit"
    if "map_of (ks_zset key (view d)) tok \<noteq> None"
    using that ref by (auto simp: length_dset sem_inv_def map_of_eq_None_iff)
  then show ?case
    using sem_inv_renew[OF ref, of tok] ref by (simp add: refresh_lua_view(2)[OF za])
next
  case (rel tok d)
  then have za: "zset_or_absent key (view d)" by (simp add: sem_inv_def)
  show ?case
    unfolding release_lua_view[OF za] using rel
    by (intro sem_inv_shrink) (auto simp: sem_inv_def set_ddel length_ddel distinct_ddel)
next
  case (reap now d)
  then have za: "zset_or_absent key (view d)" by (simp add: sem_inv_def)
  show ?case
    unfolding zremrangebyscore[OF za] using reap
    by (intro sem_inv_shrink) (auto simp: sem_inv_def distinct_map_filter)
next
  case (elapse d' us d)
  then show ?case by (simp add: sem_inv_elapse)
next
  case (other d' d)
  then show ?case using sem_inv_other by metis
qed

lemma sem_run_inv:
  "sem_run R view key limit lease d ops d' \<Longrightarrow> sem_inv key limit lease (view d) \<Longrightarrow>
    sem_inv key limit lease (view d')"
  by (induction rule: sem_run.induct) (auto intro: sem_step_inv)

lemma sem_step_ms: "sem_step R view key limit lease op d d' \<Longrightarrow> sem_inv key limit lease (view d) \<Longrightarrow>
  ks_ms (view d) \<le> ks_ms (view d')"
proof (induction rule: sem_step.induct)
  case (elapse d' us d)
  then show ?case by (simp add: ks_ms_def ks_elapse_def Let_def div_le_mono)
qed (auto simp: acquire_lua_view refresh_lua_view release_lua_view zremrangebyscore sem_inv_def ks_ms_def)

lemma sem_step_keeps:
  assumes "sem_step R view key limit lease op d d'" "sem_inv key limit lease (view d)" "op \<noteq> Rel tok"
    "map_of (ks_zset key (view d)) tok = Some sc" "0 \<le> lease"
    "of_int (ks_ms (view d')) < sc + of_int (py_int (lease * 1000))"
  shows "\<exists>sc' \<ge> sc. map_of (ks_zset key (view d')) tok = Some sc'"
proof -
  have ms: "ks_ms (view d) \<le> ks_ms (view d')" using sem_step_ms assms(1,2) by blast
  have lease: "of_int (py_int (lease * 1000)) \<le> lease * 1000" using assms(5) by (simp add: py_int_le)
  have mem: "(tok, sc) \<in> set (ks_zset key (view d))" using assms(4) by (rule map_of_SomeD)
  from mem assms(2) have le: "sc \<le> of_int (ks_ms (view d))" and za: "zset_or_absent key (view d)"
    and dist: "distinct (dkeys (ks_zset key (view d)))"
    by (auto simp: sem_inv_def)
  have keep: "map_of (filter (\<lambda>(m, x). hi < x) (ks_zset key (view d))) tok = Some sc" if "hi < sc" for hi
    using that dist assms(4) by (intro map_of_filter_keep) auto
  from assms(1,3,6) show ?thesis
  proof (cases rule: sem_step.cases)
    case (acq t)
    then have "of_int (ks_ms (view d)) - lease * 1000 < sc"
      using assms(6) lease ms by linarith
    note k = keep[OF this]
    show ?thesis
      unfolding acq(2) acquire_lua_view(2)[OF za]
      using k le sem_key_ttl_bound(2)[of lease] by (auto simp: map_of_dset)
  next
    case (ref t)
    then show ?thesis
      using assms(4) le sem_key_ttl_bound(2)[of lease]
      by (auto simp: refresh_lua_view(2)[OF za] map_of_dset)
  next
    case (rel t)
    then show ?thesis using assms(3,4) by (auto simp: release_lua_view[OF za] map_of_ddel)
  next
    case (reap now)
    then have "of_int (now - py_int (lease * 1000)) < sc" using assms(6) ms by simp
    then show ?thesis using keep reap(2) by (auto simp: zremrangebyscore[OF za])
  next
    case (elapse us)
    obtain dl where dl: "ks_dl (view d) key = Some dl" "sc + lease * 1000 \<le> of_int dl"
      using mem assms(2) unfolding sem_inv_def by fastforce
    have "ks_ms (view d') < dl" using dl(2) assms(6) lease by linarith
    then have "ks_vals (view d') key = ks_vals (view d) key"
      using dl(1) elapse(2) by (auto simp: ks_elapse_def Let_def ks_ms_def)
    then show ?thesis using assms(4) by (auto simp: ks_zset_def)
  next
    case other
    then show ?thesis using assms(4) by (auto simp: ks_zset_def)
  qed
qed

lemma sem_run_ms:
  "sem_run R view key limit lease d ops d' \<Longrightarrow> sem_inv key limit lease (view d) \<Longrightarrow>
    ks_ms (view d) \<le> ks_ms (view d')"
  by (induction rule: sem_run.induct) (auto dest: sem_step_ms sem_step_inv intro: order_trans)

lemma sem_run_keeps:
  assumes "sem_run R view key limit lease d ops d'" "sem_inv key limit lease (view d)"
    "Rel tok \<notin> set ops" "map_of (ks_zset key (view d)) tok = Some sc" "0 \<le> lease"
    "of_int (ks_ms (view d')) < sc + of_int (py_int (lease * 1000))"
  shows "\<exists>sc' \<ge> sc. map_of (ks_zset key (view d')) tok = Some sc'"
  using assms
proof (induction arbitrary: sc rule: sem_run.induct)
  case (cons op d d' ops d'')
  have inv: "sem_inv key limit lease (view d')" using cons sem_step_inv by blast
  have "of_int (ks_ms (view d')) < sc + of_int (py_int (lease * 1000))"
    using cons.prems(5) sem_run_ms[OF cons.hyps(2) inv] by linarith
  then obtain sc' where sc': "sc \<le> sc'" "map_of (ks_zset key (view d')) tok = Some sc'"
    using sem_step_keeps[OF cons.hyps(1) cons.prems(1) _ cons.prems(3,4), of] cons.prems(2) by auto
  then show ?case
    using cons.IH[OF inv _ sc'(2)] cons.prems by fastforce
qed auto

end

section \<open>Properties\<close>

text \<open>C3. Capacity: whatever the interleaving of acquisitions, renewals, releases, level readings of
  any number of clients and the passing of time, the semaphore never has more slots in use than
  its limit.\<close>

theorem sem_capacity:
  assumes "redis_service R view" "ks_vals (view d) (sem_key sem) = None" "0 \<le> sem_limit sem"
    "sem_run R view (sem_key sem) (sem_limit sem) (sem_lease_time sem) d ops d'"
  shows "int (length (ks_zset (sem_key sem) (view d'))) \<le> sem_limit sem"
proof -
  have "sem_inv (sem_key sem) (sem_limit sem) (sem_lease_time sem) (view d)"
    using assms(2) by (simp add: sem_inv_def zset_or_absent_def ks_zset_def)
  then show ?thesis
    using redis_service.sem_run_inv[OF assms(1,4)] assms(3) by (simp add: sem_inv_def)
qed

text \<open>C4. No early eviction: a slot granted to a token stays in the set through any run of other
  clients' actions, as long as the token is not released and less than the lease time has
  passed since the grant.\<close>

theorem sem_no_early_eviction:
  assumes "redis_service R view" "sem_inv key limit lease (view d)" "0 \<le> lease"
    "sem_acquire_lua R key limit lease tok d = (Some tok, d1)"
    "sem_run R view key limit lease d1 ops d'" "Rel tok \<notin> set ops"
    "ks_ms (view d') < ks_ms (view d) + py_int (lease * 1000)"
  shows "tok \<in> set (dkeys (ks_zset key (view d')))"
proof -
  have za: "zset_or_absent key (view d)" using assms(2) by (simp add: sem_inv_def)
  have inv: "sem_inv key limit lease (view d1)"
    using redis_service.sem_step_inv[OF assms(1) sem_step.acq assms(2), of tok] assms(4) by simp
  have "map_of (ks_zset key (view d1)) tok = Some (of_int (ks_ms (view d)))"
    using redis_service.acquire_lua_view[OF assms(1) za, of limit lease tok] assms(4)
      sem_key_ttl_bound(2)[of lease] by (auto simp: map_of_dset split: if_splits)
  from redis_service.sem_run_keeps[OF assms(1,5) inv assms(6) this assms(3)] assms(7)
  show ?thesis by (force simp: dest: map_of_SomeD)
qed

definition demo_sem :: "keyspace sem_world semaphore" where
  "demo_sem = \<lparr>sem_name = ''llm'', sem_limit = 1, sem_lease_time = 30,
     sem_key_prefix = ''{ftb}:semaphore'', sem_hooks = []\<rparr>"

theorem sem_capacity_witness:
  "let d1 = snd (sem_acquire_lua ks_redis (sem_key demo_sem) 1 30 ''a'' (empty_ks 0));
       d2 = snd (sem_acquire_lua ks_redis (sem_key demo_sem) 1 30 ''b'' d1)
   in int (length (ks_zset (sem_key demo_sem) d2)) \<le> 1"
proof -
  let ?d1 = "snd (sem_acquire_lua ks_redis (sem_key demo_sem) 1 30 ''a'' (empty_ks 0))"
  let ?d2 = "snd (sem_acquire_lua ks_redis (sem_key demo_sem) 1 30 ''b'' ?d1)"
  have "sem_run ks_redis (\<lambda>ks. ks) (sem_key demo_sem) 1 30 (empty_ks 0) [Acq ''a'', Acq ''b''] ?d2"
    by (rule sem_run.cons[OF sem_step.acq sem_run.cons[OF sem_step.acq sem_run.nil]])
  then show ?thesis
    using sem_capacity[OF ks.redis_service_axioms, of "empty_ks 0" demo_sem] by (simp add: demo_sem_def empty_ks_def)
qed

theorem sem_no_early_eviction_witness:
  "let d1 = snd (sem_acquire_lua ks_redis ''k'' 1 30 ''a'' (empty_ks 0));
       d2 = ks_elapse 20000000 (snd (sem_acquire_lua ks_redis ''k'' 1 30 ''b'' d1))
   in ''a'' \<in> set (dkeys (ks_zset ''k'' d2))"
proof -
  let ?d1 = "snd (sem_acquire_lua ks_redis ''k'' 1 30 ''a'' (empty_ks 0))"
  let ?d2 = "snd (sem_acquire_lua ks_redis ''k'' 1 30 ''b'' ?d1)"
  have run: "sem_run ks_redis (\<lambda>ks. ks) ''k'' 1 30 ?d1 [Acq ''b'', Elapse 20000000] (ks_elapse 20000000 ?d2)"
    by (rule sem_run.cons[OF sem_step.acq], rule sem_run.cons[OF sem_step.elapse sem_run.nil], simp)
  have inv: "sem_inv ''k'' 1 30 (empty_ks 0)"
    by (simp add: sem_inv_def)
  have acq: "sem_acquire_lua ks_redis ''k'' 1 30 ''a'' (empty_ks 0) = (Some ''a'', ?d1)"
    by (simp add: sem_acquire_lua_def Let_def)
  have "ks_us ?d2 = 0" by (simp add: sem_acquire_lua_def Let_def)
  then have "ks_ms (ks_elapse 20000000 ?d2) < ks_ms (empty_ks 0) + py_int (30 * 1000)"
    by (simp add: ks_ms_def ks_elapse_def Let_def empty_ks_def py_int_def)
  from sem_no_early_eviction[OF ks.redis_service_axioms inv _ acq run _ this] show ?thesis by simp
qed

text \<open>C5. A slot is given back when the acquisition fails after the grant: if starting the watchdog
  raises, whatever other clients do meanwhile, the exception reaches the caller, the token is
  no longer in the set and no guard is registered.\<close>

theorem sem_slot_returned_on_failure:
  assumes "redis_service R view" "zset_or_absent (sem_key sem) (view (w_db w))"
    "\<forall>n d. zset_or_absent (sem_key sem) (view d) \<longrightarrow> zset_or_absent (sem_key sem) (view (w_env w n d))"
    "\<forall>n. w_fault w n = No_fault" "\<forall>w'. start w' = (Inl e, w')"
  shows "\<exists>w'. after_grant R sem start tok w = (Inl e, w')
    \<and> tok \<notin> set (dkeys (ks_zset (sem_key sem) (view (w_db w')))) \<and> sw_guards w' = sw_guards w"
proof -
  note L = redis_service.zremrangebyscore[OF assms(1)] redis_service.zrem[OF assms(1)]
  show ?thesis
    using assms(2-5)
    by (simp add: after_grant_def py_simps in_use_def redis_read_def redis_write_def redis_call_def
        release_script_def sem_release_lua_def Let_def L delete_keys)
qed

definition quiet_sem_world :: "'r \<Rightarrow> 'r sem_world" where
  "quiet_sem_world d = \<lparr>w_db = d, w_env = (\<lambda>_ d. d), w_fault = (\<lambda>_. No_fault), w_pc = 0, sw_guards = []\<rparr>"

theorem sem_slot_returned_on_failure_witness:
  "\<exists>w'. after_grant ks_redis demo_sem (py_raise RuntimeErr) ''a''
      (quiet_sem_world (ks_put (sem_key demo_sem) (Some (RZset [(''a'', 0)])) None (empty_ks 0)))
        = (Inl RuntimeErr, w')
    \<and> ''a'' \<notin> set (dkeys (ks_zset (sem_key demo_sem) (w_db w')))"
proof -
  let ?w = "quiet_sem_world (ks_put (sem_key demo_sem) (Some (RZset [(''a'', 0)])) None (empty_ks 0))"
  have "zset_or_absent (sem_key demo_sem) (w_db ?w)"
    "\<forall>n d. zset_or_absent (sem_key demo_sem) d \<longrightarrow> zset_or_absent (sem_key demo_sem) (w_env ?w n d)"
    "\<forall>n. w_fault ?w n = No_fault" "\<forall>w' :: keyspace sem_world. py_raise RuntimeErr w' = (Inl RuntimeErr, w')"
    by (simp_all add: quiet_sem_world_def zset_or_absent_def py_raise_def)
  from sem_slot_returned_on_failure[OF ks.redis_service_axioms this] show ?thesis by blast
qed

lemma in_use_quiet:
  assumes "redis_service R view" "zset_or_absent (sem_key sem) (view (w_db w))"
    "w_env w = (\<lambda>_ d. d)" "w_fault w = (\<lambda>_. No_fault)"
  obtains n w' where "in_use R sem w = (Inr n, w')" "sw_guards w' = sw_guards w"
    "w_env w' = w_env w" "w_fault w' = w_fault w"
    "ks_zset (sem_key sem) (view (w_db w')) = filter (\<lambda>(m, sc).
        of_int (ks_ms (view (w_db w)) - py_int (sem_lease_time sem * 1000)) < sc) (ks_zset (sem_key sem) (view (w_db w)))"
proof -
  note L = redis_service.zremrangebyscore[OF assms(1)] redis_service.zcard[OF assms(1)]
    redis_service.time[OF assms(1)]
  let ?hi = "of_int (ks_ms (view (w_db w)) - py_int (sem_lease_time sem * 1000))"
  let ?w' = "w\<lparr>w_pc := Suc (Suc (Suc (w_pc w))), w_db := r_zremrangebyscore R (sem_key sem) ?hi (w_db w)\<rparr>"
  have "in_use R sem w = (Inr (r_zcard R (sem_key sem) (w_db ?w')), ?w')"
    using assms(2-4) by (simp add: in_use_def py_simps redis_read_def redis_write_def redis_call_def Let_def L(3))
  then show thesis
    using assms(2-4) by (intro that[of _ ?w']) (simp_all add: L(1))
qed

text \<open>C6. The protection ends with the registration of the guard: when a hook awaits and the caller
  is cancelled there, \<^verbatim>\<open>acquire\<close> raises \<^verbatim>\<open>CancelledError\<close> without returning the token, while the slot
  stays taken and its watchdog stays registered, so that the slot is renewed for ever and
  nobody holds the token to release it.\<close>

theorem sem_hook_cancellation_leaks_slot:
  assumes "redis_service R view" "sem_inv (sem_key sem) (sem_limit sem) (sem_lease_time sem) (view (w_db w))"
    "w_env w = (\<lambda>_ d. d)" "w_fault w = (\<lambda>_. No_fault)" "1 \<le> sem_lease_time sem"
    "\<forall>w'. start w' = (Inr (), w')" "sem_hooks sem = [\<lambda>_. py_raise CancelledErr]"
    "sem_acquire_lua R (sem_key sem) (sem_limit sem) (sem_lease_time sem) tok (w_db w) = (Some tok, d1)"
  shows "\<exists>w'. sem_acquire (Suc n) R sem start tok timeout waited i w = (Inl CancelledErr, w')
    \<and> tok \<in> set (sw_guards w') \<and> tok \<in> set (dkeys (ks_zset (sem_key sem) (view (w_db w'))))"
proof -
  let ?w1 = "w\<lparr>w_pc := Suc (w_pc w), w_db := d1\<rparr>" and ?k = "sem_key sem"
  have za: "zset_or_absent ?k (view (w_db w))" using assms(2) by (simp add: sem_inv_def)
  have inv: "sem_inv ?k (sem_limit sem) (sem_lease_time sem) (view d1)"
    using redis_service.sem_step_inv[OF assms(1) sem_step.acq assms(2), of tok] assms(8) by simp
  have tok: "map_of (ks_zset ?k (view d1)) tok = Some (of_int (ks_ms (view (w_db w))))"
    and ms: "ks_ms (view d1) = ks_ms (view (w_db w))"
    using redis_service.acquire_lua_view[OF assms(1) za, of "sem_limit sem" "sem_lease_time sem" tok] assms(8)
      sem_key_ttl_bound(2)[of "sem_lease_time sem"] by (auto simp: map_of_dset split: if_splits)
  obtain m w2 where w2: "in_use R sem ?w1 = (Inr m, w2)" "sw_guards w2 = sw_guards ?w1"
    "ks_zset ?k (view (w_db w2)) = filter (\<lambda>(m, sc).
        of_int (ks_ms (view d1) - py_int (sem_lease_time sem * 1000)) < sc) (ks_zset ?k (view d1))"
    by (rule in_use_quiet[OF assms(1), of sem ?w1]) (use inv assms(3,4) in \<open>simp_all add: sem_inv_def\<close>)
  have "0 < py_int (sem_lease_time sem * 1000)" using assms(5) by (simp add: py_int_def)
  then have "map_of (ks_zset ?k (view (w_db w2))) tok = Some (of_int (ks_ms (view (w_db w))))"
    unfolding w2(3) using inv tok ms by (intro map_of_filter_keep) (auto simp: sem_inv_def)
  then have "tok \<in> set (dkeys (ks_zset ?k (view (w_db w2))))" by (force dest: map_of_SomeD)
  then show ?thesis
    using assms(3,4,6,7,8) w2(1) by (simp add: after_grant_def py_simps redis_call_def
      acquire_script_def call_hooks_def is_Exception_def Let_def)
qed

theorem sem_hook_cancellation_leaks_slot_witness:
  "\<exists>w'. sem_acquire 1 ks_redis (demo_sem\<lparr>sem_hooks := [\<lambda>_. py_raise CancelledErr]\<rparr>) (py_return ()) ''a'' None
       (\<lambda>_. 0) 0 (quiet_sem_world (empty_ks 0)) = (Inl CancelledErr, w')
    \<and> ''a'' \<in> set (dkeys (ks_zset (sem_key demo_sem) (w_db w')))"
proof -
  let ?sem = "demo_sem\<lparr>sem_hooks := [\<lambda>_. py_raise CancelledErr]\<rparr>" and ?w = "quiet_sem_world (empty_ks 0)"
  have key: "sem_key ?sem = sem_key demo_sem" by (simp add: sem_key_def)
  let ?d1 = "snd (sem_acquire_lua ks_redis (sem_key ?sem) (sem_limit ?sem) (sem_lease_time ?sem) ''a'' (w_db ?w))"
  have "sem_inv (sem_key ?sem) (sem_limit ?sem) (sem_lease_time ?sem) (w_db ?w)"
    by (simp add: sem_inv_def quiet_sem_world_def)
  moreover have "sem_acquire_lua ks_redis (sem_key ?sem) (sem_limit ?sem) (sem_lease_time ?sem) ''a'' (w_db ?w)
      = (Some ''a'', ?d1)"
    by (simp add: sem_acquire_lua_def Let_def quiet_sem_world_def demo_sem_def)
  moreover have "w_env ?w = (\<lambda>_ d. d)" "w_fault ?w = (\<lambda>_. No_fault)" "1 \<le> sem_lease_time ?sem"
    "\<forall>w' :: keyspace sem_world. py_return () w' = (Inr (), w')" "sem_hooks ?sem = [\<lambda>_. py_raise CancelledErr]"
    by (simp_all add: quiet_sem_world_def py_return_def demo_sem_def)
  ultimately show ?thesis
    using sem_hook_cancellation_leaks_slot[OF ks.redis_service_axioms] unfolding One_nat_def key[symmetric]
    by blast
qed

end
