(* ===== verification/Token_Bucket.thy ===== *)
theory Token_Bucket
  imports Redis_Service
begin

text \<open>
  The distributed token bucket (\<^verbatim>\<open>core/limiter/bucket.py\<close>, \<^verbatim>\<open>lua/bucket_acquire.lua\<close>).  A reservation
  takes a token now or from the next refill slot; the caller sleeps until its slot.  Main fact:
  over any interleaving of clients, rejected calls, the passing of time and the expiry of the
  bucket's key, the grants stay below the refill rate, the interval taken in whole milliseconds.
\<close>

record bucket =
  bk_name :: string
  bk_capacity :: int
  bk_refill_amount :: int
  bk_refill_frequency :: real
  bk_key_prefix :: string

definition bucket_key :: "bucket \<Rightarrow> string" where
  "bucket_key b = bk_key_prefix b @ '':'' @ bk_name b"

definition slot_ms :: "bucket \<Rightarrow> real" where
  "slot_ms b = bk_refill_frequency b * 1000"

text \<open>The tokens and the slot the script starts from, given what it read.\<close>

definition bucket_refill :: "bucket \<Rightarrow> int \<Rightarrow> rstr option \<Rightarrow> int \<times> real" where
  "bucket_refill b now data =
     (case data of
        Some (TPair last_slot stored_tokens) \<Rightarrow>
          (let slots_passed = \<lfloor>of_int (now - last_slot) / slot_ms b\<rfloor>
           in if 0 < slots_passed
              then (min (stored_tokens + slots_passed * bk_refill_amount b) (bk_capacity b), of_int now)
              else (stored_tokens, of_int last_slot))
      | _ \<Rightarrow> (bk_capacity b, of_int now))"

definition bucket_advance :: "bucket \<Rightarrow> int \<times> real \<Rightarrow> int \<times> real" where
  "bucket_advance b = (\<lambda>(tokens, slot).
     if tokens \<le> 0 then (bk_refill_amount b, slot + slot_ms b) else (tokens, slot))"

definition bucket_state_ttl :: "bucket \<Rightarrow> int \<Rightarrow> real \<Rightarrow> int \<Rightarrow> int" where
  "bucket_state_ttl b now slot tokens =
     (let refill_to_full_ms =
            of_int \<lceil>of_int (bk_capacity b - tokens) / of_int (bk_refill_amount b) :: real\<rceil> * slot_ms b;
          state_ttl_ms = max 0 (slot - of_int now) + refill_to_full_ms + 5000
      in max 1 \<lceil>state_ttl_ms / 1000\<rceil>)"

definition bucket_acquire_lua ::
  "'r redis \<Rightarrow> bucket \<Rightarrow> int \<Rightarrow> 'r \<Rightarrow> (bool \<times> int \<times> int) \<times> 'r" where
  "bucket_acquire_lua R b max_sleep_ms d =
     (let key = bucket_key b;
          now = lua_now_ms (r_time R d);
          (tokens, slot) = bucket_advance b (bucket_refill b now (r_get R key d))
      in if of_int max_sleep_ms < slot - of_int now
         then ((False, py_int slot, now), d)
         else ((True, py_int slot, now),
               r_setex R key (TPair (py_int slot) (tokens - 1))
                 (bucket_state_ttl b now slot (tokens - 1)) d))"

text \<open>\<^verbatim>\<open>acquire\<close>: None stands for \<^verbatim>\<open>max_sleep=None\<close>.  The local sleep and the hooks, whose exceptions
  are swallowed, leave no trace in the result.\<close>

definition max_sleep_arg :: "real option \<Rightarrow> int" where
  "max_sleep_arg max_sleep =
     (case max_sleep of None \<Rightarrow> 999999999 | Some x \<Rightarrow> if x = 0 then 0 else py_int (x * 1000))"

definition bucket_acquire ::
  "'r redis \<Rightarrow> bucket \<Rightarrow> real option \<Rightarrow> ('r world, real) py" where
  "bucket_acquire R b max_sleep =
     py_bind (redis_call (bucket_acquire_lua R b (max_sleep_arg max_sleep)))
       (\<lambda>(granted, slot, server_now).
          if \<not> granted then py_raise CoreAcquireTimeout
          else py_return (of_int (max 0 (slot - server_now)) / 1000))"

definition bucket_try_acquire :: "'r redis \<Rightarrow> bucket \<Rightarrow> ('r world, bool) py" where
  "bucket_try_acquire R b =
     py_except (py_seq (bucket_acquire R b (Some 0)) (py_return True))
       (\<lambda>e. e = CoreAcquireTimeout) (\<lambda>_. py_return False)"

section \<open>Runs\<close>

text \<open>A run counts the grants; between them other keys change and time passes.\<close>

inductive bucket_run ::
  "'r redis \<Rightarrow> ('r \<Rightarrow> keyspace) \<Rightarrow> bucket \<Rightarrow> 'r \<Rightarrow> nat \<Rightarrow> 'r \<Rightarrow> bool"
  for R view b d0 where
  start: "bucket_run R view b d0 0 d0"
| grant: "bucket_run R view b d0 n d \<Longrightarrow> bucket_acquire_lua R b ms d = ((True, slot, now), d') \<Longrightarrow>
    bucket_run R view b d0 (Suc n) d'"
| reject: "bucket_run R view b d0 n d \<Longrightarrow> bucket_acquire_lua R b ms d = ((False, slot, now), d') \<Longrightarrow>
    bucket_run R view b d0 n d'"
| elapse: "bucket_run R view b d0 n d \<Longrightarrow> view d' = ks_elapse us (view d) \<Longrightarrow> bucket_run R view b d0 n d'"
| other: "bucket_run R view b d0 n d \<Longrightarrow>
    ks_vals (view d') (bucket_key b) = ks_vals (view d) (bucket_key b) \<Longrightarrow>
    ks_dl (view d') (bucket_key b) = ks_dl (view d) (bucket_key b) \<Longrightarrow>
    ks_us (view d') = ks_us (view d) \<Longrightarrow> bucket_run R view b d0 n d'"

text \<open>The configurations of the rate limit: tokens are added, the capacity is not negative, and the interval is at least one
  millisecond.  The interval need not be a whole number of milliseconds: the script stores and returns its slots truncated,
  so what a reservation of a future token advances the bucket by is the interval rounded down.\<close>

definition bucket_ok :: "bucket \<Rightarrow> bool" where
  "bucket_ok b \<longleftrightarrow> 0 < bk_refill_amount b \<and> 0 \<le> bk_capacity b \<and> 1 \<le> slot_ms b"

text \<open>The budget at a slot: the full bucket plus what was refilled since the start.\<close>

definition budget_at :: "bucket \<Rightarrow> int \<Rightarrow> int \<Rightarrow> real" where
  "budget_at b t0 slot = of_int (bk_capacity b) + of_int (bk_refill_amount b * (slot - t0)) / of_int \<lfloor>slot_ms b\<rfloor>"

definition refills_to_full :: "bucket \<Rightarrow> int \<Rightarrow> int" where
  "refills_to_full b tokens = \<lceil>of_int (bk_capacity b - tokens) / of_int (bk_refill_amount b) :: real\<rceil>"

definition bucket_inv :: "bucket \<Rightarrow> int \<Rightarrow> nat \<Rightarrow> keyspace \<Rightarrow> bool" where
  "bucket_inv b t0 n ks \<longleftrightarrow>
     (case ks_vals ks (bucket_key b) of
        None \<Rightarrow> of_nat n + of_int (bk_capacity b) \<le> budget_at b t0 (ks_ms ks)
      | Some v \<Rightarrow> \<exists>slot tokens dl. v = RStr (TPair slot tokens) \<and> ks_dl ks (bucket_key b) = Some dl
          \<and> 0 \<le> slot \<and> 0 \<le> tokens \<and> tokens < bk_capacity b + bk_refill_amount b
          \<and> of_nat n + of_int tokens \<le> budget_at b t0 slot
          \<and> of_int slot + of_int (refills_to_full b tokens) * slot_ms b \<le> of_int dl)"

lemma slot_floor: "bucket_ok b \<Longrightarrow> 1 \<le> \<lfloor>slot_ms b\<rfloor>" "of_int \<lfloor>slot_ms b\<rfloor> \<le> slot_ms b"
  by (simp_all add: bucket_ok_def le_floor_iff)

lemma slot_floor_mult:
  assumes "0 \<le> k" "of_int k * slot_ms b \<le> of_int m"
  shows "k * \<lfloor>slot_ms b\<rfloor> \<le> m"
proof -
  have "of_int k * of_int \<lfloor>slot_ms b\<rfloor> \<le> of_int k * slot_ms b"
    using assms(1) slot_floor(2) by (intro mult_left_mono) auto
  then have "(of_int (k * \<lfloor>slot_ms b\<rfloor>) :: real) \<le> of_int m" using assms(2) by simp
  then show ?thesis by (simp only: of_int_le_iff)
qed

lemma budget_at_add:
  "bucket_ok b \<Longrightarrow> budget_at b t0 (slot + k * \<lfloor>slot_ms b\<rfloor>) = budget_at b t0 slot + of_int (k * bk_refill_amount b)"
proof -
  assume "bucket_ok b"
  then have "(of_int \<lfloor>slot_ms b\<rfloor> :: real) \<noteq> 0" using slot_floor(1) by fastforce
  then show ?thesis by (simp add: budget_at_def field_simps)
qed

lemma budget_at_mono: "bucket_ok b \<Longrightarrow> x \<le> y \<Longrightarrow> budget_at b t0 x \<le> budget_at b t0 y"
  using slot_floor(1)[of b] by (simp add: budget_at_def bucket_ok_def divide_right_mono)

lemma refills_to_full:
  assumes "bucket_ok b"
  shows "bk_capacity b - tokens \<le> refills_to_full b tokens * bk_refill_amount b"
    "tokens < bk_capacity b + bk_refill_amount b \<Longrightarrow> 0 \<le> refills_to_full b tokens"
proof -
  have "of_int (bk_capacity b - tokens) \<le> (of_int (refills_to_full b tokens * bk_refill_amount b) :: real)"
    using assms by (simp add: refills_to_full_def bucket_ok_def flip: pos_divide_le_eq)
  then show "bk_capacity b - tokens \<le> refills_to_full b tokens * bk_refill_amount b" by (simp only: of_int_le_iff)
  assume "tokens < bk_capacity b + bk_refill_amount b"
  then have "- of_int (bk_refill_amount b) < (of_int (bk_capacity b - tokens) :: real)" by linarith
  then have "- 1 < of_int (bk_capacity b - tokens) / (of_int (bk_refill_amount b) :: real)"
    using assms by (simp add: bucket_ok_def pos_less_divide_eq)
  then have "- 1 < refills_to_full b tokens" unfolding refills_to_full_def by (simp add: less_ceiling_iff)
  then show "0 \<le> refills_to_full b tokens" by simp
qed

lemma py_int_integral [simp]: "py_int (of_int i) = i"
  by (simp add: py_int_def)

lemma py_int_advance: "0 \<le> i \<Longrightarrow> 0 \<le> x \<Longrightarrow> py_int (of_int i + x) = i + \<lfloor>x\<rfloor>"
  by (simp add: py_int_def floor_add_int add.commute)

text \<open>What a call starts from respects the budget.\<close>

lemma bucket_refill_budget:
  assumes ok: "bucket_ok b" and inv: "bucket_inv b t0 n ks"
    and r: "bucket_refill b (ks_ms ks) (ks_get (bucket_key b) ks) = (tokens, slot)"
  shows "\<exists>i. slot = of_int i \<and> 0 \<le> i \<and> of_nat n + of_int tokens \<le> budget_at b t0 i
    \<and> 0 \<le> tokens \<and> tokens < bk_capacity b + bk_refill_amount b"
proof (cases "ks_vals ks (bucket_key b)")
  case None
  then show ?thesis
    using inv r ok by (intro exI[of _ "ks_ms ks"]) (auto simp: bucket_inv_def bucket_refill_def ks_get_def bucket_ok_def ks_ms_def)
next
  case (Some v)
  then obtain last st where v: "v = RStr (TPair last st)" "0 \<le> last" "0 \<le> st" "st < bk_capacity b + bk_refill_amount b"
    "of_nat n + of_int st \<le> budget_at b t0 last"
    using inv by (auto simp: bucket_inv_def)
  define k where "k = \<lfloor>of_int (ks_ms ks - last) / slot_ms b\<rfloor>"
  have eq: "(tokens, slot) = (if 0 < k then (min (st + k * bk_refill_amount b) (bk_capacity b), of_int (ks_ms ks))
      else (st, of_int last))"
    using r by (auto simp: bucket_refill_def ks_get_def Some v(1) k_def Let_def split: if_splits)
  show ?thesis
  proof (cases "0 < k")
    case True
    have "of_int k * slot_ms b \<le> of_int (ks_ms ks - last)"
      using ok by (simp add: k_def bucket_ok_def flip: pos_le_divide_eq)
    then have "last + k * \<lfloor>slot_ms b\<rfloor> \<le> ks_ms ks" using slot_floor_mult[of k b "ks_ms ks - last"] True by simp
    from budget_at_mono[OF ok this, of t0] have up:
      "budget_at b t0 last + of_int (k * bk_refill_amount b) \<le> budget_at b t0 (ks_ms ks)"
      by (simp only: budget_at_add[OF ok])
    have "(tokens, slot) = (min (st + k * bk_refill_amount b) (bk_capacity b), of_int (ks_ms ks))"
      using eq True by simp
    moreover have "of_int (min (st + k * bk_refill_amount b) (bk_capacity b)) \<le> (of_int (st + k * bk_refill_amount b) :: real)"
      by (simp only: of_int_le_iff min.cobounded1)
    moreover have "0 \<le> ks_ms ks" by (simp add: ks_ms_def)
    ultimately show ?thesis
      using v up True ok by (auto simp: bucket_ok_def)
  next
    case False
    then show ?thesis using v eq by simp
  qed
qed

lemma bucket_advance_budget:
  assumes ok: "bucket_ok b" and inv: "bucket_inv b t0 n ks"
    and r: "bucket_advance b (bucket_refill b (ks_ms ks) (ks_get (bucket_key b) ks)) = (tokens, slot)"
  shows "of_nat n + of_int tokens \<le> budget_at b t0 (py_int slot) \<and> 0 < tokens \<and> tokens \<le> bk_capacity b + bk_refill_amount b
    \<and> 0 \<le> py_int slot \<and> of_int (py_int slot) \<le> slot"
proof -
  obtain tk sl where ts: "bucket_refill b (ks_ms ks) (ks_get (bucket_key b) ks) = (tk, sl)" by fastforce
  from bucket_refill_budget[OF ok inv ts] obtain i where h: "sl = of_int i" "0 \<le> i" "of_nat n + of_int tk \<le> budget_at b t0 i"
    "0 \<le> tk" "tk < bk_capacity b + bk_refill_amount b" by blast
  show ?thesis
  proof (cases "tk \<le> 0")
    case True
    then have t: "tokens = bk_refill_amount b" "slot = of_int i + slot_ms b" "tk = 0"
      using r ts h by (auto simp: bucket_advance_def)
    have p: "py_int slot = i + 1 * \<lfloor>slot_ms b\<rfloor>" using py_int_advance[OF h(2)] t(2) ok by (simp add: bucket_ok_def)
    show ?thesis
      unfolding p budget_at_add[OF ok] using t h ok slot_floor[of b] by (auto simp: bucket_ok_def)
  qed (use r ts h in \<open>auto simp: bucket_advance_def\<close>)
qed

lemma bucket_ttl_covers:
  "slot + of_int (refills_to_full b tokens) * slot_ms b \<le> of_int (now + 1000 * bucket_state_ttl b now slot tokens)"
  "0 < bucket_state_ttl b now slot tokens"
proof -
  let ?f = "of_int (refills_to_full b tokens) * slot_ms b"
  let ?t = "max 0 (slot - of_int now) + ?f + 5000"
  have "?t / 1000 \<le> of_int (bucket_state_ttl b now slot tokens)"
    unfolding bucket_state_ttl_def Let_def refills_to_full_def by (metis ceiling_le_iff max.cobounded2)
  then show "slot + ?f \<le> of_int (now + 1000 * bucket_state_ttl b now slot tokens)" by simp
qed (simp add: bucket_state_ttl_def Let_def)

lemma bucket_inv_elapse:
  assumes ok: "bucket_ok b" and inv: "bucket_inv b t0 n ks"
  shows "bucket_inv b t0 n (ks_elapse us ks)"
proof (cases "ks_vals ks (bucket_key b)")
  case None
  have "ks_ms ks \<le> ks_ms (ks_elapse us ks)"
    by (simp add: ks_ms_def ks_elapse_def Let_def div_le_mono)
  then show ?thesis
    using inv None budget_at_mono[OF ok, of "ks_ms ks" "ks_ms (ks_elapse us ks)" t0]
    by (auto simp: bucket_inv_def ks_elapse_def Let_def)
next
  case (Some v)
  then obtain slot tk dl where v: "v = RStr (TPair slot tk)" "ks_dl ks (bucket_key b) = Some dl" "0 \<le> slot" "0 \<le> tk"
    "tk < bk_capacity b + bk_refill_amount b" "of_nat n + of_int tk \<le> budget_at b t0 slot"
    "of_int slot + of_int (refills_to_full b tk) * slot_ms b \<le> of_int dl"
    using inv by (auto simp: bucket_inv_def)
  note k = refills_to_full[OF ok, of tk]
  show ?thesis
  proof (cases "dl \<le> ks_ms (ks_elapse us ks)")
    case True
    have "slot + refills_to_full b tk * \<lfloor>slot_ms b\<rfloor> \<le> dl"
      using slot_floor_mult[OF k(2)[OF v(5)], of b "dl - slot"] v(7) by simp
    then have "budget_at b t0 slot + of_int (refills_to_full b tk * bk_refill_amount b) \<le> budget_at b t0 (ks_ms (ks_elapse us ks))"
      unfolding budget_at_add[OF ok, symmetric] using True by (intro budget_at_mono[OF ok]) linarith
    moreover have "ks_vals (ks_elapse us ks) (bucket_key b) = None"
      using True v(2) by (simp add: ks_elapse_def Let_def ks_ms_def)
    moreover have "of_int (bk_capacity b - tk) \<le> (of_int (refills_to_full b tk * bk_refill_amount b) :: real)"
      using k(1) by (simp only: of_int_le_iff)
    ultimately show ?thesis using v(6) by (simp add: bucket_inv_def)
  next
    case False
    then have "ks_vals (ks_elapse us ks) (bucket_key b) = Some v" "ks_dl (ks_elapse us ks) (bucket_key b) = Some dl"
      using Some v(2) by (simp_all add: ks_elapse_def Let_def ks_ms_def)
    then show ?thesis using v by (simp add: bucket_inv_def)
  qed
qed

context redis_service
begin

lemma bucket_str_or_absent: "bucket_inv b t0 n (view d) \<Longrightarrow> str_or_absent (bucket_key b) (view d)"
  by (auto simp: bucket_inv_def str_or_absent_def split: option.splits)

lemma bucket_grant_inv:
  assumes ok: "bucket_ok b" and inv: "bucket_inv b t0 n (view d)"
    and grant: "bucket_acquire_lua R b ms d = ((True, slot, now), d')"
  shows "bucket_inv b t0 (Suc n) (view d')"
proof -
  obtain tk sl where ts: "bucket_advance b (bucket_refill b (ks_ms (view d)) (ks_get (bucket_key b) (view d))) = (tk, sl)"
    by fastforce
  note h = bucket_advance_budget[OF ok inv ts]
  have "d' = r_setex R (bucket_key b) (TPair (py_int sl) (tk - 1)) (bucket_state_ttl b (ks_ms (view d)) sl (tk - 1)) d"
    using grant ts by (auto simp: bucket_acquire_lua_def Let_def get[OF bucket_str_or_absent[OF inv]] split: if_splits)
  then show ?thesis
    using h bucket_ttl_covers[where slot = sl and b = b and tokens = "tk - 1" and now = "ks_ms (view d)"] by (simp add: setex bucket_inv_def)
qed

lemma bucket_run_inv:
  assumes "bucket_ok b" "bucket_run R view b d0 n d" "ks_vals (view d0) (bucket_key b) = None"
  shows "bucket_inv b (ks_ms (view d0)) n (view d)"
  using assms(2)
proof (induction rule: bucket_run.induct)
  case start
  then show ?case using assms(3) by (simp add: bucket_inv_def budget_at_def)
next
  case (grant n d ms slot now d')
  then show ?case using bucket_grant_inv[OF assms(1)] by blast
next
  case (reject n d ms slot now d')
  then have "d' = d" by (auto simp: bucket_acquire_lua_def Let_def split: prod.splits if_splits)
  then show ?case using reject by simp
next
  case (elapse n d d' us)
  then show ?case using bucket_inv_elapse[OF assms(1)] by simp
next
  case (other n d d')
  then have "ks_ms (view d') = ks_ms (view d)" by (simp add: ks_ms_def)
  then show ?case using other unfolding bucket_inv_def by (simp cong: option.case_cong)
qed

end

section \<open>Properties\<close>

text \<open>C7. Rate limit: for a bucket whose refill amount is positive, whose capacity is not negative and whose refill interval
  is at least one millisecond, in any run that starts with an absent bucket, the number of grants including
  the present one is at most the capacity plus the refill amount per interval, rounded down to whole milliseconds, of
  the time from the start of the run to the slot the present grant is for (the caller sleeps until that slot), also across
  the expiry of the bucket's key.  For an interval of whole milliseconds this is the configured rate; otherwise the
  rate is higher by the truncated fraction, for the script stores its slots as integers.\<close>

theorem bucket_rate_limit:
  assumes "redis_service R view" "bucket_ok b" "ks_vals (view d0) (bucket_key b) = None"
    "bucket_run R view b d0 n d" "bucket_acquire_lua R b ms d = ((True, slot, now), d')"
  shows "of_nat (Suc n) \<le> of_int (bk_capacity b)
    + of_int (bk_refill_amount b * (slot - ks_ms (view d0))) / (of_int \<lfloor>bk_refill_frequency b * 1000\<rfloor> :: real)"
proof -
  note inv = redis_service.bucket_run_inv[OF assms(1,2,4,3)]
  obtain tk sl where ts: "bucket_advance b (bucket_refill b (ks_ms (view d)) (ks_get (bucket_key b) (view d))) = (tk, sl)"
    by fastforce
  note h = bucket_advance_budget[OF assms(2) inv ts]
  have "slot = py_int sl"
    using assms(5) ts redis_service.time[OF assms(1)]
      redis_service.get[OF assms(1) redis_service.bucket_str_or_absent[OF assms(1) inv]]
    by (simp add: bucket_acquire_lua_def Let_def split: if_splits)
  then show ?thesis
    using h by (simp add: budget_at_def slot_ms_def)
qed

text \<open>Seven calls a minute, one at a time: an interval of 60/7 seconds.\<close>

definition demo_bucket :: bucket where
  "demo_bucket = \<lparr>bk_name = ''llm'', bk_capacity = 1, bk_refill_amount = 1, bk_refill_frequency = 60 / 7,
     bk_key_prefix = ''{ftb}:token-bucket''\<rparr>"

lemma demo_bucket_calls:
  "bucket_acquire_lua ks_redis demo_bucket 9000 (empty_ks 0)
     = ((True, 0, 0), ks_put (bucket_key demo_bucket) (Some (RStr (TPair 0 0))) (Some 14000) (empty_ks 0))"
  "bucket_acquire_lua ks_redis demo_bucket 9000
       (ks_put (bucket_key demo_bucket) (Some (RStr (TPair 0 0))) (Some 14000) (empty_ks 0))
     = ((True, 8571, 0), r_setex ks_redis (bucket_key demo_bucket) (TPair 8571 0) 23
         (ks_put (bucket_key demo_bucket) (Some (RStr (TPair 0 0))) (Some 14000) (empty_ks 0)))"
  by (simp_all add: bucket_acquire_lua_def Let_def bucket_refill_def bucket_advance_def slot_ms_def
      bucket_state_ttl_def demo_bucket_def ks_get_def ks_ms_def py_int_def)

theorem bucket_rate_limit_witness:
  "bucket_run ks_redis (\<lambda>ks. ks) demo_bucket (empty_ks 0) 1
     (ks_put (bucket_key demo_bucket) (Some (RStr (TPair 0 0))) (Some 14000) (empty_ks 0))
   \<and> fst (bucket_acquire_lua ks_redis demo_bucket 9000
       (ks_put (bucket_key demo_bucket) (Some (RStr (TPair 0 0))) (Some 14000) (empty_ks 0))) = (True, 8571, 0)
   \<and> (of_nat (Suc 1) :: real) \<le> 1 + of_int (1 * (8571 - ks_ms (empty_ks 0))) / of_int \<lfloor>60 / 7 * 1000 :: real\<rfloor>"
proof -
  have run: "bucket_run ks_redis (\<lambda>ks. ks) demo_bucket (empty_ks 0) 1
     (ks_put (bucket_key demo_bucket) (Some (RStr (TPair 0 0))) (Some 14000) (empty_ks 0))"
    using bucket_run.grant[OF bucket_run.start demo_bucket_calls(1)] by simp
  have "bucket_ok demo_bucket" by (simp add: bucket_ok_def demo_bucket_def slot_ms_def)
  from bucket_rate_limit[OF ks.redis_service_axioms this _ run demo_bucket_calls(2)] run show ?thesis
    by (simp add: demo_bucket_calls(2)) (simp add: demo_bucket_def)
qed

text \<open>A granted acquisition never waits longer than the caller allowed, and a rejected one
  leaves the bucket as it was: no reservation is committed.\<close>

theorem bucket_wait_bound:
  assumes "bucket_acquire R b (Some max_sleep) w = (r, w')" "0 \<le> max_sleep" "w_fault w (w_pc w) = No_fault"
  shows "case r of
      Inr wait \<Rightarrow> 0 \<le> wait \<and> wait \<le> max_sleep
    | Inl e \<Rightarrow> e = CoreAcquireTimeout \<and> w_db w' = w_env w (w_pc w) (w_db w)"
proof -
  let ?d = "w_env w (w_pc w) (w_db w)"
  let ?now = "lua_now_ms (r_time R ?d)"
  obtain tk sl where ts: "bucket_advance b (bucket_refill b ?now (r_get R (bucket_key b) ?d)) = (tk, sl)"
    by fastforce
  have ms: "of_int (max_sleep_arg (Some max_sleep)) \<le> max_sleep * 1000"
    using assms(2) by (simp add: max_sleep_arg_def py_int_le)
  have "of_int (max 0 (py_int sl - ?now)) \<le> max_sleep * 1000"
    if "sl - of_int ?now \<le> of_int (max_sleep_arg (Some max_sleep))"
  proof (cases "0 \<le> sl")
    case True
    then have "of_int (py_int sl) \<le> sl" by (rule py_int_le)
    then show ?thesis using that ms assms(2) by (simp add: max_def)
  next
    case False
    then have "py_int sl \<le> 0" by (simp add: py_int_def ceiling_le_zero)
    moreover have "0 \<le> ?now" by (simp add: lua_now_ms_def)
    ultimately show ?thesis using assms(2) by (simp add: max_def)
  qed
  then show ?thesis
    using assms(1,3) ts
    by (auto simp: bucket_acquire_def py_simps redis_call_def bucket_acquire_lua_def Let_def
        split: if_splits prod.splits)
qed

theorem bucket_wait_bound_witness:
  "case fst (bucket_acquire ks_redis demo_bucket (Some 5) (quiet_world (empty_ks 0))) of
     Inr wait \<Rightarrow> 0 \<le> wait \<and> wait \<le> 5
   | Inl e \<Rightarrow> e = CoreAcquireTimeout \<and> w_db (snd (bucket_acquire ks_redis demo_bucket (Some 5) (quiet_world (empty_ks 0)))) = empty_ks 0"
  using bucket_wait_bound[OF prod.collapse[symmetric], of "5" "quiet_world (empty_ks 0)" ks_redis demo_bucket]
  by (simp cong: sum.case_cong)

end
