(* ===== verification/Status.thy ===== *)
theory Status
  imports Prelude
begin

text \<open>
  The two task vocabularies: \<^verbatim>\<open>core/task/status.py\<close> (used by the store on its own) and
  \<^verbatim>\<open>flow/core/state_machine.py\<close>, whose table \<^verbatim>\<open>flow/storage/factory.py\<close> passes to the store.
\<close>

section \<open>core/task/status.py\<close>

definition core_terminal_statuses :: "string list" where
  "core_terminal_statuses = [''completed'', ''failed'', ''cancelled'']"

definition core_allowed_transitions :: "(string, string list) dict" where
  "core_allowed_transitions =
     [('''', [''pending'', ''in_progress'']),
      (''pending'', [''in_progress'', ''cancelled'', ''failed'']),
      (''in_progress'', [''completed'', ''failed'', ''cancelled'']),
      (''completed'', []), (''failed'', []), (''cancelled'', [])]"

definition core_is_terminal :: "string \<Rightarrow> bool" where
  "core_is_terminal status \<longleftrightarrow> status \<in> set core_terminal_statuses"

definition core_can_transfer :: "string \<Rightarrow> string \<Rightarrow> bool" where
  "core_can_transfer from_status to_status \<longleftrightarrow> to_status \<in> set (dget core_allowed_transitions from_status [])"

section \<open>flow/core/state\_machine.py\<close>

datatype task_status = PENDING | QUEUED | RUNNING | SUCCEEDED | FAILED | CANCELLED

fun status_value :: "task_status \<Rightarrow> string" where
  "status_value PENDING = ''pending''"
| "status_value QUEUED = ''queued''"
| "status_value RUNNING = ''running''"
| "status_value SUCCEEDED = ''succeeded''"
| "status_value FAILED = ''failed''"
| "status_value CANCELLED = ''cancelled''"

text \<open>\<^verbatim>\<open>TaskStatus(word)\<close>: None is the ValueError of an unknown word.\<close>

definition task_status_of :: "string \<Rightarrow> task_status option" where
  "task_status_of word = find (\<lambda>s. status_value s = word) [PENDING, QUEUED, RUNNING, SUCCEEDED, FAILED, CANCELLED]"

fun allowed_transitions :: "task_status \<Rightarrow> task_status list" where
  "allowed_transitions PENDING = [QUEUED, CANCELLED]"
| "allowed_transitions QUEUED = [RUNNING, CANCELLED]"
| "allowed_transitions RUNNING = [SUCCEEDED, FAILED, CANCELLED]"
| "allowed_transitions _ = []"

definition can_transition :: "task_status \<Rightarrow> task_status \<Rightarrow> bool" where
  "can_transition from_status to_status \<longleftrightarrow> to_status \<in> set (allowed_transitions from_status)"

definition validate_transition :: "task_status \<Rightarrow> task_status \<Rightarrow> ('s, unit) py" where
  "validate_transition from_status to_status =
     (if can_transition from_status to_status then py_return () else py_raise FlowInvalidTransition)"

definition is_terminal :: "task_status \<Rightarrow> bool" where
  "is_terminal status \<longleftrightarrow> status \<in> {SUCCEEDED, FAILED, CANCELLED}"

section \<open>flow/storage/factory.py\<close>

definition taskflow_transitions :: "(string, string list) dict" where
  "taskflow_transitions =
     [('''', [''pending'', ''queued'']),
      (''pending'', [''queued'', ''cancelled'']),
      (''queued'', [''running'', ''cancelled'']),
      (''running'', [''succeeded'', ''failed'', ''cancelled'']),
      (''succeeded'', []), (''failed'', []), (''cancelled'', [])]"

definition taskflow_terminal_statuses :: "string list" where
  "taskflow_terminal_statuses = [''succeeded'', ''failed'', ''cancelled'']"

lemma status_value_inj [simp]: "status_value a = status_value b \<longleftrightarrow> a = b"
  by (cases a; cases b) simp_all

lemma task_status_of_value [simp]: "task_status_of (status_value s) = Some s"
  by (cases s) (simp_all add: task_status_of_def)

lemma task_status_of_Some: "task_status_of w = Some s \<Longrightarrow> w = status_value s"
  by (auto simp: task_status_of_def split: if_splits)

text \<open>Terminal statuses are the dead ends of both tables, and the table handed to the store agrees
  with the state machine, word for word.\<close>

lemma terminal_no_transition: "is_terminal s \<Longrightarrow> \<not> can_transition s t"
  by (cases s) (auto simp: is_terminal_def can_transition_def)

lemma core_terminal_no_transfer: "core_is_terminal a \<Longrightarrow> \<not> core_can_transfer a b"
  by (auto simp: core_is_terminal_def core_terminal_statuses_def core_can_transfer_def
      core_allowed_transitions_def dget_def)

lemma taskflow_table_agrees:
  "status_value t \<in> set (dget taskflow_transitions (status_value s) []) \<longleftrightarrow> can_transition s t"
  "status_value s \<in> set taskflow_terminal_statuses \<longleftrightarrow> is_terminal s"
  by (cases s; cases t; simp add: taskflow_transitions_def can_transition_def dget_def)
    (cases s; simp add: taskflow_terminal_statuses_def is_terminal_def)

end
