(* ===== verification/Task_Store.thy ===== *)
theory Task_Store
  imports Redis_Service Status
begin

text \<open>
  The task store (\<^verbatim>\<open>core/redis/task_db.py\<close> with \<^verbatim>\<open>lua/task_init.lua\<close>, \<^verbatim>\<open>lua/task_update.lua\<close> and
  \<^verbatim>\<open>lua/task_reopen.lua\<close>): task records as JSON documents, a sorted-set index per status and per
  parent, and the sets and counters that dependency governance attaches to a task.

  \<^verbatim>\<open>cjson\<close> runs inside Redis and is a parameter: \<^term>\<open>cj\<close> is what decoding and encoding again does to a
  JSON value.  The order of the members of a JSON object is not modelled.  A status that is not
  a string, which no caller writes, reads as the empty word, and so does a list of previous
  execution ids that is a non-empty object read as the empty list.
\<close>

section \<open>Configuration and keys\<close>

record task_db =
  td_task_key_prefix :: string
  td_status_index_prefix :: string
  td_default_expire_time :: int
  td_terminal_statuses :: "string list"
  td_transitions :: "(string, string list) dict option"

definition task_key :: "task_db \<Rightarrow> string \<Rightarrow> string" where
  "task_key db tid = td_task_key_prefix db @ '':'' @ tid"

definition status_index_key :: "task_db \<Rightarrow> string \<Rightarrow> string" where
  "status_index_key db status = td_status_index_prefix db @ '':'' @ status"

definition children_key :: "task_db \<Rightarrow> string \<Rightarrow> string" where
  "children_key db parent = td_task_key_prefix db @ ''_children:'' @ parent"

definition can_transfer :: "task_db \<Rightarrow> string \<Rightarrow> string \<Rightarrow> bool" where
  "can_transfer db from_status to_status =
     (case td_transitions db of
        Some t \<Rightarrow> to_status \<in> set (dget t from_status [])
      | None \<Rightarrow> core_can_transfer from_status to_status)"

section \<open>The Lua scripts\<close>

datatype lua_result = LOk | LErr string | LCrash

definition status_word :: "json option \<Rightarrow> string" where
  "status_word v = (case v of Some (JStr s) \<Rightarrow> s | _ \<Rightarrow> '''')"

definition cj_obj :: "(json \<Rightarrow> json) \<Rightarrow> jdict \<Rightarrow> jdict" where
  "cj_obj cj d = map (\<lambda>(k, v). (k, cj v)) d"

definition lua_array :: "json list \<Rightarrow> json" where
  "lua_array xs = (if xs = [] then JObj [] else JArr xs)"

text \<open>\<^verbatim>\<open>for k, v in pairs(updates) do current[k] = v end\<close>\<close>

definition lua_merge :: "jdict \<Rightarrow> jdict \<Rightarrow> jdict" where
  "lua_merge current updates = fold (\<lambda>(k, v) d. dset k v d) updates current"

definition bump_ttl :: "'r redis \<Rightarrow> string \<Rightarrow> int \<Rightarrow> 'r \<Rightarrow> 'r" where
  "bump_ttl R k expiry d =
     (let t = r_ttl R k d in if t = -1 \<or> t < expiry then r_expire R k expiry d else d)"

text \<open>Adding a task to an index: member-level lease plus key-level TTL that only grows.\<close>

definition index_add :: "'r redis \<Rightarrow> string \<Rightarrow> int \<Rightarrow> string \<Rightarrow> 'r \<Rightarrow> 'r" where
  "index_add R k expiry tid d =
     (let expire_at = lua_now_ms (r_time R d) + expiry * 1000
      in bump_ttl R k expiry (r_zadd R k (of_int expire_at) tid d))"

text \<open>\<^verbatim>\<open>task_init.lua\<close>.  A non-positive expiry makes the SET command fail.\<close>

definition task_init_lua ::
  "'r redis \<Rightarrow> (json \<Rightarrow> json) \<Rightarrow> task_db \<Rightarrow> string \<Rightarrow> jdict \<Rightarrow> int \<Rightarrow> bool \<Rightarrow> string \<Rightarrow> string option \<Rightarrow>
   string \<Rightarrow> 'r \<Rightarrow> bool option \<times> 'r" where
  "task_init_lua R cj db tid data expiry if_not_exists initial_status parent eid d =
     (let tkey = task_key db tid
      in if if_not_exists \<and> r_exists R tkey d then (Some False, d)
         else if expiry \<le> 0 then (None, d)
         else
           let rec = dset ''execution_id'' (JStr eid) (cj_obj cj data);
               d1 = r_setex R tkey (TJson (JObj rec)) expiry d;
               d2 = (if initial_status \<noteq> '''' then index_add R (status_index_key db initial_status) expiry tid d1 else d1);
               d3 = (case parent of
                       Some p \<Rightarrow> if p \<noteq> '''' then index_add R (children_key db p) expiry tid d2 else d2
                     | None \<Rightarrow> d2)
           in (Some True, d3))"

text \<open>The expiry a script uses: a negative argument keeps what is left of the record's TTL.\<close>

definition resolve_expiry :: "'r redis \<Rightarrow> task_db \<Rightarrow> string \<Rightarrow> int \<Rightarrow> 'r \<Rightarrow> int" where
  "resolve_expiry R db tkey expiry d =
     (if expiry < 0 then (let ttl = r_ttl R tkey d in if 0 < ttl then ttl else td_default_expire_time db)
      else expiry)"

text \<open>The tail of \<^verbatim>\<open>task_update.lua\<close> and \<^verbatim>\<open>task_reopen.lua\<close>: write the record and move the task from the
  index of its old status to that of its new one.\<close>

definition index_migrate ::
  "'r redis \<Rightarrow> task_db \<Rightarrow> string \<Rightarrow> string \<Rightarrow> string \<Rightarrow> bool \<Rightarrow> int \<Rightarrow> 'r \<Rightarrow> 'r" where
  "index_migrate R db tid old_status new_status leave expiry d =
     (let d1 = (if leave \<and> old_status \<noteq> '''' then r_zrem R (status_index_key db old_status) tid d else d)
      in if new_status \<noteq> '''' then index_add R (status_index_key db new_status) expiry tid d1 else d1)"

text \<open>The status a record with \<^term>\<open>old_status\<close> has after the updates.\<close>

definition new_status_of :: "jdict \<Rightarrow> string \<Rightarrow> string" where
  "new_status_of updates old_status =
     (case map_of updates ''status'' of None \<Rightarrow> old_status | Some v \<Rightarrow> status_word (Some v))"

definition task_update_lua ::
  "'r redis \<Rightarrow> (json \<Rightarrow> json) \<Rightarrow> task_db \<Rightarrow> string \<Rightarrow> jdict \<Rightarrow> int \<Rightarrow> 'r \<Rightarrow> lua_result \<times> 'r" where
  "task_update_lua R cj db tid updates expiry d =
     (let tkey = task_key db tid
      in case r_get R tkey d of
           None \<Rightarrow> (LErr ''NOT_FOUND'', d)
         | Some (TJson (JObj cur)) \<Rightarrow>
             (let ex = resolve_expiry R db tkey expiry d;
                  old_status = status_word (map_of cur ''status'');
                  new_status = new_status_of updates old_status
              in if old_status \<noteq> new_status \<and> old_status \<in> set (td_terminal_statuses db)
                 then (LErr ''INVALID_TRANSFER'', d)
                 else if ex \<le> 0 then (LCrash, d)
                 else
                   let rec = lua_merge (cj_obj cj cur) (cj_obj cj updates);
                       d1 = r_setex R tkey (TJson (JObj rec)) ex d
                   in (LOk, index_migrate R db tid old_status new_status (old_status \<noteq> new_status) ex d1))
         | Some _ \<Rightarrow> (LCrash, d))"

text \<open>The record of the next generation, as \<^verbatim>\<open>task_reopen.lua\<close> builds it.\<close>

definition previous_ids :: "(json \<Rightarrow> json) \<Rightarrow> jdict \<Rightarrow> json list" where
  "previous_ids cj cur =
     (let prev = (case map_of cur ''previous_execution_ids'' of Some (JArr xs) \<Rightarrow> map cj xs | _ \<Rightarrow> [])
      in case map_of cur ''execution_id'' of
           None \<Rightarrow> prev
         | Some v \<Rightarrow>
             if v = JStr '''' then prev
             else (let prev' = prev @ [cj v] in if 50 < length prev' then tl prev' else prev'))"

definition reopened_record ::
  "(json \<Rightarrow> json) \<Rightarrow> jdict \<Rightarrow> string \<Rightarrow> string \<Rightarrow> int \<Rightarrow> jdict" where
  "reopened_record cj cur eid initial_status now_ms =
     (let r0 = cj_obj cj cur;
          r1 = dset ''previous_execution_ids'' (lua_array (previous_ids cj cur)) r0;
          r2 = dset ''previous_status'' (JStr (status_word (map_of cur ''status''))) r1;
          r3 = dset ''execution_id'' (JStr eid) r2;
          r4 = dset ''status'' (JStr initial_status) r3;
          r5 = dset ''cancel_requested'' (JBool False) r4;
          r6 = ddel ''cancel_outcome'' (ddel ''progress'' (ddel ''error'' (ddel ''result'' r5)))
      in dset ''reopened_at'' (JNum (of_int now_ms)) r6)"

definition task_reopen_lua ::
  "'r redis \<Rightarrow> (json \<Rightarrow> json) \<Rightarrow> task_db \<Rightarrow> string \<Rightarrow> string \<Rightarrow> string \<Rightarrow> int \<Rightarrow> 'r \<Rightarrow> lua_result \<times> 'r" where
  "task_reopen_lua R cj db tid eid initial_status expiry d =
     (let tkey = task_key db tid
      in case r_get R tkey d of
           None \<Rightarrow> (LErr ''NOT_FOUND'', d)
         | Some (TJson (JObj cur)) \<Rightarrow>
             (let ex = resolve_expiry R db tkey expiry d;
                  old_status = status_word (map_of cur ''status'')
              in if old_status \<notin> set (td_terminal_statuses db) then (LErr ''NOT_TERMINAL'', d)
                 else if ex \<le> 0 then (LCrash, d)
                 else
                   let rec = reopened_record cj cur eid initial_status (lua_now_ms (r_time R d));
                       d1 = r_setex R tkey (TJson (JObj rec)) ex d
                   in (LOk, index_migrate R db tid old_status initial_status True ex d1))
         | Some _ \<Rightarrow> (LCrash, d))"

section \<open>TaskRedisDB\<close>

definition record_of :: "rstr option \<Rightarrow> jdict" where
  "record_of raw = (case raw of Some (TJson (JObj d)) \<Rightarrow> d | _ \<Rightarrow> [])"

definition get_task :: "'r redis \<Rightarrow> task_db \<Rightarrow> string \<Rightarrow> ('r world, jdict) py" where
  "get_task R db tid =
     py_bind (redis_read (r_get R (task_key db tid))) (\<lambda>raw. py_return (record_of raw))"

definition exists_task :: "'r redis \<Rightarrow> task_db \<Rightarrow> string \<Rightarrow> ('r world, bool) py" where
  "exists_task R db tid = redis_read (r_exists R (task_key db tid))"

text \<open>\<^verbatim>\<open>initialize_task\<close>: the fresh execution id and the timestamp are arguments.\<close>

definition initial_data :: "string \<Rightarrow> string \<Rightarrow> string option \<Rightarrow> jdict" where
  "initial_data timestamp initial_status parent =
     [(''status'', JStr initial_status), (''reason'', JStr ''''), (''payload'', JObj []),
      (''cancel_requested'', JBool False), (''timestamp'', JStr timestamp)]
     @ (case parent of Some p \<Rightarrow> [(''parent_task_id'', JStr p)] | None \<Rightarrow> [])"

definition script_error :: exn where
  "script_error = OtherErr ''ResponseError''"

definition initialize_task ::
  "'r redis \<Rightarrow> (json \<Rightarrow> json) \<Rightarrow> task_db \<Rightarrow> string \<Rightarrow> string \<Rightarrow> string \<Rightarrow> int option \<Rightarrow> string \<Rightarrow> bool \<Rightarrow>
   string option \<Rightarrow> ('r world, bool) py" where
  "initialize_task R cj db eid timestamp tid expiry initial_status if_not_exists parent =
     (let ex = (case expiry of Some x \<Rightarrow> x | None \<Rightarrow> td_default_expire_time db)
      in py_bind
           (redis_call (task_init_lua R cj db tid (initial_data timestamp initial_status parent) ex
              if_not_exists initial_status parent eid))
           (\<lambda>result. case result of None \<Rightarrow> py_raise script_error | Some b \<Rightarrow> py_return b))"

definition attached_key_suffixes :: "string list" where
  "attached_key_suffixes = [''active_children'', ''remaining_deps'', ''cancel_votes'', ''result_consumers'']"

definition attached_key :: "task_db \<Rightarrow> string \<Rightarrow> string \<Rightarrow> string" where
  "attached_key db tid sfx = task_key db tid @ '':'' @ sfx"

definition follow_attached_keys_ttl ::
  "'r redis \<Rightarrow> task_db \<Rightarrow> string \<Rightarrow> int \<Rightarrow> ('r world, unit) py" where
  "follow_attached_keys_ttl R db tid expiry =
     py_except
       (py_bind (if expiry < 0 then redis_read (r_ttl R (task_key db tid)) else py_return expiry)
          (\<lambda>ex. if ex \<le> 0 then py_return ()
                else redis_write (fold (\<lambda>sfx. r_expire R (attached_key db tid sfx) ex) attached_key_suffixes)))
       is_Exception (\<lambda>_. py_return ())"

definition raise_lua :: "lua_result \<Rightarrow> ('s, unit) py" where
  "raise_lua res =
     (case res of
        LOk \<Rightarrow> py_return ()
      | LErr err \<Rightarrow>
          if err = ''NOT_FOUND'' then py_raise CoreTaskNotFound
          else if err = ''INVALID_TRANSFER'' \<or> err = ''NOT_TERMINAL'' then py_raise CoreInvalidTransfer
          else py_raise RuntimeErr
      | LCrash \<Rightarrow> py_raise script_error)"

definition validate_transfer ::
  "'r redis \<Rightarrow> task_db \<Rightarrow> string \<Rightarrow> jdict \<Rightarrow> ('r world, unit) py" where
  "validate_transfer R db tid updates =
     py_bind (get_task R db tid) (\<lambda>rec.
       if rec = [] then py_raise CoreTaskNotFound
       else
         let old_status = status_word (map_of rec ''status'');
             new_status = status_word (map_of updates ''status'')
         in if old_status \<noteq> new_status \<and> \<not> can_transfer db old_status new_status
            then py_raise CoreInvalidTransfer else py_return ())"

definition update_task ::
  "'r redis \<Rightarrow> (json \<Rightarrow> json) \<Rightarrow> task_db \<Rightarrow> string \<Rightarrow> jdict \<Rightarrow> int option \<Rightarrow> bool \<Rightarrow> ('r world, unit) py" where
  "update_task R cj db tid updates expiry validate_status_transfer =
     (let ex = (case expiry of Some x \<Rightarrow> x | None \<Rightarrow> -1)
      in py_seq
           (if validate_status_transfer \<and> map_of updates ''status'' \<noteq> None
            then validate_transfer R db tid updates else py_return ())
           (py_bind (redis_call (task_update_lua R cj db tid updates ex))
              (\<lambda>res. py_seq (raise_lua res) (follow_attached_keys_ttl R db tid ex))))"

definition request_cancel :: "'r redis \<Rightarrow> (json \<Rightarrow> json) \<Rightarrow> task_db \<Rightarrow> string \<Rightarrow> ('r world, bool) py" where
  "request_cancel R cj db tid =
     py_bind (get_task R db tid) (\<lambda>rec.
       if rec = [] then py_return False
       else py_seq (update_task R cj db tid [(''cancel_requested'', JBool True)] None True) (py_return True))"

definition reopen_task ::
  "'r redis \<Rightarrow> (json \<Rightarrow> json) \<Rightarrow> task_db \<Rightarrow> string \<Rightarrow> string \<Rightarrow> string \<Rightarrow> int option \<Rightarrow> ('r world, string) py" where
  "reopen_task R cj db eid tid initial_status expiry =
     py_bind (redis_call (task_reopen_lua R cj db tid eid initial_status (case expiry of Some x \<Rightarrow> x | None \<Rightarrow> -1)))
       (\<lambda>res. py_seq (raise_lua res) (py_return eid))"

definition server_now_ms :: "'r redis \<Rightarrow> ('r world, int) py" where
  "server_now_ms R = py_bind (redis_read (r_time R)) (\<lambda>t. py_return (lua_now_ms t))"

definition list_index :: "'r redis \<Rightarrow> string \<Rightarrow> ('r world, string list) py" where
  "list_index R key =
     py_bind (server_now_ms R) (\<lambda>now_ms.
       py_seq (redis_write (r_zremrangebyscore R key (of_int now_ms))) (redis_read (r_zrange R key)))"

definition list_children :: "'r redis \<Rightarrow> task_db \<Rightarrow> string \<Rightarrow> ('r world, string list) py" where
  "list_children R db parent = list_index R (children_key db parent)"

definition list_task_ids_by_status ::
  "'r redis \<Rightarrow> task_db \<Rightarrow> string \<Rightarrow> int option \<Rightarrow> ('r world, string list) py" where
  "list_task_ids_by_status R db status limit =
     (if (case limit of None \<Rightarrow> False | Some l \<Rightarrow> l \<le> 0) then py_return []
      else py_bind (list_index R (status_index_key db status))
        (\<lambda>ids. py_return (case limit of None \<Rightarrow> ids | Some l \<Rightarrow> take (nat l) ids)))"

definition bulk_get_tasks :: "'r redis \<Rightarrow> task_db \<Rightarrow> string list \<Rightarrow> ('r world, jdict list) py" where
  "bulk_get_tasks R db tids =
     (if tids = [] then py_return []
      else redis_read (\<lambda>d. map (\<lambda>tid. record_of (r_get R (task_key db tid) d)) tids))"

section \<open>Dependency-governance primitives\<close>

definition sync_attached_ttl ::
  "'r redis \<Rightarrow> task_db \<Rightarrow> string \<Rightarrow> string \<Rightarrow> ('r world, unit) py" where
  "sync_attached_ttl R db owner key =
     py_except
       (py_bind (redis_read (r_ttl R (task_key db owner))) (\<lambda>owner_ttl.
          py_bind (redis_read (r_exists R key)) (\<lambda>present.
            if present
            then redis_write (r_expire R key (if 0 < owner_ttl then owner_ttl else td_default_expire_time db))
            else py_return ())))
       is_Exception (\<lambda>_. py_return ())"

definition sadd_active_child :: "'r redis \<Rightarrow> task_db \<Rightarrow> string \<Rightarrow> string \<Rightarrow> ('r world, unit) py" where
  "sadd_active_child R db parent child =
     (let key = attached_key db parent ''active_children''
      in py_seq (redis_call (r_sadd R key child)) (sync_attached_ttl R db parent key))"

definition srem_active_child :: "'r redis \<Rightarrow> task_db \<Rightarrow> string \<Rightarrow> string \<Rightarrow> ('r world, unit) py" where
  "srem_active_child R db parent child =
     redis_write (r_srem R (attached_key db parent ''active_children'') child)"

definition get_active_children :: "'r redis \<Rightarrow> task_db \<Rightarrow> string \<Rightarrow> ('r world, string list) py" where
  "get_active_children R db parent =
     py_bind (redis_read (r_smembers R (attached_key db parent ''active_children'')))
       (\<lambda>members. py_return (sort members))"

definition set_remaining_deps :: "'r redis \<Rightarrow> task_db \<Rightarrow> string \<Rightarrow> int \<Rightarrow> ('r world, unit) py" where
  "set_remaining_deps R db tid n =
     (let key = attached_key db tid ''remaining_deps''
      in py_seq (redis_write (r_set R key (TInt n))) (sync_attached_ttl R db tid key))"

definition decr_remaining_deps :: "'r redis \<Rightarrow> task_db \<Rightarrow> string \<Rightarrow> ('r world, int) py" where
  "decr_remaining_deps R db tid =
     (let key = attached_key db tid ''remaining_deps''
      in py_bind (redis_call (r_decr R key)) (\<lambda>v. py_seq (sync_attached_ttl R db tid key) (py_return v)))"

definition get_remaining_deps :: "'r redis \<Rightarrow> task_db \<Rightarrow> string \<Rightarrow> ('r world, int) py" where
  "get_remaining_deps R db tid =
     py_bind (redis_read (r_get R (attached_key db tid ''remaining_deps''))) (\<lambda>raw. py_return (rint raw))"

definition vote_and_check_threshold ::
  "'r redis \<Rightarrow> task_db \<Rightarrow> string \<Rightarrow> string \<Rightarrow> int \<Rightarrow> ('r world, bool) py" where
  "vote_and_check_threshold R db child parent threshold =
     (let key = attached_key db child ''cancel_votes''
      in py_bind (redis_call (\<lambda>d. let d1 = snd (r_sadd R key parent d) in (r_scard R key d1, d1)))
           (\<lambda>count. py_seq (sync_attached_ttl R db child key) (py_return (threshold \<le> int count))))"

definition get_cancel_votes :: "'r redis \<Rightarrow> task_db \<Rightarrow> string \<Rightarrow> ('r world, string list) py" where
  "get_cancel_votes R db child =
     py_bind (redis_read (r_smembers R (attached_key db child ''cancel_votes''))) (\<lambda>m. py_return (sort m))"

definition clear_cancel_votes :: "'r redis \<Rightarrow> task_db \<Rightarrow> string \<Rightarrow> ('r world, unit) py" where
  "clear_cancel_votes R db child = redis_write (r_del R (attached_key db child ''cancel_votes''))"

definition sadd_result_consumer :: "'r redis \<Rightarrow> task_db \<Rightarrow> string \<Rightarrow> string \<Rightarrow> ('r world, bool) py" where
  "sadd_result_consumer R db tid consumer =
     (let key = attached_key db tid ''result_consumers''
      in py_bind (redis_call (r_sadd R key consumer))
           (\<lambda>added. py_seq (sync_attached_ttl R db tid key) (py_return (added = 1))))"

end
