(* ===== verification/Task_Store_Spec.thy ===== *)
theory Task_Store_Spec
  imports Task_Store
begin

text \<open>
  What the task store promises.  The abstract store maps task ids to records with deadlines and
  statuses to index entries; each Lua script refines one abstract operation, for every Redis
  that acts as documented.  Runs interleave the operations of all clients with the passing of
  time; the invariants of the abstract store are proved over runs.
\<close>

section \<open>Abstract store\<close>

text \<open>Task ids without a colon: with one, the key of a task could be an attached key of another.\<close>

definition valid_tid :: "string \<Rightarrow> bool" where
  "valid_tid t \<longleftrightarrow> CHR '':'' \<notin> set t"

record astore =
  as_rec :: "string \<Rightarrow> (jdict \<times> int option) option"
  as_idx :: "string \<Rightarrow> (string \<times> real) list"
  as_now :: int

definition obj_of :: "rval option \<Rightarrow> jdict option" where
  "obj_of v = (case v of Some (RStr (TJson (JObj d))) \<Rightarrow> Some d | _ \<Rightarrow> None)"

definition task_entry :: "task_db \<Rightarrow> keyspace \<Rightarrow> string \<Rightarrow> (jdict \<times> int option) option" where
  "task_entry db ks t =
     (if valid_tid t
      then map_option (\<lambda>d. (d, ks_dl ks (task_key db t))) (obj_of (ks_vals ks (task_key db t)))
      else None)"

lemma obj_of_simps [simp]:
  "obj_of None = None" "obj_of (Some (RStr (TJson (JObj d)))) = Some d"
  by (simp_all add: obj_of_def)

definition abs_store :: "task_db \<Rightarrow> keyspace \<Rightarrow> astore" where
  "abs_store db ks = \<lparr>as_rec = task_entry db ks, as_idx = (\<lambda>st. ks_zset (status_index_key db st) ks),
     as_now = ks_ms ks\<rparr>"

definition rec_status :: "jdict \<Rightarrow> string" where
  "rec_status d = status_word (map_of d ''status'')"

text \<open>Writing a record for \<^term>\<open>ex\<close> seconds and moving the task between status indexes.\<close>

definition idx_move ::
  "string \<Rightarrow> string option \<Rightarrow> string \<Rightarrow> real \<Rightarrow> (string \<Rightarrow> (string \<times> real) list) \<Rightarrow> string \<Rightarrow> (string \<times> real) list" where
  "idx_move tid leave enter score idx st =
     (let z = (if leave = Some st \<and> st \<noteq> '''' then ddel tid (idx st) else idx st)
      in if st = enter \<and> st \<noteq> '''' then dset tid score z else z)"

definition as_write ::
  "string \<Rightarrow> jdict \<Rightarrow> string option \<Rightarrow> string \<Rightarrow> int \<Rightarrow> astore \<Rightarrow> astore" where
  "as_write tid d leave enter ex A =
     A\<lparr>as_rec := (as_rec A)(tid := Some (d, Some (as_now A + 1000 * ex))),
       as_idx := idx_move tid leave enter (of_int (as_now A + ex * 1000)) (as_idx A)\<rparr>"

definition as_update ::
  "(json \<Rightarrow> json) \<Rightarrow> string list \<Rightarrow> string \<Rightarrow> jdict \<Rightarrow> int \<Rightarrow> astore \<Rightarrow> lua_result \<times> astore" where
  "as_update cj terminal tid updates ex A =
     (case as_rec A tid of
        None \<Rightarrow> (LErr ''NOT_FOUND'', A)
      | Some (cur, _) \<Rightarrow>
          (let new = new_status_of updates (rec_status cur)
           in if rec_status cur \<noteq> new \<and> rec_status cur \<in> set terminal then (LErr ''INVALID_TRANSFER'', A)
              else (LOk, as_write tid (lua_merge (cj_obj cj cur) (cj_obj cj updates))
                      (if rec_status cur \<noteq> new then Some (rec_status cur) else None) new ex A)))"

definition as_reopen ::
  "(json \<Rightarrow> json) \<Rightarrow> string list \<Rightarrow> string \<Rightarrow> string \<Rightarrow> string \<Rightarrow> int \<Rightarrow> astore \<Rightarrow> lua_result \<times> astore" where
  "as_reopen cj terminal tid eid initial_status ex A =
     (case as_rec A tid of
        None \<Rightarrow> (LErr ''NOT_FOUND'', A)
      | Some (cur, _) \<Rightarrow>
          if rec_status cur \<notin> set terminal then (LErr ''NOT_TERMINAL'', A)
          else (LOk, as_write tid (reopened_record cj cur eid initial_status (as_now A))
                  (Some (rec_status cur)) initial_status ex A))"

definition as_init ::
  "(json \<Rightarrow> json) \<Rightarrow> string \<Rightarrow> jdict \<Rightarrow> bool \<Rightarrow> string \<Rightarrow> string \<Rightarrow> int \<Rightarrow> astore \<Rightarrow> bool \<times> astore" where
  "as_init cj tid data if_not_exists initial_status eid ex A =
     (if if_not_exists \<and> as_rec A tid \<noteq> None then (False, A)
      else (True, as_write tid (dset ''execution_id'' (JStr eid) (cj_obj cj data)) None initial_status ex A))"

section \<open>Refinement\<close>

definition store_layout :: "task_db \<Rightarrow> (string \<Rightarrow> kind) \<Rightarrow> bool" where
  "store_layout db ty \<longleftrightarrow> (\<forall>t. valid_tid t \<longrightarrow> ty (task_key db t) = KStr)
     \<and> (\<forall>st. ty (status_index_key db st) = KZset) \<and> (\<forall>p. ty (children_key db p) = KZset)
     \<and> (\<forall>st p. status_index_key db st \<noteq> children_key db p)"

definition store_ok :: "task_db \<Rightarrow> (string \<Rightarrow> kind) \<Rightarrow> keyspace \<Rightarrow> bool" where
  "store_ok db ty ks \<longleftrightarrow> store_layout db ty \<and> well_typed ty ks
     \<and> (\<forall>t v. valid_tid t \<and> ks_vals ks (task_key db t) = Some v \<longrightarrow> (\<exists>d. v = RStr (TJson (JObj d))))"

lemma task_key_inj [simp]: "task_key db t = task_key db u \<longleftrightarrow> t = u"
  by (simp add: task_key_def)

lemma status_index_key_inj [simp]: "status_index_key db s = status_index_key db t \<longleftrightarrow> s = t"
  by (simp add: status_index_key_def)

lemma store_keys_differ:
  assumes "store_layout db ty" "valid_tid t"
  shows "task_key db t \<noteq> status_index_key db st" "status_index_key db st \<noteq> task_key db t"
    "task_key db t \<noteq> children_key db p" "children_key db p \<noteq> task_key db t"
  using assms unfolding store_layout_def by (metis kind.distinct(1))+

lemma abs_put_zset_status:
  assumes "store_layout db ty"
  shows "abs_store db (ks_put_zset (status_index_key db st) z ks)
    = (abs_store db ks)\<lparr>as_idx := (as_idx (abs_store db ks))(st := z)\<rparr>"
proof -
  have "task_entry db (ks_put_zset (status_index_key db st) z ks) t = task_entry db ks t" for t
    using store_keys_differ[OF assms, of t st] by (auto simp: task_entry_def ks_put_zset_def)
  then show ?thesis by (auto simp: abs_store_def fun_eq_iff)
qed

lemma abs_put_zset_children:
  assumes "store_layout db ty"
  shows "abs_store db (ks_put_zset (children_key db p) z ks) = abs_store db ks"
proof -
  have "task_entry db (ks_put_zset (children_key db p) z ks) t = task_entry db ks t" for t
    using store_keys_differ[OF assms, of t] by (auto simp: task_entry_def ks_put_zset_def)
  moreover have "status_index_key db st \<noteq> children_key db p" for st
    using assms by (simp add: store_layout_def)
  ultimately show ?thesis by (simp add: abs_store_def fun_eq_iff)
qed

lemma abs_put_record:
  assumes "store_layout db ty" "valid_tid tid"
  shows "abs_store db (ks_put (task_key db tid) (Some (RStr (TJson (JObj d)))) (Some (ks_ms ks + 1000 * ex)) ks)
    = (abs_store db ks)\<lparr>as_rec := (as_rec (abs_store db ks))(tid := Some (d, Some (as_now (abs_store db ks) + 1000 * ex)))\<rparr>"
  using assms store_keys_differ[OF assms]
  by (auto simp: abs_store_def task_entry_def fun_eq_iff)

lemma store_ok_put_zset:
  "store_ok db ty ks \<Longrightarrow> ty k = KZset \<Longrightarrow> store_ok db ty (ks_put_zset k z ks)"
  unfolding store_ok_def
  by (auto simp: well_typed_put_zset ks_vals_put_zset store_layout_def)

lemma store_ok_put_record:
  "store_ok db ty ks \<Longrightarrow> valid_tid tid \<Longrightarrow>
    store_ok db ty (ks_put (task_key db tid) (Some (RStr (TJson (JObj d)))) dl ks)"
  unfolding store_ok_def by (auto intro!: well_typed_put simp: store_layout_def)

text \<open>Changing deadlines of keys that are not task records is invisible.\<close>

lemma store_frame:
  assumes "store_ok db ty ks" "ks_vals ks' = ks_vals ks" "ks_us ks' = ks_us ks"
    "\<And>t. valid_tid t \<Longrightarrow> ks_dl ks' (task_key db t) = ks_dl ks (task_key db t)"
  shows "abs_store db ks' = abs_store db ks" "store_ok db ty ks'"
proof -
  have "task_entry db ks' t = task_entry db ks t" for t
    using assms by (simp add: task_entry_def)
  then show "abs_store db ks' = abs_store db ks"
    using assms by (simp add: abs_store_def fun_eq_iff ks_zset_def ks_ms_def)
  show "store_ok db ty ks'" using assms by (simp add: store_ok_def well_typed_def)
qed

context redis_service
begin

lemma bump_ttl_view:
  assumes "0 < ex"
  shows "ks_vals (view (bump_ttl R k ex d)) = ks_vals (view d)" "ks_us (view (bump_ttl R k ex d)) = ks_us (view d)"
    "k' \<noteq> k \<Longrightarrow> ks_dl (view (bump_ttl R k ex d)) k' = ks_dl (view d) k'"
  using assms by (auto simp: bump_ttl_def Let_def ks_expire_def)

lemma index_add_status:
  assumes ok: "store_ok db ty (view d)" and ex: "0 < ex"
  shows "abs_store db (view (index_add R (status_index_key db st) ex tid d)) =
      (abs_store db (view d))\<lparr>as_idx := (as_idx (abs_store db (view d)))
         (st := dset tid (of_int (as_now (abs_store db (view d)) + ex * 1000)) (as_idx (abs_store db (view d)) st))\<rparr>"
    and "store_ok db ty (view (index_add R (status_index_key db st) ex tid d))"
proof -
  let ?k = "status_index_key db st"
  let ?z = "dset tid (of_int (ks_ms (view d) + ex * 1000)) (ks_zset ?k (view d))"
  have lay: "store_layout db ty" and za: "zset_or_absent ?k (view d)"
    using ok by (auto simp: store_ok_def store_layout_def intro: well_typedD(2))
  have z: "view (r_zadd R ?k (of_int (ks_ms (view d) + ex * 1000)) tid d) = ks_put_zset ?k ?z (view d)"
    by (simp add: zadd[OF za])
  note fr = store_frame[OF store_ok_put_zset[OF ok, of ?k ?z],
      of "view (index_add R ?k ex tid d)"]
  have "abs_store db (view (index_add R ?k ex tid d)) = abs_store db (ks_put_zset ?k ?z (view d))
      \<and> store_ok db ty (view (index_add R ?k ex tid d))"
    using fr z bump_ttl_view[OF ex] lay store_keys_differ[OF lay, of _ st]
    by (simp add: index_add_def Let_def store_layout_def)
  then show "abs_store db (view (index_add R ?k ex tid d)) =
      (abs_store db (view d))\<lparr>as_idx := (as_idx (abs_store db (view d)))
         (st := dset tid (of_int (as_now (abs_store db (view d)) + ex * 1000)) (as_idx (abs_store db (view d)) st))\<rparr>"
    "store_ok db ty (view (index_add R ?k ex tid d))"
    by (simp_all add: abs_put_zset_status[OF lay]) (simp add: abs_store_def)
qed

lemma index_add_children:
  assumes ok: "store_ok db ty (view d)" and ex: "0 < ex"
  shows "abs_store db (view (index_add R (children_key db p) ex tid d)) = abs_store db (view d)"
    and "store_ok db ty (view (index_add R (children_key db p) ex tid d))"
proof -
  let ?k = "children_key db p"
  let ?z = "dset tid (of_int (ks_ms (view d) + ex * 1000)) (ks_zset ?k (view d))"
  have lay: "store_layout db ty" and za: "zset_or_absent ?k (view d)"
    using ok by (auto simp: store_ok_def store_layout_def intro: well_typedD(2))
  have z: "view (r_zadd R ?k (of_int (ks_ms (view d) + ex * 1000)) tid d) = ks_put_zset ?k ?z (view d)"
    by (simp add: zadd[OF za])
  have "abs_store db (view (index_add R ?k ex tid d)) = abs_store db (ks_put_zset ?k ?z (view d))
      \<and> store_ok db ty (view (index_add R ?k ex tid d))"
    using store_frame[OF store_ok_put_zset[OF ok, of ?k ?z], of "view (index_add R ?k ex tid d)"]
      z bump_ttl_view[OF ex] lay store_keys_differ[OF lay]
    by (simp add: index_add_def Let_def store_layout_def)
  then show "abs_store db (view (index_add R ?k ex tid d)) = abs_store db (view d)"
    "store_ok db ty (view (index_add R ?k ex tid d))"
    by (simp_all add: abs_put_zset_children[OF lay])
qed

lemma index_leave:
  assumes ok: "store_ok db ty (view d)"
  shows "abs_store db (view (r_zrem R (status_index_key db st) tid d)) =
      (abs_store db (view d))\<lparr>as_idx := (as_idx (abs_store db (view d)))
         (st := ddel tid (as_idx (abs_store db (view d)) st))\<rparr>"
    and "store_ok db ty (view (r_zrem R (status_index_key db st) tid d))"
proof -
  have lay: "store_layout db ty" and za: "zset_or_absent (status_index_key db st) (view d)"
    using ok by (auto simp: store_ok_def store_layout_def intro: well_typedD(2))
  show "store_ok db ty (view (r_zrem R (status_index_key db st) tid d))"
    using store_ok_put_zset[OF ok] lay by (simp add: zrem[OF za] store_layout_def)
  show "abs_store db (view (r_zrem R (status_index_key db st) tid d)) =
      (abs_store db (view d))\<lparr>as_idx := (as_idx (abs_store db (view d)))
         (st := ddel tid (as_idx (abs_store db (view d)) st))\<rparr>"
    by (simp add: zrem[OF za] abs_put_zset_status[OF lay]) (simp add: abs_store_def)
qed

lemma index_migrate_abs:
  assumes ok: "store_ok db ty (view d)" and ex: "0 < ex"
  shows "abs_store db (view (index_migrate R db tid old new lv ex d)) =
      (let A = abs_store db (view d)
       in A\<lparr>as_idx := idx_move tid (if lv then Some old else None) new (of_int (as_now A + ex * 1000)) (as_idx A)\<rparr>)"
    and "store_ok db ty (view (index_migrate R db tid old new lv ex d))"
proof -
  define d1 where "d1 = (if lv \<and> old \<noteq> '''' then r_zrem R (status_index_key db old) tid d else d)"
  let ?A = "abs_store db (view d)"
  have A1: "abs_store db (view d1) = ?A\<lparr>as_idx := idx_move tid (if lv then Some old else None) '''' 0 (as_idx ?A)\<rparr>"
    using index_leave(1)[OF ok] by (auto simp: d1_def idx_move_def fun_eq_iff)
  have ok1: "store_ok db ty (view d1)" using ok index_leave(2)[OF ok] by (simp add: d1_def)
  have m: "index_migrate R db tid old new lv ex d =
      (if new \<noteq> '''' then index_add R (status_index_key db new) ex tid d1 else d1)"
    by (simp add: index_migrate_def d1_def Let_def)
  show "store_ok db ty (view (index_migrate R db tid old new lv ex d))"
    using ok1 index_add_status(2)[OF ok1 ex] by (simp add: m)
  show "abs_store db (view (index_migrate R db tid old new lv ex d)) =
      (let A = ?A in A\<lparr>as_idx := idx_move tid (if lv then Some old else None) new
          (of_int (as_now A + ex * 1000)) (as_idx A)\<rparr>)"
    using index_add_status(1)[OF ok1 ex] by (auto simp: m A1 idx_move_def fun_eq_iff Let_def)
qed

lemma task_get:
  assumes ok: "store_ok db ty (view d)" and tid: "valid_tid tid"
  shows "r_get R (task_key db tid) d = map_option (\<lambda>(r, _). TJson (JObj r)) (as_rec (abs_store db (view d)) tid)"
proof -
  have "str_or_absent (task_key db tid) (view d)"
    using ok tid by (auto simp: store_ok_def store_layout_def intro: well_typedD(1))
  note g = get[OF this]
  show ?thesis
  proof (cases "ks_vals (view d) (task_key db tid)")
    case (Some v)
    then obtain r where "v = RStr (TJson (JObj r))" using ok tid unfolding store_ok_def by blast
    then show ?thesis using Some g tid by (simp add: abs_store_def task_entry_def ks_get_def)
  qed (use g in \<open>simp add: abs_store_def task_entry_def ks_get_def\<close>)
qed

lemma write_record_abs:
  assumes ok: "store_ok db ty (view d)" and ex: "0 < ex" and tid: "valid_tid tid"
  shows "abs_store db (view (index_migrate R db tid old new lv ex (r_setex R (task_key db tid) (TJson (JObj r)) ex d)))
      = as_write tid r (if lv then Some old else None) new ex (abs_store db (view d))"
    and "store_ok db ty (view (index_migrate R db tid old new lv ex (r_setex R (task_key db tid) (TJson (JObj r)) ex d)))"
proof -
  let ?d1 = "r_setex R (task_key db tid) (TJson (JObj r)) ex d"
  have lay: "store_layout db ty" using ok by (simp add: store_ok_def)
  have v: "view ?d1 = ks_put (task_key db tid) (Some (RStr (TJson (JObj r)))) (Some (ks_ms (view d) + 1000 * ex)) (view d)"
    by (simp add: setex[OF ex])
  have ok1: "store_ok db ty (view ?d1)" unfolding v by (rule store_ok_put_record[OF ok tid])
  show "store_ok db ty (view (index_migrate R db tid old new lv ex ?d1))"
    by (rule index_migrate_abs(2)[OF ok1 ex])
  show "abs_store db (view (index_migrate R db tid old new lv ex ?d1))
      = as_write tid r (if lv then Some old else None) new ex (abs_store db (view d))"
    unfolding index_migrate_abs(1)[OF ok1 ex]
    by (simp add: v abs_put_record[OF lay tid] as_write_def Let_def)
qed

text \<open>\<^verbatim>\<open>task_update.lua\<close> refines the abstract update with the expiry it resolves.\<close>

lemma task_update_refines:
  assumes ok: "store_ok db ty (view d)" and tid: "valid_tid tid"
    and ex: "0 < resolve_expiry R db (task_key db tid) expiry d"
  shows "map_prod id (\<lambda>d'. abs_store db (view d')) (task_update_lua R cj db tid updates expiry d)
      = as_update cj (td_terminal_statuses db) tid updates (resolve_expiry R db (task_key db tid) expiry d)
          (abs_store db (view d))"
    and "store_ok db ty (view (snd (task_update_lua R cj db tid updates expiry d)))"
  using ex write_record_abs[OF ok ex tid] ok
  by (cases "as_rec (abs_store db (view d)) tid";
      auto simp: task_update_lua_def as_update_def task_get[OF ok tid] rec_status_def Let_def)+

lemma task_reopen_refines:
  assumes ok: "store_ok db ty (view d)" and tid: "valid_tid tid"
    and ex: "0 < resolve_expiry R db (task_key db tid) expiry d"
  shows "map_prod id (\<lambda>d'. abs_store db (view d')) (task_reopen_lua R cj db tid eid initial_status expiry d)
      = as_reopen cj (td_terminal_statuses db) tid eid initial_status
          (resolve_expiry R db (task_key db tid) expiry d) (abs_store db (view d))"
    and "store_ok db ty (view (snd (task_reopen_lua R cj db tid eid initial_status expiry d)))"
proof -
  have now: "as_now (abs_store db (view d)) = ks_ms (view d)" by (simp add: abs_store_def)
  show "map_prod id (\<lambda>d'. abs_store db (view d')) (task_reopen_lua R cj db tid eid initial_status expiry d)
      = as_reopen cj (td_terminal_statuses db) tid eid initial_status
          (resolve_expiry R db (task_key db tid) expiry d) (abs_store db (view d))"
    "store_ok db ty (view (snd (task_reopen_lua R cj db tid eid initial_status expiry d)))"
    using ex write_record_abs[OF ok ex tid, where lv = True] ok
    by (cases "as_rec (abs_store db (view d)) tid";
        auto simp: task_reopen_lua_def as_reopen_def task_get[OF ok tid] rec_status_def Let_def now)+
qed

lemma task_init_refines:
  assumes ok: "store_ok db ty (view d)" and tid: "valid_tid tid" and ex: "0 < ex"
  shows "map_prod the (\<lambda>d'. abs_store db (view d')) (task_init_lua R cj db tid data ex ine st parent eid d)
      = as_init cj tid data ine st eid ex (abs_store db (view d))"
    and "store_ok db ty (view (snd (task_init_lua R cj db tid data ex ine st parent eid d)))"
proof -
  let ?r = "dset ''execution_id'' (JStr eid) (cj_obj cj data)"
  define d2 where "d2 = index_migrate R db tid st st False ex (r_setex R (task_key db tid) (TJson (JObj ?r)) ex d)"
  define d3 where "d3 = (case parent of Some p \<Rightarrow> if p \<noteq> '''' then index_add R (children_key db p) ex tid d2 else d2
     | None \<Rightarrow> d2)"
  have ex_iff: "r_exists R (task_key db tid) d \<longleftrightarrow> as_rec (abs_store db (view d)) tid \<noteq> None"
    using ok tid unfolding store_ok_def by (fastforce simp: ks_exists_def abs_store_def task_entry_def)
  have w: "abs_store db (view d2) = as_write tid ?r None st ex (abs_store db (view d))" "store_ok db ty (view d2)"
    using write_record_abs[OF ok ex tid, where lv = False] by (simp_all add: d2_def)
  have d3: "abs_store db (view d3) = abs_store db (view d2)" "store_ok db ty (view d3)"
    using index_add_children[OF w(2) ex] w(2) by (auto simp: d3_def split: option.splits)
  have run: "task_init_lua R cj db tid data ex ine st parent eid d =
      (if ine \<and> r_exists R (task_key db tid) d then (Some False, d) else (Some True, d3))"
    using ex unfolding task_init_lua_def d3_def d2_def index_migrate_def Let_def by simp
  show "map_prod the (\<lambda>d'. abs_store db (view d')) (task_init_lua R cj db tid data ex ine st parent eid d)
      = as_init cj tid data ine st eid ex (abs_store db (view d))"
    unfolding run ex_iff as_init_def using w d3 by simp
  show "store_ok db ty (view (snd (task_init_lua R cj db tid data ex ine st parent eid d)))"
    unfolding run using ok d3 by simp
qed

end

section \<open>Runs\<close>

text \<open>What is relied on of \<^verbatim>\<open>cjson\<close>: strings, booleans and null survive, types are kept, and an empty
  array is encoded like an empty table.\<close>

definition cjson_ok :: "(json \<Rightarrow> json) \<Rightarrow> bool" where
  "cjson_ok cj \<longleftrightarrow> (\<forall>s. cj (JStr s) = JStr s) \<and> (\<forall>b. cj (JBool b) = JBool b) \<and> cj JNull = JNull
     \<and> (\<forall>v s. cj v = JStr s \<longrightarrow> v = JStr s) \<and> cj (JArr []) = JObj []
     \<and> (\<forall>xs. xs \<noteq> [] \<longrightarrow> cj (JArr xs) = JArr (map cj xs))"

text \<open>An executable round trip with these properties.\<close>

fun demo_cj :: "json \<Rightarrow> json" where
  "demo_cj (JArr xs) = (if xs = [] then JObj [] else JArr (map demo_cj xs))"
| "demo_cj v = v"

lemma cjson_ok_demo: "cjson_ok demo_cj"
  unfolding cjson_ok_def
proof (intro conjI allI impI)
  fix v s assume "demo_cj v = JStr s"
  then show "v = JStr s" by (cases v) (auto split: if_splits)
qed simp_all

datatype store_op =
    SInit string jdict bool string "string option" string
  | SUpdate string jdict
  | SReopen string string string
  | SReap string
  | SElapse
  | SOther

text \<open>The atomic actions of any client, and the passing of time.  \<^term>\<open>SReap\<close> is the lazy cleaning of an
  index on the read path; \<^term>\<open>SOther\<close> is anything that leaves records and status indexes alone.\<close>

inductive store_step ::
  "'r redis \<Rightarrow> ('r \<Rightarrow> keyspace) \<Rightarrow> (json \<Rightarrow> json) \<Rightarrow> task_db \<Rightarrow> (string \<Rightarrow> kind) \<Rightarrow> store_op \<Rightarrow> 'r \<Rightarrow> 'r \<Rightarrow> bool"
  for R view cj db ty where
  init: "valid_tid tid \<Longrightarrow> 0 < ex \<Longrightarrow> rec_status data = st \<Longrightarrow>
    store_step R view cj db ty (SInit tid data ine st parent eid) d
      (snd (task_init_lua R cj db tid data ex ine st parent eid d))"
| update: "valid_tid tid \<Longrightarrow> distinct (dkeys updates) \<Longrightarrow> 0 < resolve_expiry R db (task_key db tid) expiry d \<Longrightarrow>
    store_step R view cj db ty (SUpdate tid updates) d (snd (task_update_lua R cj db tid updates expiry d))"
| reopen: "valid_tid tid \<Longrightarrow> 0 < resolve_expiry R db (task_key db tid) expiry d \<Longrightarrow>
    store_step R view cj db ty (SReopen tid eid st) d (snd (task_reopen_lua R cj db tid eid st expiry d))"
| reap: "now \<le> ks_ms (view d) \<Longrightarrow>
    store_step R view cj db ty (SReap st) d (r_zremrangebyscore R (status_index_key db st) (of_int now) d)"
| elapse: "view d' = ks_elapse us (view d) \<Longrightarrow> store_step R view cj db ty SElapse d d'"
| other: "abs_store db (view d') = abs_store db (view d) \<Longrightarrow> store_ok db ty (view d') \<Longrightarrow>
    store_step R view cj db ty SOther d d'"

inductive store_run ::
  "'r redis \<Rightarrow> ('r \<Rightarrow> keyspace) \<Rightarrow> (json \<Rightarrow> json) \<Rightarrow> task_db \<Rightarrow> (string \<Rightarrow> kind) \<Rightarrow> 'r \<Rightarrow> store_op list \<Rightarrow> 'r \<Rightarrow> bool"
  for R view cj db ty where
  nil: "store_run R view cj db ty d [] d"
| cons: "store_step R view cj db ty op d d' \<Longrightarrow> store_run R view cj db ty d' ops d'' \<Longrightarrow>
    store_run R view cj db ty d (op # ops) d''"

text \<open>The effect of an action on the abstract store.\<close>

inductive astep :: "(json \<Rightarrow> json) \<Rightarrow> string list \<Rightarrow> store_op \<Rightarrow> astore \<Rightarrow> astore \<Rightarrow> bool"
  for cj terminal where
  a_init: "rec_status data = st \<Longrightarrow>
    astep cj terminal (SInit tid data ine st parent eid) A (snd (as_init cj tid data ine st eid ex A))"
| a_update: "distinct (dkeys updates) \<Longrightarrow>
    astep cj terminal (SUpdate tid updates) A (snd (as_update cj terminal tid updates ex A))"
| a_reopen: "astep cj terminal (SReopen tid eid st) A (snd (as_reopen cj terminal tid eid st ex A))"
| a_reap: "now \<le> as_now A \<Longrightarrow> astep cj terminal (SReap st) A
    (A\<lparr>as_idx := (as_idx A)(st := filter (\<lambda>(m, sc). of_int now < sc) (as_idx A st))\<rparr>)"
| a_elapse: "as_now A \<le> as_now A' \<Longrightarrow>
    (\<And>t. as_rec A' t = (case as_rec A t of Some (r, Some dl) \<Rightarrow> if dl \<le> as_now A' then None else Some (r, Some dl)
       | x \<Rightarrow> x)) \<Longrightarrow>
    (\<And>st. as_idx A' st = as_idx A st \<or> as_idx A' st = []) \<Longrightarrow> astep cj terminal SElapse A A'"
| a_other: "astep cj terminal SOther A A"

lemma abs_elapse:
  assumes ok: "store_ok db ty ks"
  shows "astep cj terminal SElapse (abs_store db ks) (abs_store db (ks_elapse us ks))"
    and "store_ok db ty (ks_elapse us ks)"
proof -
  let ?now = "int ((ks_us ks + us) div 1000)"
  show "store_ok db ty (ks_elapse us ks)"
    using ok by (auto simp: store_ok_def well_typed_def ks_elapse_def Let_def split: if_splits)
  show "astep cj terminal SElapse (abs_store db ks) (abs_store db (ks_elapse us ks))"
  proof (rule a_elapse)
    show "as_now (abs_store db ks) \<le> as_now (abs_store db (ks_elapse us ks))"
      by (simp add: abs_store_def ks_ms_def ks_elapse_def Let_def div_le_mono)
    show "as_rec (abs_store db (ks_elapse us ks)) t = (case as_rec (abs_store db ks) t of
        Some (r, Some dl) \<Rightarrow> if dl \<le> as_now (abs_store db (ks_elapse us ks)) then None else Some (r, Some dl)
      | x \<Rightarrow> x)" for t
      by (cases "obj_of (ks_vals ks (task_key db t))"; cases "ks_dl ks (task_key db t)")
        (auto simp: abs_store_def task_entry_def ks_elapse_def Let_def ks_ms_def)
    show "as_idx (abs_store db (ks_elapse us ks)) st = as_idx (abs_store db ks) st
        \<or> as_idx (abs_store db (ks_elapse us ks)) st = []" for st
      by (simp add: abs_store_def ks_zset_def ks_elapse_def Let_def)
  qed
qed

context redis_service
begin

lemma store_step_abs:
  assumes "store_step R view cj db ty op d d'" "store_ok db ty (view d)"
  shows "astep cj (td_terminal_statuses db) op (abs_store db (view d)) (abs_store db (view d')) \<and> store_ok db ty (view d')"
  using assms
proof (induction rule: store_step.induct)
  case (init tid ex data st ine parent eid d)
  note r = task_init_refines[OF init(4,1,2), of cj data ine st parent eid]
  have "abs_store db (view (snd (task_init_lua R cj db tid data ex ine st parent eid d)))
      = snd (as_init cj tid data ine st eid ex (abs_store db (view d)))"
    using arg_cong[OF r(1), of snd] by simp
  then show ?case using r(2) a_init[OF init(3)] by simp
next
  case (update tid updates expiry d)
  note r = task_update_refines[OF update(4,1,3), of cj updates]
  have "abs_store db (view (snd (task_update_lua R cj db tid updates expiry d)))
      = snd (as_update cj (td_terminal_statuses db) tid updates (resolve_expiry R db (task_key db tid) expiry d)
          (abs_store db (view d)))"
    using arg_cong[OF r(1), of snd] by simp
  then show ?case using r(2) a_update[OF update(2)] by simp
next
  case (reopen tid expiry d eid st)
  note r = task_reopen_refines[OF reopen(3,1,2), of cj eid st]
  have "abs_store db (view (snd (task_reopen_lua R cj db tid eid st expiry d)))
      = snd (as_reopen cj (td_terminal_statuses db) tid eid st (resolve_expiry R db (task_key db tid) expiry d)
          (abs_store db (view d)))"
    using arg_cong[OF r(1), of snd] by simp
  then show ?case using r(2) a_reopen by simp
next
  case (reap now d st)
  then have lay: "store_layout db ty" and za: "zset_or_absent (status_index_key db st) (view d)"
    by (auto simp: store_ok_def store_layout_def intro: well_typedD(2))
  have "abs_store db (view (r_zremrangebyscore R (status_index_key db st) (of_int now) d)) =
      (abs_store db (view d))\<lparr>as_idx := (as_idx (abs_store db (view d)))
        (st := filter (\<lambda>(m, sc). of_int now < sc) (as_idx (abs_store db (view d)) st))\<rparr>"
    by (simp add: zremrangebyscore[OF za] abs_put_zset_status[OF lay]) (simp add: abs_store_def)
  then show ?case
    using reap a_reap[of now "abs_store db (view d)"] store_ok_put_zset[OF reap(2)] lay
    by (simp add: zremrangebyscore[OF za] store_layout_def) (simp add: abs_store_def)
next
  case (elapse d' us d)
  then show ?case using abs_elapse by simp
next
  case (other d' d)
  then show ?case using a_other by simp
qed

lemma store_run_abs:
  "store_run R view cj db ty d ops d' \<Longrightarrow> store_ok db ty (view d) \<Longrightarrow>
   (\<And>op A A'. op \<in> set ops \<Longrightarrow> I A \<Longrightarrow> astep cj (td_terminal_statuses db) op A A' \<Longrightarrow> I A') \<Longrightarrow>
   I (abs_store db (view d)) \<Longrightarrow> I (abs_store db (view d')) \<and> store_ok db ty (view d')"
proof (induction rule: store_run.induct)
  case (cons op d d' ops d'')
  have s: "astep cj (td_terminal_statuses db) op (abs_store db (view d)) (abs_store db (view d'))"
    "store_ok db ty (view d')"
    using store_step_abs[OF cons.hyps(1) cons.prems(1)] by auto
  have I': "I (abs_store db (view d'))" using cons.prems(2)[OF _ cons.prems(3) s(1)] by simp
  show ?case
  proof (rule cons.IH[OF s(2) _ I'])
    fix op' A A'
    assume "op' \<in> set ops" "I A" "astep cj (td_terminal_statuses db) op' A A'"
    then show "I A'" using cons.prems(2)[of op'] by simp
  qed
qed simp

end

section \<open>Merging\<close>

lemma map_of_cj_obj: "map_of (cj_obj cj d) k = map_option cj (map_of d k)"
  by (induction d) (auto simp: cj_obj_def)

lemma dkeys_cj_obj [simp]: "dkeys (cj_obj cj d) = dkeys d"
  by (induction d) (auto simp: cj_obj_def)

lemma map_of_lua_merge:
  "distinct (dkeys updates) \<Longrightarrow>
    map_of (lua_merge cur updates) k = (case map_of updates k of Some v \<Rightarrow> Some v | None \<Rightarrow> map_of cur k)"
  unfolding lua_merge_def
proof (induction updates arbitrary: cur)
  case (Cons p updates)
  obtain a v where p: "p = (a, v)" by fastforce
  have "map_of updates a = None" using Cons.prems p by (simp add: map_of_eq_None_iff)
  then show ?case using Cons p by (auto simp: map_of_dset split: option.splits)
qed simp

lemma status_word_cj: "cjson_ok cj \<Longrightarrow> status_word (map_option cj v) = status_word v"
proof (cases v)
  case (Some x)
  assume ok: "cjson_ok cj"
  show ?thesis
  proof (cases "\<exists>s. x = JStr s")
    case False
    then have "\<forall>s. cj x \<noteq> JStr s" using ok unfolding cjson_ok_def by blast
    then show ?thesis using Some False by (auto simp: status_word_def split: json.splits)
  qed (use ok Some in \<open>auto simp: status_word_def cjson_ok_def\<close>)
qed (simp add: status_word_def)

lemma rec_status_merge:
  "cjson_ok cj \<Longrightarrow> distinct (dkeys updates) \<Longrightarrow>
    rec_status (lua_merge (cj_obj cj cur) (cj_obj cj updates)) = new_status_of updates (rec_status cur)"
  using status_word_cj[of cj "map_of updates ''status''"] status_word_cj[of cj "map_of cur ''status''"]
  by (cases "map_of updates ''status''")
    (simp_all add: rec_status_def map_of_lua_merge map_of_cj_obj new_status_of_def)

lemma reopened_fields:
  "map_of (reopened_record cj cur eid st now) ''status'' = Some (JStr st)"
  "map_of (reopened_record cj cur eid st now) ''execution_id'' = Some (JStr eid)"
  "map_of (reopened_record cj cur eid st now) ''cancel_requested'' = Some (JBool False)"
  "map_of (reopened_record cj cur eid st now) ''result'' = None"
  "map_of (reopened_record cj cur eid st now) ''error'' = None"
  "map_of (reopened_record cj cur eid st now) ''progress'' = None"
  "map_of (reopened_record cj cur eid st now) ''cancel_outcome'' = None"
  "map_of (reopened_record cj cur eid st now) ''previous_status'' = Some (JStr (rec_status cur))"
  "map_of (reopened_record cj cur eid st now) ''previous_execution_ids'' = Some (lua_array (previous_ids cj cur))"
  unfolding reopened_record_def Let_def map_of_dset map_of_ddel rec_status_def by simp_all

section \<open>Index soundness\<close>

text \<open>An index entry whose lease has not run out names a live record that has this status and ends
  at the same instant.\<close>

definition idx_inv :: "astore \<Rightarrow> bool" where
  "idx_inv A \<longleftrightarrow> (\<forall>st. distinct (dkeys (as_idx A st)))
     \<and> (\<forall>st tid sc. (tid, sc) \<in> set (as_idx A st) \<and> of_int (as_now A) < sc \<longrightarrow>
          st \<noteq> '''' \<and> (\<exists>cur dl. as_rec A tid = Some (cur, Some dl) \<and> sc = of_int dl \<and> rec_status cur = st))"

lemma idx_invD:
  "idx_inv A \<Longrightarrow> (tid, sc) \<in> set (as_idx A st) \<Longrightarrow> of_int (as_now A) < sc \<Longrightarrow>
    st \<noteq> '''' \<and> (\<exists>cur dl. as_rec A tid = Some (cur, Some dl) \<and> sc = of_int dl \<and> rec_status cur = st)"
  unfolding idx_inv_def by blast

lemma in_dset:
  assumes "(t, x) \<in> set (dset k v d)" "distinct (dkeys d)"
  shows "(t = k \<and> x = v) \<or> (t \<noteq> k \<and> (t, x) \<in> set d)"
proof -
  have "map_of (dset k v d) t = Some x"
    using assms distinct_dset[OF assms(2), of k v] by simp
  then show ?thesis by (auto simp: map_of_dset split: if_splits dest: map_of_SomeD)
qed

lemma in_ddel: "(t, x) \<in> set (ddel k d) \<longleftrightarrow> t \<noteq> k \<and> (t, x) \<in> set d"
  by (auto simp: AList.delete_eq)

lemma as_write_idx_inv:
  assumes inv: "idx_inv A" and st: "rec_status r = enter"
    and leave: "\<And>cur dl. as_rec A tid = Some (cur, dl) \<Longrightarrow> leave = Some (rec_status cur) \<or> rec_status cur = enter"
  shows "idx_inv (as_write tid r leave enter ex A)"
proof -
  let ?A = "as_write tid r leave enter ex A" and ?at = "of_int (as_now A + ex * 1000) :: real"
  have dist: "distinct (dkeys (as_idx A s))" for s using inv by (simp add: idx_inv_def)
  have entries: "(t = tid \<and> sc = ?at \<and> s = enter \<and> s \<noteq> []) \<or> (t \<noteq> tid \<and> (t, sc) \<in> set (as_idx A s))
      \<or> (t = tid \<and> (t, sc) \<in> set (as_idx A s) \<and> (s = enter \<longrightarrow> s = []) \<and> (leave = Some s \<longrightarrow> s = []))"
    if "(t, sc) \<in> set (as_idx ?A s)" for t sc s
  proof -
    define z where "z = (if leave = Some s \<and> s \<noteq> [] then ddel tid (as_idx A s) else as_idx A s)"
    have dz: "distinct (dkeys z)" by (simp add: z_def dist distinct_ddel)
    have idx: "as_idx ?A s = (if s = enter \<and> s \<noteq> [] then dset tid ?at z else z)"
      by (simp add: as_write_def idx_move_def Let_def z_def)
    have "(t, sc) \<in> set (if s = enter \<and> s \<noteq> [] then dset tid ?at z else z)"
      using that unfolding idx .
    then have "(t = tid \<and> sc = ?at \<and> s = enter \<and> s \<noteq> []) \<or> ((s = enter \<and> s \<noteq> [] \<longrightarrow> t \<noteq> tid) \<and> (t, sc) \<in> set z)"
      using in_dset[OF _ dz] by (auto split: if_splits)
    then show ?thesis by (auto simp: z_def in_ddel split: if_splits)
  qed
  have "s \<noteq> [] \<and> (\<exists>cur dl. as_rec ?A t = Some (cur, Some dl) \<and> sc = of_int dl \<and> rec_status cur = s)"
    if h: "(t, sc) \<in> set (as_idx ?A s)" "of_int (as_now ?A) < sc" for t sc s
  proof -
    have live: "of_int (as_now A) < sc" using h(2) by (simp add: as_write_def)
    from entries[OF h(1)] consider "t = tid" "sc = ?at" "s = enter" "s \<noteq> []"
      | "t \<noteq> tid" "(t, sc) \<in> set (as_idx A s)"
      | "t = tid" "(t, sc) \<in> set (as_idx A s)" "s = enter \<longrightarrow> s = []" "leave = Some s \<longrightarrow> s = []" by blast
    then show ?thesis
    proof cases
      case 1
      then show ?thesis using st by (simp add: as_write_def)
    next
      case 2
      then show ?thesis using idx_invD[OF inv 2(2) live] by (simp add: as_write_def)
    next
      case 3
      obtain cur dl where "as_rec A tid = Some (cur, Some dl)" "rec_status cur = s" "s \<noteq> []"
        using idx_invD[OF inv 3(2) live] 3(1) by blast
      then show ?thesis using leave 3(3,4) by blast
    qed
  qed
  moreover have "distinct (dkeys (as_idx ?A s))" for s
    by (simp add: as_write_def idx_move_def Let_def distinct_dset distinct_ddel dist)
  ultimately show ?thesis unfolding idx_inv_def by blast
qed

text \<open>Initialisation with \<^verbatim>\<open>if_not_exists\<close>.\<close>

fun no_overwrite :: "store_op \<Rightarrow> bool" where
  "no_overwrite (SInit tid data ine st parent eid) = ine"
| "no_overwrite _ = True"

lemma rec_status_init:
  "cjson_ok cj \<Longrightarrow> rec_status (dset ''execution_id'' (JStr eid) (cj_obj cj data)) = rec_status data"
  by (simp add: rec_status_def map_of_dset map_of_cj_obj status_word_cj)

lemma rec_status_reopened [simp]: "rec_status (reopened_record cj cur eid st now) = st"
  by (simp add: rec_status_def reopened_fields status_word_def)

lemma astep_idx_inv:
  assumes cj: "cjson_ok cj" and "astep cj terminal op A A'" "no_overwrite op" "idx_inv A"
  shows "idx_inv A'"
  using assms(2-4)
proof (cases rule: astep.cases)
  case (a_init data st tid ine parent eid ex)
  then have "ine" using assms(3) by simp
  then show ?thesis
    using a_init(2,3) assms(4) as_write_idx_inv[OF assms(4), of _ st tid None] rec_status_init[OF cj, of eid data]
    by (auto simp: as_init_def)
next
  case (a_update updates tid ex)
  show ?thesis
  proof (cases "as_rec A tid")
    case (Some x)
    obtain cur dl where x: "x = (cur, dl)" by fastforce
    let ?new = "new_status_of updates (rec_status cur)"
    have "idx_inv (as_write tid (lua_merge (cj_obj cj cur) (cj_obj cj updates))
        (if rec_status cur \<noteq> ?new then Some (rec_status cur) else None) ?new ex A)"
      by (rule as_write_idx_inv[OF assms(4) rec_status_merge[OF cj a_update(3)]]) (use Some x in auto)
    then show ?thesis
      using Some x a_update(2) assms(4) unfolding as_update_def Let_def by auto
  qed (use a_update assms(4) in \<open>simp add: as_update_def\<close>)
next
  case (a_reopen tid eid st ex)
  show ?thesis
  proof (cases "as_rec A tid")
    case (Some x)
    obtain cur dl where x: "x = (cur, dl)" by fastforce
    have "idx_inv (as_write tid (reopened_record cj cur eid st (as_now A)) (Some (rec_status cur)) st ex A)"
      by (rule as_write_idx_inv[OF assms(4) rec_status_reopened]) (use Some x in auto)
    then show ?thesis using Some x a_reopen(2) assms(4) by (simp add: as_reopen_def)
  qed (use a_reopen assms(4) in \<open>simp add: as_reopen_def\<close>)
next
  case (a_reap now st)
  then show ?thesis using assms(4) unfolding idx_inv_def by (auto simp: distinct_map_filter)
next
  case a_elapse
  have "s \<noteq> [] \<and> (\<exists>cur dl. as_rec A' t = Some (cur, Some dl) \<and> sc = of_int dl \<and> rec_status cur = s)"
    if h: "(t, sc) \<in> set (as_idx A' s)" "of_int (as_now A') < sc" for t sc s
  proof -
    have "(t, sc) \<in> set (as_idx A s)" "of_int (as_now A) < sc"
      using h a_elapse(2) a_elapse(4)[of s] by auto
    from idx_invD[OF assms(4) this] obtain cur dl where
      "s \<noteq> []" "as_rec A t = Some (cur, Some dl)" "sc = of_int dl" "rec_status cur = s" by blast
    then show ?thesis using a_elapse(3)[of t] h(2) by auto
  qed
  moreover have "distinct (dkeys (as_idx A' s))" for s
    using a_elapse(4)[of s] assms(4) unfolding idx_inv_def by (cases "as_idx A' s = []") auto
  ultimately show ?thesis unfolding idx_inv_def by blast
qed (use assms(4) in simp)

section \<open>Generations\<close>

definition rec_eid :: "jdict \<Rightarrow> json option" where
  "rec_eid d = map_of d ''execution_id''"

text \<open>In one generation of a task (one execution id) a terminal status is final.\<close>

definition gen_final :: "string \<Rightarrow> string \<Rightarrow> string \<Rightarrow> astore \<Rightarrow> bool" where
  "gen_final tid e st A \<longleftrightarrow>
     (\<forall>cur dl. as_rec A tid = Some (cur, dl) \<and> rec_eid cur = Some (JStr e) \<longrightarrow> rec_status cur = st)"

text \<open>Actions that do not reuse the execution id and do not write it by hand.\<close>

fun keeps_generation :: "string \<Rightarrow> string \<Rightarrow> store_op \<Rightarrow> bool" where
  "keeps_generation tid e (SInit t data ine st parent eid) = (t = tid \<longrightarrow> eid \<noteq> e)"
| "keeps_generation tid e (SUpdate t updates) = (t = tid \<longrightarrow> map_of updates ''execution_id'' = None)"
| "keeps_generation tid e (SReopen t eid st) = (t = tid \<longrightarrow> eid \<noteq> e)"
| "keeps_generation tid e _ = True"

lemma rec_eid_merge:
  assumes "cjson_ok cj" "distinct (dkeys updates)" "map_of updates ''execution_id'' = None"
    "rec_eid (lua_merge (cj_obj cj cur) (cj_obj cj updates)) = Some (JStr e)"
  shows "rec_eid cur = Some (JStr e)"
  using assms by (auto simp: rec_eid_def map_of_lua_merge map_of_cj_obj cjson_ok_def)

lemma astep_gen_final:
  assumes cj: "cjson_ok cj" and "astep cj terminal op A A'" "keeps_generation tid e op" "st \<in> set terminal"
    "gen_final tid e st A"
  shows "gen_final tid e st A'"
  using assms(2-5)
proof (cases rule: astep.cases)
  case (a_init data st' t ine parent eid ex)
  then show ?thesis
    using assms(3,5) by (auto simp: gen_final_def as_init_def as_write_def rec_eid_def map_of_dset)
next
  case (a_update updates t ex)
  show ?thesis
  proof (cases "t = tid")
    case True
    show ?thesis
    proof (cases "as_rec A tid")
      case (Some x)
      obtain cur dl where x: "x = (cur, dl)" by fastforce
      let ?m = "lua_merge (cj_obj cj cur) (cj_obj cj updates)"
      let ?new = "new_status_of updates (rec_status cur)"
      have eid: "rec_status cur = st" if "rec_eid ?m = Some (JStr e)"
      proof -
        have "map_of updates ''execution_id'' = None" using assms(3) a_update(1) True by simp
        from rec_eid_merge[OF cj a_update(3) this that] show ?thesis
          using assms(5) Some x by (simp add: gen_final_def)
      qed
      show ?thesis
      proof (cases "rec_status cur \<noteq> ?new \<and> rec_status cur \<in> set terminal")
        case err: True
        then have "A' = A" using a_update(2) True Some x unfolding as_update_def Let_def by simp
        then show ?thesis using assms(5) by simp
      next
        case False
        then have "as_rec A' tid = Some (?m, Some (as_now A + 1000 * ex))"
          using a_update(2) True Some x unfolding as_update_def Let_def by (auto simp: as_write_def)
        moreover have "rec_status ?m = ?new" by (rule rec_status_merge[OF cj a_update(3)])
        ultimately show ?thesis using eid False assms(4) unfolding gen_final_def by auto
      qed
    qed (use a_update assms(5) True in \<open>auto simp: as_update_def gen_final_def\<close>)
  next
    case False
    then show ?thesis
      using a_update assms(5) by (auto simp: gen_final_def as_update_def as_write_def Let_def split: option.splits if_splits)
  qed
next
  case (a_reopen t eid st' ex)
  then show ?thesis
    using assms(3,5) by (auto simp: gen_final_def as_reopen_def as_write_def rec_eid_def reopened_fields
      split: option.splits if_splits)
next
  case (a_reap now st')
  then show ?thesis using assms(5) by (simp add: gen_final_def)
next
  case a_elapse
  then show ?thesis using assms(5) by (auto simp: gen_final_def split: option.splits if_splits)
qed (use assms(5) in simp)

section \<open>Properties\<close>

text \<open>C8. Terminal protection: once a generation of a task has a terminal status, no run of updates
  (with or without validation), initialisations, reopenings and index cleanings by any clients,
  with any expiry, gives that generation another status; only a reopening or a new
  initialisation, which start another generation, change it.\<close>

theorem terminal_status_final:
  assumes "redis_service R view" "cjson_ok cj" "store_ok db ty (view d)"
    "task_entry db (view d) tid = Some (cur, dl)" "rec_eid cur = Some (JStr e)"
    "rec_status cur \<in> set (td_terminal_statuses db)"
    "store_run R view cj db ty d ops d'" "\<forall>op \<in> set ops. keeps_generation tid e op"
    "task_entry db (view d') tid = Some (cur', dl')" "rec_eid cur' = Some (JStr e)"
  shows "rec_status cur' = rec_status cur"
proof -
  have "gen_final tid e (rec_status cur) (abs_store db (view d))"
    using assms(4) by (simp add: gen_final_def abs_store_def)
  with redis_service.store_run_abs[OF assms(1,7,3), of "gen_final tid e (rec_status cur)"]
    astep_gen_final[OF assms(2) _ _ assms(6)] assms(8)
  have "gen_final tid e (rec_status cur) (abs_store db (view d'))" by blast
  then show ?thesis using assms(9,10) by (simp add: gen_final_def abs_store_def)
qed

definition demo_db :: task_db where
  "demo_db = \<lparr>td_task_key_prefix = ''task'', td_status_index_prefix = ''task_status'',
     td_default_expire_time = 604800, td_terminal_statuses = core_terminal_statuses, td_transitions = None\<rparr>"

definition demo_ty :: "string \<Rightarrow> kind" where
  "demo_ty k = (if take 12 k = ''task_status:'' \<or> take 14 k = ''task_children:'' then KZset else KStr)"

lemma demo_db_terminal [simp]: "td_terminal_statuses demo_db = [''completed'', ''failed'', ''cancelled'']"
  by (simp add: demo_db_def core_terminal_statuses_def)

lemma demo_layout: "store_layout demo_db demo_ty"
  by (simp add: store_layout_def demo_db_def demo_ty_def task_key_def status_index_key_def children_key_def)

definition demo_done :: keyspace where
  "demo_done = ks_put (task_key demo_db ''t'')
     (Some (RStr (TJson (JObj [(''status'', JStr ''completed''), (''execution_id'', JStr ''e1'')])))) (Some 1000) (empty_ks 0)"

lemma demo_done_ok: "store_ok demo_db demo_ty demo_done"
  unfolding demo_done_def
  by (rule store_ok_put_record) (simp_all add: store_ok_def demo_layout valid_tid_def)

lemma demo_done_entry:
  "task_entry demo_db demo_done ''t'' = Some ([(''status'', JStr ''completed''), (''execution_id'', JStr ''e1'')], Some 1000)"
  by (simp add: task_entry_def demo_done_def valid_tid_def)

lemma demo_done_rejects:
  "task_update_lua ks_redis demo_cj demo_db ''t'' [(''status'', JStr ''pending'')] 10 demo_done
    = (LErr ''INVALID_TRANSFER'', demo_done)"
  by (simp add: task_update_lua_def demo_done_def ks_get_def status_word_def new_status_of_def Let_def)

theorem terminal_status_final_witness:
  "store_run ks_redis (\<lambda>ks. ks) demo_cj demo_db demo_ty demo_done [SUpdate ''t'' [(''status'', JStr ''pending'')]] demo_done
   \<and> rec_status [(''status'', JStr ''completed''), (''execution_id'', JStr ''e1'')] = ''completed''"
proof -
  let ?cur = "[(''status'', JStr ''completed''), (''execution_id'', JStr ''e1'')]"
  have "store_step ks_redis (\<lambda>ks. ks) demo_cj demo_db demo_ty (SUpdate ''t'' [(''status'', JStr ''pending'')]) demo_done
      (snd (task_update_lua ks_redis demo_cj demo_db ''t'' [(''status'', JStr ''pending'')] 10 demo_done))"
    by (rule store_step.update) (simp_all add: valid_tid_def resolve_expiry_def)
  then have run: "store_run ks_redis (\<lambda>ks. ks) demo_cj demo_db demo_ty demo_done
      [SUpdate ''t'' [(''status'', JStr ''pending'')]] demo_done"
    unfolding demo_done_rejects snd_conv by (rule store_run.cons[OF _ store_run.nil])
  have eid: "rec_eid ?cur = Some (JStr ''e1'')" and st: "rec_status ?cur = ''completed''"
    by (simp_all add: rec_eid_def rec_status_def status_word_def)
  have "rec_status ?cur = rec_status ?cur"
    by (rule terminal_status_final[OF ks.redis_service_axioms cjson_ok_demo demo_done_ok demo_done_entry eid _ run _
        demo_done_entry eid]) (simp_all add: st)
  then show ?thesis using run st by simp
qed

text \<open>C9. Index soundness: in every run from an empty store in which tasks are initialised with
  \<^verbatim>\<open>if_not_exists\<close>, an index entry that has not run out names a live task that has exactly the
  status of that index, and record and entry end at the same instant: a script runs at one instant of the server's clock and
  takes the lifetime of the record and the score of the entry from the same number of seconds.\<close>

theorem status_index_sound:
  assumes "redis_service R view" "cjson_ok cj" "store_layout db ty" "ks_vals (view d) = (\<lambda>_. None)"
    "store_run R view cj db ty d ops d'" "\<forall>op \<in> set ops. no_overwrite op"
    "(tid, sc) \<in> set (ks_zset (status_index_key db st) (view d'))" "of_int (ks_ms (view d')) < sc"
  shows "\<exists>cur dl. task_entry db (view d') tid = Some (cur, Some dl) \<and> rec_status cur = st \<and> sc = of_int dl"
proof -
  have ok: "store_ok db ty (view d)" using assms(3,4) by (simp add: store_ok_def well_typed_def)
  have "idx_inv (abs_store db (view d))"
    using assms(4) by (simp add: idx_inv_def abs_store_def ks_zset_def)
  with redis_service.store_run_abs[OF assms(1,5) ok, of idx_inv] astep_idx_inv[OF assms(2)] assms(6)
  have "idx_inv (abs_store db (view d'))" by blast
  from idx_invD[OF this, of tid sc st] assms(7,8) show ?thesis by (simp add: abs_store_def) blast
qed

theorem status_index_sound_witness:
  "\<exists>cur dl. task_entry demo_db (snd (task_init_lua ks_redis demo_cj demo_db ''t'' [(''status'', JStr ''pending'')] 100 True
       ''pending'' None ''e1'' (empty_ks 0))) ''t'' = Some (cur, Some dl) \<and> rec_status cur = ''pending'' \<and> dl = 100000"
proof -
  let ?d = "snd (task_init_lua ks_redis demo_cj demo_db ''t'' [(''status'', JStr ''pending'')] 100 True
       ''pending'' None ''e1'' (empty_ks 0))"
  have st: "rec_status [(''status'', JStr ''pending'')] = ''pending''" by (simp add: rec_status_def status_word_def)
  have run: "store_run ks_redis (\<lambda>ks. ks) demo_cj demo_db demo_ty (empty_ks 0)
      [SInit ''t'' [(''status'', JStr ''pending'')] True ''pending'' None ''e1''] ?d"
    by (rule store_run.cons[OF store_step.init store_run.nil]) (simp_all add: st valid_tid_def)
  have ok: "store_ok demo_db demo_ty (empty_ks 0)" by (simp add: store_ok_def demo_layout)
  have abs: "abs_store demo_db ?d = snd (as_init demo_cj ''t'' [(''status'', JStr ''pending'')] True ''pending'' ''e1'' 100
      (abs_store demo_db (empty_ks 0)))"
    using arg_cong[OF ks.task_init_refines(1)[OF ok], of "''t''" 100 snd] by (simp add: valid_tid_def)
  have A: "as_rec (abs_store demo_db (empty_ks 0)) ''t'' = None" "as_now (abs_store demo_db (empty_ks 0)) = 0"
    "as_idx (abs_store demo_db (empty_ks 0)) ''pending'' = []"
    by (simp_all add: abs_store_def task_entry_def ks_ms_def)
  have "as_idx (abs_store demo_db ?d) ''pending'' = [(''t'', 100000)]" "as_now (abs_store demo_db ?d) = 0"
    unfolding abs by (simp_all add: as_init_def as_write_def idx_move_def A)
  then have idx: "ks_zset (status_index_key demo_db ''pending'') ?d = [(''t'', 100000)]" and ms: "ks_ms ?d = 0"
    unfolding abs_store_def astore.select_convs by this
  have mem: "(''t'', 100000) \<in> set (ks_zset (status_index_key demo_db ''pending'') ?d)"
    unfolding idx by simp
  have empty: "ks_vals (empty_ks 0) = (\<lambda>_. None)" by (rule ext) simp
  have clean: "\<forall>op \<in> set [SInit ''t'' [(''status'', JStr ''pending'')] True ''pending'' None ''e1'']. no_overwrite op"
    by simp
  have live: "real_of_int (ks_ms ?d) < 100000" unfolding ms by simp
  note sound = status_index_sound[OF ks.redis_service_axioms cjson_ok_demo demo_layout]
  from sound[OF empty run clean mem live] obtain cur dl where e: "task_entry demo_db ?d ''t'' = Some (cur, Some dl)" "rec_status cur = ''pending''"
    "100000 = real_of_int dl" by (elim exE conjE)
  then have "dl = 100000" by linarith
  then show ?thesis using e(1,2) by (intro exI conjI)
qed

text \<open>C10. Reopening has exactly one winner: after a successful reopening into a non-terminal status
  a second reopening of the same task, by any client and with nothing but time passing in
  between, is rejected.\<close>

theorem reopen_one_winner:
  assumes "redis_service R view" "store_ok db ty (view d)" "valid_tid tid"
    "0 < resolve_expiry R db (task_key db tid) expiry d" "0 < resolve_expiry R db (task_key db tid) expiry2 d2"
    "task_reopen_lua R cj db tid eid st expiry d = (LOk, d1)" "st \<notin> set (td_terminal_statuses db)"
    "view d2 = ks_elapse us (view d1)"
  shows "fst (task_reopen_lua R cj db tid eid2 st2 expiry2 d2) \<in> {LErr ''NOT_TERMINAL'', LErr ''NOT_FOUND''}"
proof -
  let ?A = "abs_store db (view d)"
  note r = redis_service.task_reopen_refines[OF assms(1-4), of cj eid st]
  have "fst (as_reopen cj (td_terminal_statuses db) tid eid st (resolve_expiry R db (task_key db tid) expiry d) ?A) = LOk"
    using arg_cong[OF r(1), of fst] assms(6) by simp
  then obtain cur dl where cur: "as_rec ?A tid = Some (cur, dl)" "rec_status cur \<in> set (td_terminal_statuses db)"
    by (auto simp: as_reopen_def split: option.splits if_splits)
  have A1: "\<exists>rec dl. as_rec (abs_store db (view d1)) tid = Some (rec, dl) \<and> rec_status rec = st"
    using arg_cong[OF r(1), of snd] cur assms(6) by (auto simp: as_reopen_def as_write_def)
  have ok: "store_ok db ty (view d1)" using r(2) assms(6) by simp
  have ok2: "store_ok db ty (view d2)" using abs_elapse(2)[OF ok] assms(8) by simp
  have "as_rec (abs_store db (view d2)) tid = None
      \<or> (\<exists>rec dl. as_rec (abs_store db (view d2)) tid = Some (rec, dl) \<and> rec_status rec = st)"
    using A1 abs_elapse(1)[OF ok, of cj "td_terminal_statuses db" us] assms(8)
    by (auto elim!: astep.cases split: option.splits if_splits)
  then show ?thesis
    using arg_cong[OF redis_service.task_reopen_refines(1)[OF assms(1) ok2 assms(3,5), of cj eid2 st2], of fst] assms(7)
    by (auto simp: as_reopen_def)
qed

theorem reopen_one_winner_witness:
  "let d1 = snd (task_reopen_lua ks_redis demo_cj demo_db ''t'' ''e2'' ''pending'' 10 demo_done)
   in fst (task_reopen_lua ks_redis demo_cj demo_db ''t'' ''e3'' ''pending'' 10 (ks_elapse 0 d1))
      \<in> {LErr ''NOT_TERMINAL'', LErr ''NOT_FOUND''}"
proof -
  let ?d1 = "snd (task_reopen_lua ks_redis demo_cj demo_db ''t'' ''e2'' ''pending'' 10 demo_done)"
  have "task_reopen_lua ks_redis demo_cj demo_db ''t'' ''e2'' ''pending'' 10 demo_done = (LOk, ?d1)"
    by (simp add: task_reopen_lua_def Let_def demo_done_def ks_get_def status_word_def resolve_expiry_def)
  from reopen_one_winner[OF ks.redis_service_axioms demo_done_ok _ _ _ this, of 10 "ks_elapse 0 ?d1" 0 "''e3''" "''pending''"]
  show ?thesis by (simp add: valid_tid_def resolve_expiry_def)
qed

definition traced_ids :: "jdict \<Rightarrow> json list" where
  "traced_ids d = (case map_of d ''previous_execution_ids'' of Some (JArr xs) \<Rightarrow> xs | _ \<Rightarrow> [])"

lemma previous_ids_trace:
  assumes "cjson_ok cj" "rec_eid cur = Some (JStr e)" "e \<noteq> ''''"
  shows "previous_ids cj cur \<noteq> []" "last (previous_ids cj cur) = JStr e"
    "length (previous_ids cj cur) \<le> max 50 (length (traced_ids cur))"
proof -
  define prev where "prev = map cj (traced_ids cur)"
  have "previous_ids cj cur = (if 50 < Suc (length prev) then tl (prev @ [JStr e]) else prev @ [JStr e])"
    using assms by (simp add: previous_ids_def rec_eid_def prev_def traced_ids_def cjson_ok_def Let_def
        split: option.splits json.splits)
  then show "previous_ids cj cur \<noteq> []" "last (previous_ids cj cur) = JStr e"
    "length (previous_ids cj cur) \<le> max 50 (length (traced_ids cur))"
    by (cases "traced_ids cur"; simp add: prev_def split: if_splits)+
qed

text \<open>C11. A reopening starts a clean generation: the record gets the new execution id and status, the
  cancel flag is down, nothing of the old outcome (result, error, progress, cancel outcome) is
  left, and the old execution id is the newest entry of a trace that never grows beyond 50.\<close>

theorem reopen_starts_clean_generation:
  assumes "redis_service R view" "cjson_ok cj" "store_ok db ty (view d)" "valid_tid tid"
    "0 < resolve_expiry R db (task_key db tid) expiry d"
    "task_entry db (view d) tid = Some (cur, dl)" "rec_eid cur = Some (JStr e)" "e \<noteq> ''''"
    "task_reopen_lua R cj db tid eid st expiry d = (LOk, d')"
  shows "\<exists>rec dl'. task_entry db (view d') tid = Some (rec, dl')
    \<and> rec_eid rec = Some (JStr eid) \<and> rec_status rec = st \<and> map_of rec ''cancel_requested'' = Some (JBool False)
    \<and> (\<forall>k \<in> {''result'', ''error'', ''progress'', ''cancel_outcome''}. map_of rec k = None)
    \<and> traced_ids rec \<noteq> [] \<and> last (traced_ids rec) = JStr e
    \<and> length (traced_ids rec) \<le> max 50 (length (traced_ids cur))"
proof -
  let ?rec = "reopened_record cj cur eid st (ks_ms (view d))"
  note r = redis_service.task_reopen_refines[OF assms(1,3-5), of cj eid st]
  have A: "as_rec (abs_store db (view d)) tid = Some (cur, dl)" "as_now (abs_store db (view d)) = ks_ms (view d)"
    using assms(6) by (simp_all add: abs_store_def)
  have "fst (as_reopen cj (td_terminal_statuses db) tid eid st (resolve_expiry R db (task_key db tid) expiry d)
      (abs_store db (view d))) = LOk"
    using arg_cong[OF r(1), of fst] assms(9) by simp
  then have "rec_status cur \<in> set (td_terminal_statuses db)" using A by (simp add: as_reopen_def split: if_splits)
  then have "\<exists>dl'. as_rec (abs_store db (view d')) tid = Some (?rec, dl')"
    using arg_cong[OF r(1), of snd] assms(9) A by (simp add: as_reopen_def as_write_def)
  then obtain dl' where "task_entry db (view d') tid = Some (?rec, dl')" by (auto simp: abs_store_def)
  moreover have "traced_ids ?rec = previous_ids cj cur"
    using previous_ids_trace(1)[OF assms(2,7,8)] by (simp add: traced_ids_def reopened_fields lua_array_def)
  ultimately show ?thesis
    using previous_ids_trace[OF assms(2,7,8)] by (auto simp: rec_eid_def reopened_fields)
qed

theorem reopen_starts_clean_generation_witness:
  "\<exists>rec dl'. task_entry demo_db (snd (task_reopen_lua ks_redis demo_cj demo_db ''t'' ''e2'' ''pending'' 10 demo_done)) ''t''
      = Some (rec, dl') \<and> rec_eid rec = Some (JStr ''e2'') \<and> last (traced_ids rec) = JStr ''e1''"
proof -
  let ?d1 = "snd (task_reopen_lua ks_redis demo_cj demo_db ''t'' ''e2'' ''pending'' 10 demo_done)"
  have win: "task_reopen_lua ks_redis demo_cj demo_db ''t'' ''e2'' ''pending'' 10 demo_done = (LOk, ?d1)"
    by (simp add: task_reopen_lua_def Let_def demo_done_def ks_get_def status_word_def resolve_expiry_def)
  have pre: "valid_tid ''t''" "0 < resolve_expiry ks_redis demo_db (task_key demo_db ''t'') 10 demo_done"
    "rec_eid [(''status'', JStr ''completed''), (''execution_id'', JStr ''e1'')] = Some (JStr ''e1'')" "''e1'' \<noteq> ''''"
    by (simp_all add: valid_tid_def resolve_expiry_def rec_eid_def)
  note clean = reopen_starts_clean_generation[OF ks.redis_service_axioms cjson_ok_demo demo_done_ok]
  from clean[OF pre(1,2) demo_done_entry pre(3,4) win] show ?thesis by blast
qed

text \<open>C12. Initialising a task that exists without \<^verbatim>\<open>if_not_exists\<close> replaces its record but leaves it in
  the index of its old status: until the old lease runs out, listing that status returns a task
  that no longer has it.\<close>

theorem overwriting_init_leaves_stale_index_entry:
  assumes "redis_service R view" "cjson_ok cj" "store_ok db ty (view d)" "valid_tid tid" "0 < ex"
    "rec_status data = st" "old \<noteq> st" "(tid, sc) \<in> set (ks_zset (status_index_key db old) (view d))"
  shows "let d' = snd (task_init_lua R cj db tid data ex False st parent eid d)
    in (\<exists>rec dl. task_entry db (view d') tid = Some (rec, dl) \<and> rec_status rec = st)
       \<and> (tid, sc) \<in> set (ks_zset (status_index_key db old) (view d'))"
proof -
  let ?d' = "snd (task_init_lua R cj db tid data ex False st parent eid d)"
  have "abs_store db (view ?d') = snd (as_init cj tid data False st eid ex (abs_store db (view d)))"
    using arg_cong[OF redis_service.task_init_refines(1)[OF assms(1,3-5)], of snd] by simp
  then have "as_rec (abs_store db (view ?d')) tid = Some (dset ''execution_id'' (JStr eid) (cj_obj cj data),
        Some (as_now (abs_store db (view d)) + 1000 * ex))"
    and "as_idx (abs_store db (view ?d')) old = as_idx (abs_store db (view d)) old"
    using assms(7) by (simp_all add: as_init_def as_write_def idx_move_def)
  then show ?thesis
    using assms(6,8) rec_status_init[OF assms(2), of eid data] by (simp add: abs_store_def Let_def)
qed

definition demo_running :: keyspace where
  "demo_running = ks_put_zset (status_index_key demo_db ''in_progress'') [(''t'', 90000)] demo_done"

theorem overwriting_init_leaves_stale_index_entry_witness:
  "let d' = snd (task_init_lua ks_redis demo_cj demo_db ''t'' [(''status'', JStr ''pending'')] 100 False ''pending'' None ''e2''
       demo_running)
   in (\<exists>rec dl. task_entry demo_db d' ''t'' = Some (rec, dl) \<and> rec_status rec = ''pending'')
      \<and> (''t'', 90000) \<in> set (ks_zset (status_index_key demo_db ''in_progress'') d')"
proof -
  have ok: "store_ok demo_db demo_ty demo_running"
    unfolding demo_running_def
    by (rule store_ok_put_zset[OF demo_done_ok]) (use demo_layout in \<open>simp add: store_layout_def\<close>)
  have pre: "valid_tid ''t''" "(0::int) < 100" "rec_status [(''status'', JStr ''pending'')] = ''pending''"
    "''in_progress'' \<noteq> ''pending''" "(''t'', 90000) \<in> set (ks_zset (status_index_key demo_db ''in_progress'') demo_running)"
    by (simp_all add: valid_tid_def rec_status_def status_word_def demo_running_def)
  note stale = overwriting_init_leaves_stale_index_entry[OF ks.redis_service_axioms cjson_ok_demo]
  from stale[OF ok pre] show ?thesis .
qed

end
