(* ===== verification/Lifecycle.thy ===== *)
theory Lifecycle
  imports Task_Store_Spec
begin

text \<open>
  Task lifecycle management (\<^verbatim>\<open>flow/core/lifecycle.py\<close>) over any task storage
  (\<^verbatim>\<open>flow/protocols/storage.py\<close>).  The locale \<^verbatim>\<open>task_storage\<close> is the sequential contract of the
  protocol; the lifecycle's behaviour is proved in it once, and the Redis store of
  \<^verbatim>\<open>Task_Store\<close> is shown to meet it, for every Redis that acts as documented.  What happens when
  other clients act in between is stated on the Redis store itself.
\<close>

section \<open>TaskStorageProtocol\<close>

record 's storage =
  st_initialize_task :: "string \<Rightarrow> string \<Rightarrow> string option \<Rightarrow> bool \<Rightarrow> ('s, bool) py"
  st_get_task :: "string \<Rightarrow> ('s, jdict) py"
  st_update_task :: "string \<Rightarrow> jdict \<Rightarrow> bool \<Rightarrow> ('s, unit) py"
  st_request_cancel :: "string \<Rightarrow> ('s, bool) py"

section \<open>TaskLifecycle\<close>

text \<open>\<^verbatim>\<open>TaskStatus(task["status"])\<close>\<close>

definition read_status :: "jdict \<Rightarrow> ('s, task_status) py" where
  "read_status task =
     (case map_of task ''status'' of
        None \<Rightarrow> py_raise (OtherErr ''KeyError'')
      | Some (JStr w) \<Rightarrow> (case task_status_of w of Some s \<Rightarrow> py_return s | None \<Rightarrow> py_raise ValueErr)
      | Some _ \<Rightarrow> py_raise ValueErr)"

definition lc_initialize ::
  "'s storage \<Rightarrow> string \<Rightarrow> jdict option \<Rightarrow> string option \<Rightarrow> bool \<Rightarrow> ('s, bool) py" where
  "lc_initialize S tid metadata parent if_not_exists =
     py_bind (st_initialize_task S tid (status_value PENDING) parent if_not_exists) (\<lambda>created.
       if \<not> created then py_return False
       else py_seq
         (case metadata of
            Some m \<Rightarrow> if m \<noteq> [] then st_update_task S tid [(''metadata'', JObj m)] True else py_return ()
          | None \<Rightarrow> py_return ())
         (py_return True))"

definition lc_get_task :: "'s storage \<Rightarrow> string \<Rightarrow> ('s, jdict) py" where
  "lc_get_task S tid =
     py_bind (st_get_task S tid) (\<lambda>task. if task = [] then py_raise FlowTaskNotFound else py_return task)"

definition lc_get_status :: "'s storage \<Rightarrow> string \<Rightarrow> ('s, task_status) py" where
  "lc_get_status S tid =
     py_bind (st_get_task S tid) (\<lambda>task. if task = [] then py_raise FlowTaskNotFound else read_status task)"

definition lc_is_terminal :: "'s storage \<Rightarrow> string \<Rightarrow> ('s, bool) py" where
  "lc_is_terminal S tid = py_bind (lc_get_status S tid) (\<lambda>status. py_return (is_terminal status))"

definition transition_to :: "'s storage \<Rightarrow> string \<Rightarrow> task_status \<Rightarrow> ('s, unit) py" where
  "transition_to S tid to_status =
     py_bind (st_get_task S tid) (\<lambda>task.
       if task = [] then py_raise FlowTaskNotFound
       else py_bind (read_status task) (\<lambda>from_status.
         py_seq (validate_transition from_status to_status)
           (st_update_task S tid [(''status'', JStr (status_value to_status))] False)))"

text \<open>\<^verbatim>\<open>cancel\<close>.  The two handlers of the inner try settle a lost race by reading the final status.\<close>

definition settle_cancel_race :: "'s storage \<Rightarrow> string \<Rightarrow> ('s, bool) py" where
  "settle_cancel_race S tid =
     py_bind (lc_get_status S tid) (\<lambda>final_status. py_return (final_status = CANCELLED))"

definition lc_cancel :: "'s storage \<Rightarrow> string \<Rightarrow> ('s, bool) py" where
  "lc_cancel S tid =
     py_except
       (py_bind (st_get_task S tid) (\<lambda>task.
          if task = [] then py_return False
          else py_bind (read_status task) (\<lambda>current_status.
            if is_terminal current_status then py_return False
            else py_bind
              (py_except (st_request_cancel S tid) (\<lambda>e. e = FlowTaskNotFound) (\<lambda>_. py_return False))
              (\<lambda>requested.
                if \<not> requested then py_return False
                else py_except (py_seq (transition_to S tid CANCELLED) (py_return True))
                  is_Exception
                  (\<lambda>e. if e = FlowInvalidTransition \<or> e = CoreInvalidTransfer
                       then settle_cancel_race S tid else py_raise e)))))
       (\<lambda>e. e = FlowTaskNotFound) (\<lambda>_. py_return False)"

section \<open>The sequential contract\<close>

definition rec_word :: "jdict \<Rightarrow> string \<Rightarrow> bool" where
  "rec_word r w \<longleftrightarrow> map_of r ''status'' = Some (JStr w)"

text \<open>\<^term>\<open>ready s\<close>: no other client acts.  \<^term>\<open>recs s t\<close> is the stored record, empty when there is none.\<close>

locale task_storage =
  fixes S :: "'s storage" and ready :: "'s \<Rightarrow> bool" and recs :: "'s \<Rightarrow> string \<Rightarrow> jdict"
    and terminal :: "string list" and valid :: "string \<Rightarrow> bool"
  assumes get_law: "ready s \<Longrightarrow> valid t \<Longrightarrow> \<exists>s'. st_get_task S t s = (Inr (recs s t), s') \<and> ready s' \<and> recs s' = recs s"
    and init_skip: "ready s \<Longrightarrow> valid t \<Longrightarrow> recs s t \<noteq> [] \<Longrightarrow>
      \<exists>s'. st_initialize_task S t st p True s = (Inr False, s') \<and> ready s' \<and> recs s' = recs s"
    and init_new: "ready s \<Longrightarrow> valid t \<Longrightarrow> recs s t = [] \<or> \<not> ine \<Longrightarrow>
      \<exists>s' r. st_initialize_task S t st p ine s = (Inr True, s') \<and> ready s' \<and> rec_word r st
        \<and> map_of r ''parent_task_id'' = map_option JStr p \<and> recs s' = (recs s)(t := r)"
    and update_missing: "ready s \<Longrightarrow> valid t \<Longrightarrow> recs s t = [] \<Longrightarrow>
      \<exists>s'. st_update_task S t u vd s = (Inl CoreTaskNotFound, s') \<and> ready s' \<and> recs s' = recs s"
    and update_terminal: "ready s \<Longrightarrow> valid t \<Longrightarrow> rec_word (recs s t) old \<Longrightarrow> old \<in> set terminal \<Longrightarrow>
      map_of u ''status'' = Some (JStr new) \<Longrightarrow> new \<noteq> old \<Longrightarrow>
      \<exists>s'. st_update_task S t u False s = (Inl CoreInvalidTransfer, s') \<and> ready s' \<and> recs s' = recs s"
    and update_status: "ready s \<Longrightarrow> valid t \<Longrightarrow> rec_word (recs s t) old \<Longrightarrow> old \<notin> set terminal \<Longrightarrow>
      \<exists>s' r. st_update_task S t [(''status'', JStr new)] False s = (Inr (), s') \<and> ready s' \<and> rec_word r new
        \<and> (\<forall>k b. k \<noteq> ''status'' \<longrightarrow> map_of (recs s t) k = Some (JBool b) \<longrightarrow> map_of r k = Some (JBool b))
        \<and> recs s' = (recs s)(t := r)"
    and update_field: "ready s \<Longrightarrow> valid t \<Longrightarrow> rec_word (recs s t) old \<Longrightarrow> k \<noteq> ''status'' \<Longrightarrow>
      \<exists>s' r. st_update_task S t [(k, v)] vd s = (Inr (), s') \<and> ready s' \<and> rec_word r old
        \<and> map_of r k \<noteq> None \<and> recs s' = (recs s)(t := r)"
    and cancel_missing: "ready s \<Longrightarrow> valid t \<Longrightarrow> recs s t = [] \<Longrightarrow>
      \<exists>s'. st_request_cancel S t s = (Inr False, s') \<and> ready s' \<and> recs s' = recs s"
    and cancel_mark: "ready s \<Longrightarrow> valid t \<Longrightarrow> rec_word (recs s t) old \<Longrightarrow>
      \<exists>s' r. st_request_cancel S t s = (Inr True, s') \<and> ready s' \<and> rec_word r old
        \<and> map_of r ''cancel_requested'' = Some (JBool True) \<and> recs s' = (recs s)(t := r)"
    and terminal_words: "status_value ts \<in> set terminal \<longleftrightarrow> is_terminal ts"
begin

lemma get_status_ok:
  assumes "ready s" "valid t" "rec_word (recs s t) (status_value st)"
  shows "\<exists>s'. lc_get_status S t s = (Inr st, s') \<and> ready s' \<and> recs s' = recs s"
  using get_law[OF assms(1,2)] assms(3)
  by (auto simp: lc_get_status_def read_status_def rec_word_def py_simps)

lemma transition_ok:
  assumes "ready s" "valid t" "rec_word (recs s t) (status_value from)" "can_transition from to"
  shows "\<exists>s' r. transition_to S t to s = (Inr (), s') \<and> ready s' \<and> rec_word r (status_value to)
    \<and> (\<forall>k b. k \<noteq> ''status'' \<longrightarrow> map_of (recs s t) k = Some (JBool b) \<longrightarrow> map_of r k = Some (JBool b))
    \<and> recs s' = (recs s)(t := r)"
proof -
  from get_law[OF assms(1,2)] obtain s1 where s1: "st_get_task S t s = (Inr (recs s t), s1)" "ready s1" "recs s1 = recs s"
    by blast
  have "status_value from \<notin> set terminal" using assms(4) terminal_no_transition terminal_words by blast
  from update_status[OF s1(2) assms(2) _ this, of "status_value to"] assms(3) s1(3)
  obtain s2 r where "st_update_task S t [(''status'', JStr (status_value to))] False s1 = (Inr (), s2)" "ready s2"
    "rec_word r (status_value to)" "recs s2 = (recs s)(t := r)"
    "\<forall>k b. k \<noteq> ''status'' \<longrightarrow> map_of (recs s t) k = Some (JBool b) \<longrightarrow> map_of r k = Some (JBool b)"
    by auto
  with s1(1) assms(3,4) show ?thesis
    by (auto simp: transition_to_def read_status_def validate_transition_def rec_word_def py_simps)
qed

lemma transition_rejected:
  assumes "ready s" "valid t" "rec_word (recs s t) (status_value from)" "\<not> can_transition from to"
  shows "\<exists>s'. transition_to S t to s = (Inl FlowInvalidTransition, s') \<and> ready s' \<and> recs s' = recs s"
  using get_law[OF assms(1,2)] assms(3,4)
  by (auto simp: transition_to_def read_status_def validate_transition_def rec_word_def py_simps)

lemma cancel_absent:
  assumes "ready s" "valid t" "recs s t = []"
  shows "\<exists>s'. lc_cancel S t s = (Inr False, s') \<and> ready s' \<and> recs s' = recs s"
  using get_law[OF assms(1,2)] assms(3) by (auto simp: lc_cancel_def py_simps)

lemma cancel_terminal:
  assumes "ready s" "valid t" "rec_word (recs s t) (status_value st)" "is_terminal st"
  shows "\<exists>s'. lc_cancel S t s = (Inr False, s') \<and> ready s' \<and> recs s' = recs s"
  using get_law[OF assms(1,2)] assms(3,4) by (auto simp: lc_cancel_def read_status_def rec_word_def py_simps)

lemma cancel_live:
  assumes "ready s" "valid t" "rec_word (recs s t) (status_value st)" "\<not> is_terminal st"
  shows "\<exists>s' r. lc_cancel S t s = (Inr True, s') \<and> ready s' \<and> rec_word r (status_value CANCELLED)
    \<and> map_of r ''cancel_requested'' = Some (JBool True) \<and> recs s' = (recs s)(t := r)"
proof -
  from get_law[OF assms(1,2)] obtain s1 where s1: "st_get_task S t s = (Inr (recs s t), s1)" "ready s1" "recs s1 = recs s"
    by blast
  from cancel_mark[OF s1(2) assms(2), of "status_value st"] assms(3) s1(3) obtain s2 r where s2: "st_request_cancel S t s1 = (Inr True, s2)"
    "ready s2" "rec_word r (status_value st)" "map_of r ''cancel_requested'' = Some (JBool True)" "recs s2 = (recs s)(t := r)"
    by auto
  have "can_transition st CANCELLED" using assms(4) by (cases st) (simp_all add: can_transition_def is_terminal_def)
  from transition_ok[OF s2(2) assms(2) _ this] s2(3-5) obtain s3 r' where s3: "transition_to S t CANCELLED s2 = (Inr (), s3)"
    "ready s3" "rec_word r' (status_value CANCELLED)" "map_of r' ''cancel_requested'' = Some (JBool True)"
    "recs s3 = (recs s)(t := r')"
    by fastforce
  have "lc_cancel S t s = (Inr True, s3)"
    using s1(1) s2(1) s3(1) assms(3,4) by (auto simp: lc_cancel_def read_status_def rec_word_def py_simps)
  with s3 show ?thesis by blast
qed

end

section \<open>The Redis store meets the contract\<close>

definition redis_storage :: "'r redis \<Rightarrow> (json \<Rightarrow> json) \<Rightarrow> task_db \<Rightarrow> string \<Rightarrow> string \<Rightarrow> 'r world storage" where
  "redis_storage R cj db eid timestamp =
     \<lparr>st_initialize_task = (\<lambda>tid st parent ine. initialize_task R cj db eid timestamp tid None st ine parent),
      st_get_task = get_task R db,
      st_update_task = (\<lambda>tid updates validate. update_task R cj db tid updates None validate),
      st_request_cancel = request_cancel R cj db\<rparr>"

text \<open>No interference, no faults, and every record a non-empty object.\<close>

definition quiet :: "'r world \<Rightarrow> bool" where
  "quiet w \<longleftrightarrow> (\<forall>n d. w_env w n d = d) \<and> (\<forall>n. w_fault w n = No_fault)"

definition store_recs :: "('r \<Rightarrow> keyspace) \<Rightarrow> task_db \<Rightarrow> 'r world \<Rightarrow> string \<Rightarrow> jdict" where
  "store_recs view db w t = (case as_rec (abs_store db (view (w_db w))) t of None \<Rightarrow> [] | Some (r, _) \<Rightarrow> r)"

definition store_ready :: "('r \<Rightarrow> keyspace) \<Rightarrow> task_db \<Rightarrow> (string \<Rightarrow> kind) \<Rightarrow> 'r world \<Rightarrow> bool" where
  "store_ready view db ty w \<longleftrightarrow> quiet w \<and> store_ok db ty (view (w_db w))
     \<and> (\<forall>t r dl. as_rec (abs_store db (view (w_db w))) t = Some (r, dl) \<longrightarrow> r \<noteq> [])"

lemma quiet_call: "quiet w \<Longrightarrow> redis_call f w = (Inr (fst (f (w_db w))), w\<lparr>w_pc := Suc (w_pc w), w_db := snd (f (w_db w))\<rparr>)"
  by (simp add: quiet_def redis_call_def Let_def)

lemma quiet_update [simp]: "quiet (w\<lparr>w_pc := n\<rparr>) \<longleftrightarrow> quiet w" "quiet (w\<lparr>w_pc := n, w_db := d\<rparr>) \<longleftrightarrow> quiet w"
  by (simp_all add: quiet_def)

lemma lua_merge_Nil [simp]: "lua_merge c u = [] \<longleftrightarrow> c = [] \<and> u = []"
proof -
  have "fold (\<lambda>(k, v) d. dset k v d) u c = [] \<longleftrightarrow> c = [] \<and> u = []"
    by (induction u arbitrary: c) (auto split: prod.splits)
  then show ?thesis by (simp add: lua_merge_def)
qed

context redis_service
begin

lemma attached_frame:
  assumes "store_ok db ty (view d)" "0 < ex"
  shows "abs_store db (view (fold (\<lambda>sfx. r_expire R (attached_key db tid sfx) ex) xs d)) = abs_store db (view d)
    \<and> store_ok db ty (view (fold (\<lambda>sfx. r_expire R (attached_key db tid sfx) ex) xs d))"
  using assms
proof (induction xs arbitrary: d)
  case (Cons x xs)
  have key: "attached_key db tid x \<noteq> task_key db t" if "valid_tid t" for t
    using that by (auto simp: attached_key_def task_key_def valid_tid_def)
  have "abs_store db (view (r_expire R (attached_key db tid x) ex d)) = abs_store db (view d)
      \<and> store_ok db ty (view (r_expire R (attached_key db tid x) ex d))"
    using store_frame[OF Cons.prems(1), of "view (r_expire R (attached_key db tid x) ex d)"] key Cons.prems(2)
    by (fastforce simp: ks_expire_def)
  with Cons show ?case by simp
qed simp

lemma follow_frame:
  assumes "quiet w" "store_ok db ty (view (w_db w))"
  shows "\<exists>w'. follow_attached_keys_ttl R db tid ex w = (Inr (), w') \<and> quiet w' \<and> store_ok db ty (view (w_db w'))
    \<and> abs_store db (view (w_db w')) = abs_store db (view (w_db w))"
  using assms attached_frame[OF assms(2)]
  by (auto simp: follow_attached_keys_ttl_def redis_read_def redis_write_def quiet_call py_simps)

lemma update_quiet:
  assumes "store_ready view db ty w" "valid_tid t" "0 < td_default_expire_time db"
    "\<not> vd \<or> map_of u ''status'' = None"
  shows "\<exists>ex w'. update_task R cj db t u None vd w =
      (case fst (as_update cj (td_terminal_statuses db) t u ex (abs_store db (view (w_db w)))) of
         LErr err \<Rightarrow> Inl (if err = ''NOT_FOUND'' then CoreTaskNotFound else CoreInvalidTransfer) | _ \<Rightarrow> Inr (), w')
    \<and> quiet w' \<and> store_ok db ty (view (w_db w'))
    \<and> abs_store db (view (w_db w')) = snd (as_update cj (td_terminal_statuses db) t u ex (abs_store db (view (w_db w))))"
proof -
  let ?d = "w_db w" and ?A = "abs_store db (view (w_db w))"
  let ?ex = "resolve_expiry R db (task_key db t) (-1) ?d"
  let ?a = "as_update cj (td_terminal_statuses db) t u ?ex ?A"
  let ?r = "task_update_lua R cj db t u (-1) ?d"
  let ?w1 = "w\<lparr>w_pc := Suc (w_pc w), w_db := snd ?r\<rparr>"
  have ok: "store_ok db ty (view ?d)" and q: "quiet w" using assms(1) by (simp_all add: store_ready_def)
  have ex: "0 < ?ex" using assms(3) by (simp add: resolve_expiry_def Let_def)
  note ref = task_update_refines[OF ok assms(2) ex, of cj u]
  have r: "fst ?r = fst ?a" "abs_store db (view (snd ?r)) = snd ?a"
    using arg_cong[OF ref(1), of fst] arg_cong[OF ref(1), of snd] by simp_all
  have run: "update_task R cj db t u None vd w =
      py_seq (raise_lua (fst ?a)) (follow_attached_keys_ttl R db t (-1)) ?w1"
    using assms(4) q r(1) by (auto simp: update_task_def quiet_call py_simps Let_def)
  have fr: "\<exists>w'. follow_attached_keys_ttl R db t (-1) ?w1 = (Inr (), w') \<and> quiet w' \<and> store_ok db ty (view (w_db w'))
      \<and> abs_store db (view (w_db w')) = snd ?a"
    using follow_frame[of ?w1 db ty t "-1"] q ref(2) r(2) by simp
  show ?thesis
  proof (cases "fst ?a")
    case LOk
    with run fr show ?thesis by (intro exI[of _ ?ex]) (auto simp: raise_lua_def py_simps)
  next
    case (LErr err)
    then have "err = ''NOT_FOUND'' \<or> err = ''INVALID_TRANSFER''"
      by (auto simp: as_update_def Let_def split: option.splits if_splits)
    with LErr run q ref(2) r(2) show ?thesis
      by (intro exI[of _ ?ex] exI[of _ ?w1]) (auto simp: raise_lua_def py_simps)
  next
    case LCrash
    then have False by (auto simp: as_update_def Let_def split: option.splits if_splits)
    then show ?thesis ..
  qed
qed

lemma get_quiet:
  assumes "store_ready view db ty w" "valid_tid t"
  shows "\<exists>w'. get_task R db t w = (Inr (store_recs view db w t), w') \<and> store_ready view db ty w'
    \<and> w_db w' = w_db w \<and> store_recs view db w' = store_recs view db w"
proof -
  have "record_of (r_get R (task_key db t) (w_db w)) = store_recs view db w t"
    using task_get[of db ty "w_db w" t] assms
    by (auto simp: store_ready_def store_recs_def record_of_def split: option.splits)
  with assms(1) show ?thesis
    by (simp add: get_task_def redis_read_def quiet_call store_ready_def store_recs_def fun_eq_iff py_simps)
qed

lemma init_quiet:
  assumes "store_ready view db ty w" "valid_tid t" "0 < td_default_expire_time db"
  shows "\<exists>w'. initialize_task R cj db eid timestamp t None st ine parent w =
      (Inr (fst (as_init cj t (initial_data timestamp st parent) ine st eid (td_default_expire_time db)
         (abs_store db (view (w_db w))))), w')
    \<and> quiet w' \<and> store_ok db ty (view (w_db w'))
    \<and> abs_store db (view (w_db w')) = snd (as_init cj t (initial_data timestamp st parent) ine st eid
        (td_default_expire_time db) (abs_store db (view (w_db w))))"
proof -
  let ?r = "task_init_lua R cj db t (initial_data timestamp st parent) (td_default_expire_time db) ine st parent eid (w_db w)"
  have ok: "store_ok db ty (view (w_db w))" and q: "quiet w" using assms(1) by (simp_all add: store_ready_def)
  note ref = task_init_refines[OF ok assms(2,3), of cj "initial_data timestamp st parent" ine st parent eid]
  have "fst ?r \<noteq> None" using assms(3) by (auto simp: task_init_lua_def Let_def)
  then show ?thesis
    using q ref(2) arg_cong[OF ref(1), of fst] arg_cong[OF ref(1), of snd]
    by (auto simp: initialize_task_def quiet_call Let_def py_simps)
qed

end

lemma as_update_missing: "as_rec A t = None \<Longrightarrow> as_update cj fin t u ex A = (LErr ''NOT_FOUND'', A)"
  by (simp add: as_update_def)

lemma as_update_rejected:
  "as_rec A t = Some (r, dl) \<Longrightarrow> rec_status r \<in> set fin \<Longrightarrow> new_status_of u (rec_status r) \<noteq> rec_status r \<Longrightarrow>
    as_update cj fin t u ex A = (LErr ''INVALID_TRANSFER'', A)"
  by (auto simp: as_update_def)

lemma as_update_written:
  assumes "as_rec A t = Some (r, dl)" "rec_status r \<notin> set fin \<or> new_status_of u (rec_status r) = rec_status r"
  shows "fst (as_update cj fin t u ex A) = LOk"
    "as_rec (snd (as_update cj fin t u ex A)) = (as_rec A)(t := Some (lua_merge (cj_obj cj r) (cj_obj cj u), Some (as_now A + 1000 * ex)))"
  using assms by (auto simp: as_update_def as_write_def Let_def)

lemma rec_word_status: "rec_word r w \<Longrightarrow> rec_status r = w"
  by (simp add: rec_word_def rec_status_def status_word_def)

text \<open>A Redis task store with a positive default expiry and the terminal words of the flow layer.\<close>

locale redis_task_store = redis_service R view for R :: "'r redis" and view :: "'r \<Rightarrow> keyspace" +
  fixes cj :: "json \<Rightarrow> json" and db :: task_db and ty :: "string \<Rightarrow> kind" and eid :: string and timestamp :: string
  assumes cjson: "cjson_ok cj" and expiry: "0 < td_default_expire_time db"
    and words: "td_terminal_statuses db = taskflow_terminal_statuses"
begin

lemma store_recs_entry:
  assumes "store_ready view db ty w"
  shows "store_recs view db w t = [] \<longleftrightarrow> as_rec (abs_store db (view (w_db w))) t = None"
    "store_recs view db w t \<noteq> [] \<Longrightarrow> \<exists>dl. as_rec (abs_store db (view (w_db w))) t = Some (store_recs view db w t, dl)"
  using assms by (auto simp: store_recs_def store_ready_def split: option.splits)

text \<open>What a granted write leaves behind.\<close>

lemma written:
  assumes "store_ready view db ty w" "quiet w'" "store_ok db ty (view (w_db w'))" "r \<noteq> []"
    "as_rec (abs_store db (view (w_db w'))) = (as_rec (abs_store db (view (w_db w))))(t := Some (r, dl))"
  shows "store_ready view db ty w' \<and> store_recs view db w' = (store_recs view db w)(t := r)"
  using assms by (auto simp: store_ready_def store_recs_def fun_eq_iff)

lemma unchanged:
  assumes "store_ready view db ty w" "quiet w'" "store_ok db ty (view (w_db w'))"
    "abs_store db (view (w_db w')) = abs_store db (view (w_db w))"
  shows "store_ready view db ty w' \<and> store_recs view db w' = store_recs view db w"
  using assms by (auto simp: store_ready_def store_recs_def fun_eq_iff)

lemma update_granted:
  assumes "store_ready view db ty w" "valid_tid t" "store_recs view db w t \<noteq> []" "\<not> vd \<or> map_of u ''status'' = None"
    "rec_status (store_recs view db w t) \<notin> set (td_terminal_statuses db) \<or> map_of u ''status'' = None"
  shows "\<exists>w'. update_task R cj db t u None vd w = (Inr (), w') \<and> store_ready view db ty w'
    \<and> store_recs view db w' = (store_recs view db w)(t := lua_merge (cj_obj cj (store_recs view db w t)) (cj_obj cj u))"
proof -
  let ?A = "abs_store db (view (w_db w))" and ?fin = "td_terminal_statuses db"
  let ?r = "store_recs view db w t"
  from store_recs_entry(2)[OF assms(1,3)] obtain dl where r: "as_rec ?A t = Some (?r, dl)" ..
  from update_quiet[OF assms(1,2) expiry assms(4), of cj] obtain ex w' where
    w': "update_task R cj db t u None vd w = (case fst (as_update cj ?fin t u ex ?A) of
         LErr err \<Rightarrow> Inl (if err = ''NOT_FOUND'' then CoreTaskNotFound else CoreInvalidTransfer) | _ \<Rightarrow> Inr (), w')"
    "quiet w'" "store_ok db ty (view (w_db w'))" "abs_store db (view (w_db w')) = snd (as_update cj ?fin t u ex ?A)"
    by blast
  have c: "rec_status ?r \<notin> set ?fin \<or> new_status_of u (rec_status ?r) = rec_status ?r"
    using assms(5) by (auto simp: new_status_of_def)
  note a = as_update_written[OF r c, of cj ex]
  have "lua_merge (cj_obj cj ?r) (cj_obj cj u) \<noteq> []" using assms(3) by (simp add: cj_obj_def)
  from written[OF assms(1) w'(2,3) this] w'(1,4) a show ?thesis by (intro exI[of _ w']) simp
qed

lemma rec_word_merge:
  "rec_word r w \<Longrightarrow> distinct (dkeys u) \<Longrightarrow> map_of u ''status'' = None \<Longrightarrow> rec_word (lua_merge (cj_obj cj r) (cj_obj cj u)) w"
  using cjson by (simp add: rec_word_def map_of_lua_merge map_of_cj_obj cjson_ok_def)

end

sublocale redis_task_store \<subseteq> storage: task_storage "redis_storage R cj db eid timestamp" "store_ready view db ty"
  "store_recs view db" "td_terminal_statuses db" valid_tid
proof (unfold_locales, goal_cases)
  case (1 w t)
  then show ?case
    using get_quiet[OF 1] by (auto simp: redis_storage_def)
next
  case (2 w t st p)
  with init_quiet[OF 2(1,2) expiry, of cj eid timestamp st True p] store_recs_entry(1)[OF 2(1), of t]
  show ?case by (auto simp: redis_storage_def as_init_def dest: unchanged)
next
  case (3 w t ine st p)
  let ?r = "dset ''execution_id'' (JStr eid) (cj_obj cj (initial_data timestamp st p))"
  have "\<not> (ine \<and> as_rec (abs_store db (view (w_db w))) t \<noteq> None)"
    using 3(3) store_recs_entry(1)[OF 3(1), of t] by auto
  then have a: "as_init cj t (initial_data timestamp st p) ine st eid (td_default_expire_time db) (abs_store db (view (w_db w)))
      = (True, as_write t ?r None st (td_default_expire_time db) (abs_store db (view (w_db w))))"
    by (simp add: as_init_def)
  from init_quiet[OF 3(1,2) expiry, of cj eid timestamp st ine p] obtain w' where
    w': "initialize_task R cj db eid timestamp t None st ine p w = (Inr True, w')" "quiet w'" "store_ok db ty (view (w_db w'))"
    "abs_store db (view (w_db w')) = as_write t ?r None st (td_default_expire_time db) (abs_store db (view (w_db w)))"
    unfolding a by auto
  have "rec_word ?r st" "map_of ?r ''parent_task_id'' = map_option JStr p" "?r \<noteq> []"
    using cjson by (auto simp: rec_word_def map_of_dset map_of_cj_obj initial_data_def cjson_ok_def split: option.splits)
  with written[OF 3(1) w'(2,3) this(3)] w' show ?case
    by (intro exI[of _ w'] exI[of _ ?r]) (simp add: redis_storage_def as_write_def)
next
  case (4 w t u vd)
  then have none: "as_rec (abs_store db (view (w_db w))) t = None" using store_recs_entry(1)[OF 4(1)] by blast
  show ?case
  proof (cases "\<not> vd \<or> map_of u ''status'' = None")
    case True
    from update_quiet[OF 4(1,2) expiry this, of cj] none unchanged[OF 4(1)] show ?thesis
      by (auto simp: redis_storage_def as_update_missing)
  next
    case False
    with get_quiet[OF 4(1,2)] 4(3) show ?thesis
      by (auto simp: redis_storage_def update_task_def validate_transfer_def py_simps Let_def)
  qed
next
  case (5 w t old u new)
  then have "store_recs view db w t \<noteq> []" by (auto simp: rec_word_def)
  from store_recs_entry(2)[OF 5(1) this] obtain dl where r: "as_rec (abs_store db (view (w_db w))) t = Some (store_recs view db w t, dl)" ..
  have "new_status_of u (rec_status (store_recs view db w t)) \<noteq> rec_status (store_recs view db w t)"
    using 5 by (simp add: rec_word_status new_status_of_def status_word_def)
  then have rej: "as_update cj (td_terminal_statuses db) t u ex (abs_store db (view (w_db w)))
      = (LErr ''INVALID_TRANSFER'', abs_store db (view (w_db w)))" for ex
    using as_update_rejected[OF r] 5(3,4) by (simp add: rec_word_status)
  from update_quiet[OF 5(1,2) expiry, of False u cj] unchanged[OF 5(1)] show ?case
    unfolding rej by (auto simp: redis_storage_def)
next
  case (6 w t old new)
  then have "store_recs view db w t \<noteq> []" by (auto simp: rec_word_def)
  from update_granted[OF 6(1,2) this, of False "[(''status'', JStr new)]"] 6(3,4)
  obtain w' where w': "update_task R cj db t [(''status'', JStr new)] None False w = (Inr (), w')" "store_ready view db ty w'"
    "store_recs view db w' = (store_recs view db w)(t := lua_merge (cj_obj cj (store_recs view db w t)) (cj_obj cj [(''status'', JStr new)]))"
    by (auto simp: rec_word_status)
  show ?case
    by (rule exI[of _ w'], rule exI[of _ "store_recs view db w' t"])
      (use w' cjson in \<open>simp add: redis_storage_def rec_word_def map_of_lua_merge map_of_cj_obj cjson_ok_def\<close>)
next
  case (7 w t old k v vd)
  then have "store_recs view db w t \<noteq> []" by (auto simp: rec_word_def)
  from update_granted[OF 7(1,2) this, of vd "[(k, v)]"] 7(4)
  obtain w' where w': "update_task R cj db t [(k, v)] None vd w = (Inr (), w')" "store_ready view db ty w'"
    "store_recs view db w' = (store_recs view db w)(t := lua_merge (cj_obj cj (store_recs view db w t)) (cj_obj cj [(k, v)]))"
    by auto
  show ?case
    by (rule exI[of _ w'], rule exI[of _ "store_recs view db w' t"])
      (use w' 7(4) rec_word_merge[OF 7(3), of "[(k, v)]"] in \<open>simp add: redis_storage_def map_of_lua_merge map_of_cj_obj\<close>)
next
  case (8 w t)
  then show ?case
    using get_quiet[OF 8(1,2)] by (auto simp: redis_storage_def request_cancel_def py_simps)
next
  case (9 w t old)
  let ?u = "[(''cancel_requested'', JBool True)]"
  from get_quiet[OF 9(1,2)] obtain w1 where w1: "get_task R db t w = (Inr (store_recs view db w t), w1)"
    "store_ready view db ty w1" "store_recs view db w1 = store_recs view db w" by blast
  have ne: "store_recs view db w1 t \<noteq> []" using 9(3) w1(3) by (auto simp: rec_word_def)
  from update_granted[OF w1(2) 9(2) ne, of True ?u]
  obtain w' where w': "update_task R cj db t ?u None True w1 = (Inr (), w')" "store_ready view db ty w'"
    "store_recs view db w' = (store_recs view db w)(t := lua_merge (cj_obj cj (store_recs view db w t)) (cj_obj cj ?u))"
    using w1(3) by auto
  have "request_cancel R cj db t w = (Inr True, w')" using w1 w'(1) ne by (simp add: request_cancel_def py_simps)
  then show ?case
    by (intro exI[of _ w'] exI[of _ "store_recs view db w' t"])
      (use w' cjson rec_word_merge[OF 9(3), of ?u] in \<open>simp add: redis_storage_def map_of_lua_merge map_of_cj_obj cjson_ok_def\<close>)
next
  case (10 ts)
  then show ?case by (cases ts) (simp_all add: words taskflow_terminal_statuses_def is_terminal_def)
qed

text \<open>The store as the flow layer's factory configures it.\<close>

definition flow_db :: task_db where
  "flow_db = \<lparr>td_task_key_prefix = ''task'', td_status_index_prefix = ''task_status'',
     td_default_expire_time = 604800, td_terminal_statuses = taskflow_terminal_statuses,
     td_transitions = Some taskflow_transitions\<rparr>"

lemma flow_db_layout: "store_layout flow_db demo_ty"
  by (simp add: store_layout_def flow_db_def demo_ty_def task_key_def status_index_key_def children_key_def)

interpretation flow: redis_task_store ks_redis "\<lambda>ks. ks" demo_cj flow_db demo_ty "''e1''" "''now''"
  by unfold_locales (simp_all add: cjson_ok_demo flow_db_def)

section \<open>Cancellation\<close>

context redis_task_store
begin

lemma cancel_total:
  assumes "store_ready view db ty w" "valid_tid t"
    "store_recs view db w t = [] \<or> (\<exists>st. rec_word (store_recs view db w t) (status_value st))"
  shows "\<exists>b w'. lc_cancel (redis_storage R cj db eid timestamp) t w = (Inr b, w')
    \<and> (b \<longleftrightarrow> (\<exists>st. rec_word (store_recs view db w t) (status_value st) \<and> \<not> is_terminal st))
    \<and> (if b then \<exists>r. rec_word r (status_value CANCELLED) \<and> map_of r ''cancel_requested'' = Some (JBool True)
              \<and> store_recs view db w' = (store_recs view db w)(t := r)
       else store_recs view db w' = store_recs view db w)"
  using assms(3)
proof (elim disjE exE)
  assume "store_recs view db w t = []"
  with storage.cancel_absent[OF assms(1,2)] show ?thesis by (fastforce simp: rec_word_def)
next
  fix st assume st: "rec_word (store_recs view db w t) (status_value st)"
  have uniq: "rec_word (store_recs view db w t) (status_value st') \<longleftrightarrow> st' = st" for st'
    using st by (auto simp: rec_word_def)
  show ?thesis
  proof (cases "is_terminal st")
    case True
    with storage.cancel_terminal[OF assms(1,2) st] show ?thesis unfolding uniq by fastforce
  next
    case False
    with storage.cancel_live[OF assms(1,2) st] show ?thesis unfolding uniq by fastforce
  qed
qed

end

text \<open>Cancellation while other clients act.  The environment keeps the store well formed and, once the
  task is cancelled, neither reopens nor expires it during the call.\<close>

definition cancelled_in :: "task_db \<Rightarrow> string \<Rightarrow> keyspace \<Rightarrow> bool" where
  "cancelled_in db t ks \<longleftrightarrow> (\<exists>r dl. task_entry db ks t = Some (r, dl) \<and> rec_status r = status_value CANCELLED)"

definition env_keeps :: "('r \<Rightarrow> keyspace) \<Rightarrow> task_db \<Rightarrow> (string \<Rightarrow> kind) \<Rightarrow> string \<Rightarrow> 'r world \<Rightarrow> bool" where
  "env_keeps view db ty t w \<longleftrightarrow> store_ok db ty (view (w_db w))
     \<and> (\<forall>n d. store_ok db ty (view d) \<longrightarrow> store_ok db ty (view (w_env w n d)))
     \<and> (\<forall>n d. cancelled_in db t (view d) \<longrightarrow> cancelled_in db t (view (w_env w n d)))"

lemma cancelled_in_abs: "cancelled_in db t ks \<longleftrightarrow> (\<exists>r dl. as_rec (abs_store db ks) t = Some (r, dl) \<and> rec_status r = status_value CANCELLED)"
  by (simp add: cancelled_in_def abs_store_def)

context redis_service
begin

lemma get_task_triple:
  assumes "valid_tid t"
  shows "triple (env_keeps view db ty t) (get_task R db t)
    (\<lambda>r w. env_keeps view db ty t w \<and> (rec_word r (status_value CANCELLED) \<longrightarrow> cancelled_in db t (view (w_db w))))
    (\<lambda>_. env_keeps view db ty t)"
  unfolding get_task_def redis_read_def
proof (rule triple_bind[OF triple_redis_call hoare(1)])
  fix w d assume "env_keeps view db ty t w" "d = w_env w (w_pc w) (w_db w)"
  moreover from this have "store_ok db ty (view d)" by (simp add: env_keeps_def)
  note task_get[OF this assms]
  ultimately show "(env_keeps view db ty t (w\<lparr>w_pc := Suc (w_pc w), w_db := snd (r_get R (task_key db t) d, d)\<rparr>)
      \<and> (rec_word (record_of (fst (r_get R (task_key db t) d, d))) (status_value CANCELLED) \<longrightarrow>
         cancelled_in db t (view (w_db (w\<lparr>w_pc := Suc (w_pc w), w_db := snd (r_get R (task_key db t) d, d)\<rparr>)))))
    \<and> (\<forall>e. env_keeps view db ty t (w\<lparr>w_pc := Suc (w_pc w), w_db := d\<rparr>)
      \<and> env_keeps view db ty t (w\<lparr>w_pc := Suc (w_pc w), w_db := snd (r_get R (task_key db t) d, d)\<rparr>))"
    by (auto simp: env_keeps_def cancelled_in_abs record_of_def rec_word_def rec_status_def status_word_def split: option.splits)
qed

text \<open>Extending the attached keys keeps whatever the environment keeps of the records.\<close>

lemma follow_triple:
  assumes "valid_tid t"
  shows "triple (\<lambda>w. env_keeps view db ty t w \<and> (c \<longrightarrow> cancelled_in db t (view (w_db w)))) (follow_attached_keys_ttl R db t (-1))
    (\<lambda>_ w. env_keeps view db ty t w \<and> (c \<longrightarrow> cancelled_in db t (view (w_db w)))) (\<lambda>_. env_keeps view db ty t)"
proof -
  let ?I = "\<lambda>w. env_keeps view db ty t w \<and> (c \<longrightarrow> cancelled_in db t (view (w_db w)))"
  have r: "triple ?I (redis_read (r_ttl R (task_key db t))) (\<lambda>_. ?I) (\<lambda>_. ?I)"
    unfolding redis_read_def by (rule triple_redis_call) (simp add: env_keeps_def)
  have x: "triple ?I (redis_write (fold (\<lambda>sfx. r_expire R (attached_key db t sfx) ex) attached_key_suffixes)) (\<lambda>_. ?I) (\<lambda>_. ?I)"
    if "0 < ex" for ex
    unfolding redis_write_def
  proof (rule triple_redis_call, goal_cases)
    case (1 w d)
    then have "store_ok db ty (view d)" by (simp add: env_keeps_def)
    from attached_frame[OF this that, of t attached_key_suffixes] this 1 show ?case
      by (simp add: env_keeps_def cancelled_in_abs)
  qed
  show ?thesis
    unfolding follow_attached_keys_ttl_def
    by (rule triple_except[OF triple_bind[OF _ triple_if], where E' = "\<lambda>_. ?I"])
      (auto intro: r x hoare)
qed

lemma update_task_triple:
  assumes "valid_tid t" "0 < td_default_expire_time db" "cjson_ok cj" "distinct (dkeys u)" "\<not> vd \<or> map_of u ''status'' = None"
  shows "triple (env_keeps view db ty t) (update_task R cj db t u None vd)
    (\<lambda>_ w. env_keeps view db ty t w \<and> (map_of u ''status'' = Some (JStr (status_value CANCELLED)) \<longrightarrow> cancelled_in db t (view (w_db w))))
    (\<lambda>_. env_keeps view db ty t)"
proof -
  let ?J = "env_keeps view db ty t"
  let ?c = "\<lambda>w. map_of u ''status'' = Some (JStr (status_value CANCELLED)) \<longrightarrow> cancelled_in db t (view (w_db w))"
  have script: "triple ?J (redis_call (task_update_lua R cj db t u (-1))) (\<lambda>res w. ?J w \<and> (res = LOk \<longrightarrow> ?c w)) (\<lambda>_. ?J)"
  proof (rule triple_redis_call, goal_cases)
    case (1 w d)
    let ?r = "task_update_lua R cj db t u (-1) d" and ?ex = "resolve_expiry R db (task_key db t) (-1) d"
    let ?a = "as_update cj (td_terminal_statuses db) t u ?ex (abs_store db (view d))"
    have ok: "store_ok db ty (view d)" using 1 by (simp add: env_keeps_def)
    have ex: "0 < ?ex" using assms(2) by (simp add: resolve_expiry_def Let_def)
    note ref = task_update_refines[OF ok assms(1) ex, of cj u]
    have r: "fst ?r = fst ?a" "abs_store db (view (snd ?r)) = snd ?a"
      using arg_cong[OF ref(1), of fst] arg_cong[OF ref(1), of snd] by simp_all
    have "cancelled_in db t (view (snd ?r))" if "fst ?a = LOk" "map_of u ''status'' = Some (JStr (status_value CANCELLED))"
      unfolding cancelled_in_abs r(2) using that rec_status_merge[OF assms(3,4)]
      by (auto simp: as_update_def as_write_def new_status_of_def status_word_def Let_def split: option.splits if_splits)
    with 1 ok ref(2) r(1) show ?case by (simp add: env_keeps_def)
  qed
  have raise: "triple (\<lambda>w. ?J w \<and> (res = LOk \<longrightarrow> ?c w)) (raise_lua res) (\<lambda>_ w. ?J w \<and> ?c w) (\<lambda>_. ?J)" for res
    by (auto simp: raise_lua_def triple_def py_simps split: lua_result.splits)
  have "update_task R cj db t u None vd = py_bind (redis_call (task_update_lua R cj db t u (-1)))
      (\<lambda>res. py_seq (raise_lua res) (follow_attached_keys_ttl R db t (-1)))"
    using assms(5) by (auto simp: update_task_def py_simps fun_eq_iff Let_def)
  then show ?thesis
    using triple_bind[OF script triple_seq[OF raise follow_triple[OF assms(1)]]] by simp
qed

lemma read_status_triple:
  "triple (\<lambda>w. env_keeps view db ty t w \<and> (rec_word r (status_value CANCELLED) \<longrightarrow> cancelled_in db t (view (w_db w)))) (read_status r)
    (\<lambda>st w. env_keeps view db ty t w \<and> (st = CANCELLED \<longrightarrow> cancelled_in db t (view (w_db w)))) (\<lambda>_. env_keeps view db ty t)"
  by (auto simp: read_status_def rec_word_def triple_def py_simps dest: task_status_of_Some split: option.splits json.splits)

lemma settle_triple:
  assumes "valid_tid t"
  shows "triple (env_keeps view db ty t) (settle_cancel_race (redis_storage R cj db eid timestamp) t)
    (\<lambda>b w. b \<longrightarrow> cancelled_in db t (view (w_db w))) (\<lambda>_ _. True)"
proof -
  have "triple (env_keeps view db ty t) (lc_get_status (redis_storage R cj db eid timestamp) t)
      (\<lambda>st w. env_keeps view db ty t w \<and> (st = CANCELLED \<longrightarrow> cancelled_in db t (view (w_db w)))) (\<lambda>_. env_keeps view db ty t)"
    unfolding lc_get_status_def redis_storage_def storage.simps
    by (rule triple_bind[OF get_task_triple[OF assms] triple_if[OF hoare(2) read_status_triple]]) simp
  then show ?thesis
    unfolding settle_cancel_race_def by (rule triple_bind[OF triple_conseq hoare(1)]) auto
qed

lemma transition_triple:
  assumes "valid_tid t" "0 < td_default_expire_time db" "cjson_ok cj"
  shows "triple (env_keeps view db ty t) (transition_to (redis_storage R cj db eid timestamp) t CANCELLED)
    (\<lambda>_ w. cancelled_in db t (view (w_db w))) (\<lambda>_. env_keeps view db ty t)"
proof -
  have val: "triple (\<lambda>w. env_keeps view db ty t w \<and> X w) (validate_transition a b) (\<lambda>_. env_keeps view db ty t)
      (\<lambda>_. env_keeps view db ty t)" for X a b
    by (auto simp: validate_transition_def intro!: hoare)
  show ?thesis
    unfolding transition_to_def redis_storage_def storage.simps
    by (rule triple_bind[OF get_task_triple[OF assms(1)] triple_if[OF hoare(2)
          triple_bind[OF read_status_triple triple_seq[OF val triple_conseq[OF update_task_triple[OF assms]]]]]]) auto
qed

lemma request_cancel_triple:
  assumes "valid_tid t" "0 < td_default_expire_time db" "cjson_ok cj"
  shows "triple (env_keeps view db ty t) (request_cancel R cj db t) (\<lambda>_. env_keeps view db ty t) (\<lambda>_. env_keeps view db ty t)"
proof -
  have mark: "triple (\<lambda>w. env_keeps view db ty t w \<and> X w) (update_task R cj db t [(''cancel_requested'', JBool True)] None True)
      (\<lambda>_. env_keeps view db ty t) (\<lambda>_. env_keeps view db ty t)" for X
    by (rule triple_conseq[OF update_task_triple[OF assms]]) auto
  show ?thesis
    unfolding request_cancel_def
    by (rule triple_bind[OF get_task_triple[OF assms(1)] triple_if[OF hoare(1) triple_seq[OF mark hoare(1)]]]) auto
qed

lemma cancel_triple:
  assumes "valid_tid t" "0 < td_default_expire_time db" "cjson_ok cj"
  shows "triple (env_keeps view db ty t) (lc_cancel (redis_storage R cj db eid timestamp) t)
    (\<lambda>b w. b \<longrightarrow> cancelled_in db t (view (w_db w))) (\<lambda>_ _. True)"
proof -
  let ?J = "env_keeps view db ty t" and ?S = "redis_storage R cj db eid timestamp"
  let ?c = "\<lambda>w. cancelled_in db t (view (w_db w))"
  let ?Q = "\<lambda>b w. b \<longrightarrow> ?c w" and ?T = "\<lambda>_ _. True"
  let ?request = "py_except (request_cancel R cj db t) (\<lambda>e. e = FlowTaskNotFound) (\<lambda>_. py_return False)"
  let ?close = "py_except (py_seq (transition_to ?S t CANCELLED) (py_return True)) is_Exception
      (\<lambda>e. if e = FlowInvalidTransition \<or> e = CoreInvalidTransfer then settle_cancel_race ?S t else py_raise e)"
  have close: "triple ?J ?close ?Q ?T"
    by (rule triple_except[OF triple_seq[OF transition_triple[OF assms] hoare(1)]
          triple_if[OF settle_triple[OF assms(1)] hoare(2)]]) auto
  have request: "triple ?J ?request (\<lambda>_. ?J) (\<lambda>_. ?J)"
    by (rule triple_except[OF request_cancel_triple[OF assms] hoare(1)]) auto
  have body: "triple (\<lambda>w. ?J w \<and> X w)
      (py_bind ?request (\<lambda>requested. if \<not> requested then py_return False else ?close)) ?Q ?T" for X
    by (rule triple_bind[OF triple_conseq[OF request] triple_if[OF hoare(1) triple_conseq[OF close]]]) auto
  have rs: "triple (\<lambda>w. ?J w \<and> (rec_word r (status_value CANCELLED) \<longrightarrow> ?c w)) (read_status r)
      (\<lambda>st w. ?J w \<and> (st = CANCELLED \<longrightarrow> ?c w)) ?T" for r
    by (rule triple_conseq[OF read_status_triple]) auto
  show ?thesis
    unfolding lc_cancel_def redis_storage_def storage.simps
    by (rule triple_except[where E' = ?T, OF triple_bind[OF triple_conseq[OF get_task_triple[OF assms(1)]]
          triple_if[OF hoare(1) triple_bind[OF rs triple_if[OF hoare(1) body[unfolded redis_storage_def storage.simps]]]]] hoare(1)]) auto
qed

end

text \<open>C13. Cancelling a task with no other client acting: it always returns; it returns true exactly for a
  task that is stored and not terminal, which is then cancelled with its cancellation flag set;
  otherwise no record changes.\<close>

theorem cancel_outcome:
  assumes "redis_task_store R view cj db" "store_ready view db ty w" "valid_tid t"
    "store_recs view db w t = [] \<or> (\<exists>st. rec_word (store_recs view db w t) (status_value st))"
  shows "\<exists>b w'. lc_cancel (redis_storage R cj db eid timestamp) t w = (Inr b, w')
    \<and> (b \<longleftrightarrow> (\<exists>st. rec_word (store_recs view db w t) (status_value st) \<and> \<not> is_terminal st))
    \<and> (if b then \<exists>r. rec_word r (status_value CANCELLED) \<and> map_of r ''cancel_requested'' = Some (JBool True)
              \<and> store_recs view db w' = (store_recs view db w)(t := r)
       else store_recs view db w' = store_recs view db w)"
  by (rule redis_task_store.cancel_total[OF assms])

definition demo_live :: keyspace where
  "demo_live = ks_put (task_key flow_db ''t'')
     (Some (RStr (TJson (JObj [(''status'', JStr ''running''), (''execution_id'', JStr ''e1'')])))) (Some 1000) (empty_ks 0)"

lemma demo_live_entry:
  "task_entry flow_db demo_live t =
     (if t = ''t'' then Some ([(''status'', JStr ''running''), (''execution_id'', JStr ''e1'')], Some 1000) else None)"
  by (simp add: task_entry_def demo_live_def valid_tid_def)

lemma demo_live_ok: "store_ok flow_db demo_ty demo_live"
  unfolding demo_live_def
  by (rule store_ok_put_record) (simp_all add: store_ok_def flow_db_layout valid_tid_def)

lemma demo_live_ready: "store_ready (\<lambda>ks. ks) flow_db demo_ty (quiet_world demo_live)"
  by (simp add: store_ready_def quiet_def demo_live_ok abs_store_def demo_live_entry)

lemma demo_live_recs: "store_recs (\<lambda>ks. ks) flow_db (quiet_world demo_live) ''t'' = [(''status'', JStr ''running''), (''execution_id'', JStr ''e1'')]"
  by (simp add: store_recs_def abs_store_def demo_live_entry)

lemma demo_live_running: "rec_word (store_recs (\<lambda>ks. ks) flow_db (quiet_world demo_live) ''t'') (status_value st) \<longleftrightarrow> st = RUNNING"
  unfolding demo_live_recs by (cases st) (simp_all add: rec_word_def)

lemma demo_live_pre:
  "\<exists>st. rec_word (store_recs (\<lambda>ks. ks) flow_db (quiet_world demo_live) ''t'') (status_value st) \<and> \<not> is_terminal st"
  "store_recs (\<lambda>ks. ks) flow_db (quiet_world demo_live) ''t'' = []
    \<or> (\<exists>st. rec_word (store_recs (\<lambda>ks. ks) flow_db (quiet_world demo_live) ''t'') (status_value st))"
  "valid_tid ''t''"
  unfolding demo_live_running by (simp_all add: is_terminal_def valid_tid_def)

theorem cancel_outcome_witness:
  "\<exists>w' r. lc_cancel (redis_storage ks_redis demo_cj flow_db ''e1'' ''now'') ''t'' (quiet_world demo_live) = (Inr True, w')
    \<and> store_recs (\<lambda>ks. ks) flow_db w' ''t'' = r \<and> rec_word r (status_value CANCELLED)"
proof -
  from cancel_outcome[OF flow.redis_task_store_axioms demo_live_ready demo_live_pre(3,2), of "''e1''" "''now''"]
  obtain b w' where w': "lc_cancel (redis_storage ks_redis demo_cj flow_db ''e1'' ''now'') ''t'' (quiet_world demo_live) = (Inr b, w')"
    and b: "b = (\<exists>st. rec_word (store_recs (\<lambda>ks. ks) flow_db (quiet_world demo_live) ''t'') (status_value st) \<and> \<not> is_terminal st)"
    and r: "if b then \<exists>r. rec_word r (status_value CANCELLED) \<and> map_of r ''cancel_requested'' = Some (JBool True)
              \<and> store_recs (\<lambda>ks. ks) flow_db w' = (store_recs (\<lambda>ks. ks) flow_db (quiet_world demo_live))(''t'' := r)
       else store_recs (\<lambda>ks. ks) flow_db w' = store_recs (\<lambda>ks. ks) flow_db (quiet_world demo_live)"
    by (elim exE conjE)
  have "b" using b demo_live_pre(1) by (rule ssubst)
  with r obtain r' where "rec_word r' (status_value CANCELLED)"
    "store_recs (\<lambda>ks. ks) flow_db w' = (store_recs (\<lambda>ks. ks) flow_db (quiet_world demo_live))(''t'' := r')"
    unfolding if_P[OF \<open>b\<close>] by (elim exE conjE)
  with w' \<open>b\<close> show ?thesis by (intro exI[of _ w'] exI[of _ r']) simp
qed

text \<open>C14. Cancelling while other clients and faults act: whenever cancel returns true, the task's record is
  cancelled when it returns, whoever wrote that.  The other clients may write anything, terminal
  statuses included; they only keep the store well formed, and a task that is cancelled is
  neither reopened nor expired before cancel returns.\<close>

theorem cancel_true_means_cancelled:
  assumes "redis_service R view" "cjson_ok cj" "0 < td_default_expire_time db" "valid_tid t"
    "env_keeps view db ty t w" "lc_cancel (redis_storage R cj db eid timestamp) t w = (Inr True, w')"
  shows "cancelled_in db t (view (w_db w'))"
  using tripleD(1)[OF redis_service.cancel_triple[OF assms(1,4,3,2)] assms(5,6)] by simp

theorem cancel_true_means_cancelled_witness:
  "\<exists>w'. lc_cancel (redis_storage ks_redis demo_cj flow_db ''e1'' ''now'') ''t'' (quiet_world demo_live) = (Inr True, w')
    \<and> cancelled_in flow_db ''t'' (w_db w')"
proof -
  have e: "0 < td_default_expire_time flow_db" by (simp add: flow_db_def)
  have k: "env_keeps (\<lambda>ks. ks) flow_db demo_ty ''t'' (quiet_world demo_live)" by (simp add: env_keeps_def demo_live_ok)
  have "rec_word (store_recs (\<lambda>ks. ks) flow_db (quiet_world demo_live) ''t'') (status_value RUNNING)" "\<not> is_terminal RUNNING"
    by (simp_all only: demo_live_running is_terminal_def) simp
  from flow.storage.cancel_live[OF demo_live_ready demo_live_pre(3) this]
  obtain w' where w': "lc_cancel (redis_storage ks_redis demo_cj flow_db ''e1'' ''now'') ''t'' (quiet_world demo_live) = (Inr True, w')"
    by (elim exE conjE)
  note true = cancel_true_means_cancelled[OF ks.redis_service_axioms cjson_ok_demo e demo_live_pre(3)]
  from true[OF k w'] w' show ?thesis by (intro exI conjI)
qed

text \<open>C15. A task that disappears between the read and the marking of the cancellation request makes
  cancel raise the storage layer's not-found error: the handlers name the flow layer's error class
  of the same name, although the comment says the task is then treated as non-existent.\<close>

theorem cancel_leaks_storage_error:
  assumes "redis_service R view" "valid_tid t" "\<forall>n. w_fault w n = No_fault"
    "d0 = w_env w (w_pc w) (w_db w)" "d1 = w_env w (Suc (w_pc w)) d0" "d2 = w_env w (Suc (Suc (w_pc w))) d1"
    "store_ok db ty (view d0)" "store_ok db ty (view d1)" "store_ok db ty (view d2)"
    "task_entry db (view d0) t = Some (r, dl)" "rec_word r (status_value st)" "\<not> is_terminal st"
    "task_entry db (view d1) t = Some (r', dl')" "r' \<noteq> []" "task_entry db (view d2) t = None"
  shows "fst (lc_cancel (redis_storage R cj db eid timestamp) t w) = Inl CoreTaskNotFound"
proof -
  note get = redis_service.task_get[OF assms(1) _ assms(2), of db ty]
  have g: "r_get R (task_key db t) d0 = Some (TJson (JObj r))" "r_get R (task_key db t) d1 = Some (TJson (JObj r'))"
    "r_get R (task_key db t) d2 = None"
    using get[OF assms(7)] get[OF assms(8)] get[OF assms(9)] assms(10,13,15) by (simp_all add: abs_store_def)
  have "r \<noteq> []" using assms(11) by (auto simp: rec_word_def)
  have u: "task_update_lua R cj db t u ex d2 = (LErr ''NOT_FOUND'', d2)" for u ex
    using g(3) by (simp add: task_update_lua_def)
  show ?thesis
    using assms(3,11,12,14) \<open>r \<noteq> []\<close> g u
    by (simp add: lc_cancel_def redis_storage_def get_task_def redis_read_def redis_call_def request_cancel_def update_task_def
        read_status_def rec_word_def record_of_def raise_lua_def py_simps Let_def
        assms(4)[symmetric] assms(5)[symmetric] assms(6)[symmetric])
qed

theorem cancel_leaks_storage_error_witness:
  "fst (lc_cancel (redis_storage ks_redis demo_cj flow_db ''e1'' ''now'') ''t''
     ((quiet_world demo_live)\<lparr>w_env := (\<lambda>n ks. if n = 2 then ks_elapse 1000000 ks else ks)\<rparr>)) = Inl CoreTaskNotFound"
proof -
  let ?r = "[(''status'', JStr ''running''), (''execution_id'', JStr ''e1'')]"
  have e: "task_entry flow_db demo_live ''t'' = Some (?r, Some 1000)" by (simp add: demo_live_entry)
  have gone: "task_entry flow_db (ks_elapse 1000000 demo_live) ''t'' = None"
    by (simp add: task_entry_def ks_elapse_def Let_def demo_live_def)
  note leak = cancel_leaks_storage_error[OF ks.redis_service_axioms demo_live_pre(3) _ refl refl refl _ _ _ _ _ _ _ _ _,
      of _ flow_db demo_ty ?r "Some 1000" RUNNING ?r "Some 1000"]
  show ?thesis
    by (rule leak)
      (simp_all add: demo_live_ok abs_elapse(2) e gone rec_word_def is_terminal_def)
qed

end
