(* ===== verification/Workflow_Dag.thy ===== *)
theory Workflow_Dag
  imports Prelude
begin

text \<open>
  The dependency graph of a workflow (\<^verbatim>\<open>flow/workflow/dag.py\<close>, \<^verbatim>\<open>flow/workflow/step.py\<close>): construction with
  the depth-first cycle check, Kahn's topological sort, ready steps and parallel groups.  The
  loops run on fuel bounded by the number of steps, which is shown to be enough.
\<close>

section \<open>Steps\<close>

record wstep =
  ws_name :: string
  ws_dependencies :: "string list"

type_synonym 'z dag = "(string, 'z wstep_scheme) dict"

text \<open>\<^verbatim>\<open>{step.name: step for step in steps}\<close>\<close>

definition dag_steps :: "'z wstep_scheme list \<Rightarrow> 'z dag" where
  "dag_steps steps = fold (\<lambda>s d. dset (ws_name s) s d) steps []"

definition deps_of :: "'z dag \<Rightarrow> string \<Rightarrow> string list" where
  "deps_of d x = (case map_of d x of None \<Rightarrow> [] | Some s \<Rightarrow> ws_dependencies s)"

definition dag_wf :: "'z dag \<Rightarrow> bool" where
  "dag_wf d \<longleftrightarrow> distinct (dkeys d) \<and> (\<forall>(k, s) \<in> set d. ws_name s = k)"

section \<open>Validation\<close>

definition missing_dep :: "'z dag \<Rightarrow> bool" where
  "missing_dep d \<longleftrightarrow> (\<exists>(_, s) \<in> set d. \<exists>dep \<in> set (ws_dependencies s). dep \<notin> set (dkeys d))"

text \<open>\<^verbatim>\<open>has_cycle\<close> and its loop over the dependencies, with the sets visited and rec_stack.  None: out of
  fuel.\<close>

fun has_cycle :: "nat \<Rightarrow> 'z dag \<Rightarrow> string \<Rightarrow> string set \<Rightarrow> string set \<Rightarrow> (bool \<times> string set \<times> string set) option"
  and cycle_deps :: "nat \<Rightarrow> 'z dag \<Rightarrow> string list \<Rightarrow> string set \<Rightarrow> string set \<Rightarrow> (bool \<times> string set \<times> string set) option" where
  "has_cycle 0 d x visited rec_stack = None"
| "has_cycle (Suc n) d x visited rec_stack =
     (case cycle_deps n d (deps_of d x) (insert x visited) (insert x rec_stack) of
        None \<Rightarrow> None
      | Some (b, visited', rec_stack') \<Rightarrow>
          if b then Some (True, visited', rec_stack') else Some (False, visited', rec_stack' - {x}))"
| "cycle_deps n d [] visited rec_stack = Some (False, visited, rec_stack)"
| "cycle_deps n d (dep # deps) visited rec_stack =
     (if dep \<notin> visited then
        (case has_cycle n d dep visited rec_stack of
           None \<Rightarrow> None
         | Some (b, visited', rec_stack') \<Rightarrow>
             if b then Some (True, visited', rec_stack') else cycle_deps n d deps visited' rec_stack')
      else if dep \<in> rec_stack then Some (True, visited, rec_stack)
      else cycle_deps n d deps visited rec_stack)"

fun cycle_scan :: "nat \<Rightarrow> 'z dag \<Rightarrow> string list \<Rightarrow> string set \<Rightarrow> string set \<Rightarrow> bool option" where
  "cycle_scan n d [] visited rec_stack = Some False"
| "cycle_scan n d (x # xs) visited rec_stack =
     (if x \<notin> visited then
        (case has_cycle n d x visited rec_stack of
           None \<Rightarrow> None
         | Some (b, visited', rec_stack') \<Rightarrow> if b then Some True else cycle_scan n d xs visited' rec_stack')
      else cycle_scan n d xs visited rec_stack)"

definition dag_validate :: "'z dag \<Rightarrow> exn + unit" where
  "dag_validate d =
     (if missing_dep d then Inl FlowWorkflowExecution
      else case cycle_scan (length d) d (dkeys d) {} {} of
             None \<Rightarrow> Inl (OtherErr ''RecursionError'')
           | Some cyclic \<Rightarrow> if cyclic then Inl FlowWorkflowExecution else Inr ())"

definition dag_init :: "'z wstep_scheme list \<Rightarrow> exn + 'z dag" where
  "dag_init steps =
     (let d = dag_steps steps in case dag_validate d of Inl e \<Rightarrow> Inl e | Inr _ \<Rightarrow> Inr d)"

section \<open>Topological sort\<close>

text \<open>The body of Kahn's loop for one taken step, then the loop.\<close>

fun kahn_adjacent :: "string \<Rightarrow> 'z dag \<Rightarrow> string list \<times> (string \<Rightarrow> int) \<Rightarrow> string list \<times> (string \<Rightarrow> int)" where
  "kahn_adjacent current [] st = st"
| "kahn_adjacent current ((k, s) # d) (queue, in_degree) =
     kahn_adjacent current d
       (if current \<in> set (ws_dependencies s)
        then let in_degree' = in_degree(ws_name s := in_degree (ws_name s) - 1)
             in (if in_degree' (ws_name s) = 0 then queue @ [ws_name s] else queue, in_degree')
        else (queue, in_degree))"

fun kahn_loop :: "nat \<Rightarrow> 'z dag \<Rightarrow> string list \<Rightarrow> (string \<Rightarrow> int) \<Rightarrow> string list \<Rightarrow> string list option" where
  "kahn_loop n d [] in_degree result = Some result"
| "kahn_loop 0 d (current # queue) in_degree result = None"
| "kahn_loop (Suc n) d (current # queue) in_degree result =
     (let (queue', in_degree') = kahn_adjacent current d (queue, in_degree)
      in kahn_loop n d queue' in_degree' (result @ [current]))"

definition initial_degree :: "'z dag \<Rightarrow> string \<Rightarrow> int" where
  "initial_degree d x = int (length (deps_of d x))"

definition topological_sort :: "'z dag \<Rightarrow> exn + 'z wstep_scheme list" where
  "topological_sort d =
     (case kahn_loop (length d) d (filter (\<lambda>x. initial_degree d x = 0) (dkeys d)) (initial_degree d) [] of
        None \<Rightarrow> Inl (OtherErr ''diverges'')
      | Some result \<Rightarrow>
          if length result \<noteq> length d then Inl FlowWorkflowExecution else Inr (map (\<lambda>x. the (map_of d x)) result))"

section \<open>Ready steps and parallel groups\<close>

definition get_ready_steps :: "'z dag \<Rightarrow> string set \<Rightarrow> 'z wstep_scheme list" where
  "get_ready_steps d completed =
     filter (\<lambda>s. ws_name s \<notin> completed \<and> set (ws_dependencies s) \<subseteq> completed) (map snd d)"

fun groups_loop :: "nat \<Rightarrow> 'z dag \<Rightarrow> string set \<Rightarrow> 'z wstep_scheme list list option" where
  "groups_loop n d completed =
     (if card completed < length d then
        (let ready = get_ready_steps d completed
         in if ready = [] then Some []
            else case n of
                   0 \<Rightarrow> None
                 | Suc m \<Rightarrow> map_option ((#) ready) (groups_loop m d (completed \<union> ws_name ` set ready)))
      else Some [])"

definition get_parallel_groups :: "'z dag \<Rightarrow> 'z wstep_scheme list list" where
  "get_parallel_groups d = (case groups_loop (length d) d {} of None \<Rightarrow> [] | Some g \<Rightarrow> g)"

section \<open>Construction\<close>

lemma dag_wf_set: "dag_wf d \<Longrightarrow> dag_wf (dset (ws_name s) s d)"
  unfolding dag_wf_def using set_dset[of "ws_name s" s d] by (auto simp: distinct_dset)

lemma dag_steps_wf: "dag_wf (dag_steps steps)"
proof -
  have "dag_wf (fold (\<lambda>s d. dset (ws_name s) s d) steps d)" if "dag_wf d" for d
    using that by (induction steps arbitrary: d) (simp_all add: dag_wf_set)
  from this[of "[]"] show ?thesis by (simp add: dag_steps_def) (simp add: dag_wf_def)
qed

text \<open>The edges: a step and a step it depends on.\<close>

definition dep_edges :: "'z dag \<Rightarrow> (string \<times> string) set" where
  "dep_edges d = {(x, y). y \<in> set (deps_of d x)}"

section \<open>The cycle check\<close>

text \<open>\<^term>\<open>settled E D\<close>: no edge leaves \<^term>\<open>D\<close> and no cycle meets it.\<close>

definition settled :: "('a \<times> 'a) set \<Rightarrow> 'a set \<Rightarrow> bool" where
  "settled E D \<longleftrightarrow> E `` D \<subseteq> D \<and> (\<forall>a \<in> D. (a, a) \<notin> E\<^sup>+)"

lemma settled_rtrancl: "settled E D \<Longrightarrow> (a, b) \<in> E\<^sup>* \<Longrightarrow> a \<in> D \<Longrightarrow> b \<in> D"
  unfolding settled_def by (metis Image_closed_trancl ImageI)

lemma settled_insert:
  assumes "settled E D" "E `` {x} \<subseteq> D" "x \<notin> D"
  shows "settled E (insert x D)"
proof -
  have "(x, x) \<notin> E\<^sup>+"
  proof
    assume "(x, x) \<in> E\<^sup>+"
    then obtain y where "(x, y) \<in> E" "(y, x) \<in> E\<^sup>*" by (meson tranclD)
    with assms settled_rtrancl[OF assms(1)] show False by blast
  qed
  with assms show ?thesis unfolding settled_def by blast
qed

text \<open>What a call returns: on True there is a cycle; on False the stack is as before and everything
  that was visited and is not on the stack is settled.\<close>

lemma has_cycle_sound:
  shows "has_cycle n d x V S = Some (b, V', S') \<Longrightarrow> x \<notin> V \<Longrightarrow> S \<subseteq> V \<Longrightarrow> \<forall>s \<in> S. (s, x) \<in> (dep_edges d)\<^sup>+ \<Longrightarrow>
      settled (dep_edges d) (V - S) \<Longrightarrow>
      if b then \<exists>z. (z, z) \<in> (dep_edges d)\<^sup>+
      else S' = S \<and> insert x V \<subseteq> V' \<and> settled (dep_edges d) (V' - S)"
    and "cycle_deps n d ys V S = Some (b, V', S') \<Longrightarrow> S \<subseteq> V \<Longrightarrow>
      \<forall>y \<in> set ys. \<forall>s \<in> S. (s, y) \<in> (dep_edges d)\<^sup>+ \<Longrightarrow> settled (dep_edges d) (V - S) \<Longrightarrow>
      if b then \<exists>z. (z, z) \<in> (dep_edges d)\<^sup>+
      else S' = S \<and> V \<subseteq> V' \<and> set ys \<subseteq> V' - S \<and> settled (dep_edges d) (V' - S)"
proof (induction n d x V S and n d ys V S arbitrary: b V' S' and b V' S' rule: has_cycle_cycle_deps.induct)
  case (2 n d x V S)
  let ?E = "dep_edges d"
  from 2(2) obtain c V1 S1 where c: "cycle_deps n d (deps_of d x) (insert x V) (insert x S) = Some (c, V1, S1)"
    by (auto split: option.splits)
  have edge: "(x, y) \<in> ?E" if "y \<in> set (deps_of d x)" for y using that by (simp add: dep_edges_def)
  have pre: "\<forall>y \<in> set (deps_of d x). \<forall>s \<in> insert x S. (s, y) \<in> ?E\<^sup>+"
    using 2(5) edge by (auto intro: trancl_into_trancl)
  have diff: "insert x V - insert x S = V - S" using 2(3) by blast
  note IH = 2(1)[OF c _ pre, unfolded diff, OF _ 2(6)]
  show ?case
  proof (cases c)
    case True
    with IH 2(2,4) c show ?thesis by auto
  next
    case False
    with IH 2(4) have "S1 = insert x S" "insert x V \<subseteq> V1" "set (deps_of d x) \<subseteq> V1 - insert x S" "settled ?E (V1 - insert x S)"
      by auto
    moreover have "?E `` {x} = set (deps_of d x)" by (auto simp: dep_edges_def)
    moreover have "x \<notin> S" using 2(3,4) by blast
    moreover have "V1 - S = insert x (V1 - insert x S)" using \<open>insert x V \<subseteq> V1\<close> \<open>x \<notin> S\<close> by blast
    ultimately show ?thesis using 2(2) c False settled_insert[of ?E "V1 - insert x S" x] by auto
  qed
next
  case (4 n d dep deps V S)
  show ?case
  proof (cases "dep \<notin> V")
    case True
    with 4(4) obtain c V1 S1 where c: "has_cycle n d dep V S = Some (c, V1, S1)" by (auto split: option.splits)
    note H = 4(1)[OF True c True 4(5) _ 4(7)]
    show ?thesis
    proof (cases c)
      case T: True
      with H 4(4,6) True c show ?thesis by auto
    next
      case F: False
      with H 4(6) have V1: "S1 = S" "insert dep V \<subseteq> V1" "settled (dep_edges d) (V1 - S)" by auto
      from F 4(4) True c have r: "cycle_deps n d deps V1 S1 = Some (b, V', S')" by simp
      have "dep \<notin> S" using True 4(5) by blast
      moreover have "S1 \<subseteq> V1" using V1 4(5) by blast
      ultimately show ?thesis using 4(2)[OF True c refl refl F r] V1 4(6) by (auto split: if_splits)
    qed
  next
    case False
    show ?thesis
    proof (cases "dep \<in> S")
      case True
      with 4(4,6) False show ?thesis by auto
    next
      case F: False
      with 4(3)[OF _ F] False 4(4-7) show ?thesis by (auto split: if_splits)
    qed
  qed
qed auto

text \<open>Fuel: a call takes one unit per step that has not been visited.\<close>

lemma card_remaining:
  assumes "finite N" "V \<subseteq> V'" "card (N - V) \<le> n"
  shows "card (N - V') \<le> n"
proof -
  have "card (N - V') \<le> card (N - V)" using assms(1,2) by (intro card_mono) auto
  with assms(3) show ?thesis by simp
qed

lemma has_cycle_fuel:
  shows "finite N \<Longrightarrow> \<forall>z \<in> N. set (deps_of d z) \<subseteq> N \<Longrightarrow> x \<in> N \<Longrightarrow> x \<notin> V \<Longrightarrow> card (N - V) \<le> n \<Longrightarrow>
      \<exists>b V' S'. has_cycle n d x V S = Some (b, V', S') \<and> V \<subseteq> V'"
    and "finite N \<Longrightarrow> \<forall>z \<in> N. set (deps_of d z) \<subseteq> N \<Longrightarrow> set ys \<subseteq> N \<Longrightarrow> card (N - V) \<le> n \<Longrightarrow>
      \<exists>b V' S'. cycle_deps n d ys V S = Some (b, V', S') \<and> V \<subseteq> V'"
proof (induction n d x V S and n d ys V S rule: has_cycle_cycle_deps.induct)
  case (1 d x V S)
  then have "N - V = {}" by simp
  with 1 show ?case by blast
next
  case (2 n d x V S)
  have "card (N - insert x V) < card (N - V)"
    using 2(2,4,5) by (intro psubset_card_mono) auto
  then have "card (N - insert x V) \<le> n" using 2(6) by simp
  with 2(1)[OF 2(2,3)] 2(3,4) obtain b V1 S1 where
    "cycle_deps n d (deps_of d x) (insert x V) (insert x S) = Some (b, V1, S1)" "insert x V \<subseteq> V1" by blast
  then show ?case by (cases b) auto
next
  case (4 n d dep deps V S)
  show ?case
  proof (cases "dep \<notin> V")
    case True
    with 4(1)[OF True 4(4,5) _ True 4(7)] 4(6) obtain b V1 S1 where
      h: "has_cycle n d dep V S = Some (b, V1, S1)" "V \<subseteq> V1" by auto
    have "card (N - V1) \<le> n" by (rule card_remaining[OF 4(4) h(2) 4(7)])
    then have rest: "\<not> b \<Longrightarrow> \<exists>b V' S'. cycle_deps n d deps V1 S1 = Some (b, V', S') \<and> V1 \<subseteq> V'"
      using 4(2)[OF True h(1) refl refl _ 4(4,5)] 4(6) by simp
    show ?thesis
    proof (cases b)
      case False
      with rest obtain b2 V2 S2 where "cycle_deps n d deps V1 S1 = Some (b2, V2, S2)" "V1 \<subseteq> V2" by blast
      with False h True show ?thesis by (intro exI[of _ b2] exI[of _ V2] exI[of _ S2]) auto
    qed (use h True in auto)
  next
    case False
    with 4(3) 4(4-7) show ?thesis by auto
  qed
qed auto

lemma cycle_scan_correct:
  assumes "finite N" "\<forall>z \<in> N. set (deps_of d z) \<subseteq> N" "set xs \<subseteq> N" "card (N - V) \<le> n" "settled (dep_edges d) V"
  shows "\<exists>b. cycle_scan n d xs V {} = Some b
    \<and> (if b then \<exists>z. (z, z) \<in> (dep_edges d)\<^sup>+ else \<exists>D. settled (dep_edges d) D \<and> V \<union> set xs \<subseteq> D)"
  using assms(3-5)
proof (induction xs arbitrary: V)
  case (Cons x xs)
  show ?case
  proof (cases "x \<notin> V")
    case True
    from has_cycle_fuel(1)[OF assms(1,2) _ True Cons.prems(2), of "{}"] Cons.prems(1) obtain b V1 S1 where
      h: "has_cycle n d x V {} = Some (b, V1, S1)" "V \<subseteq> V1" by auto
    note snd = has_cycle_sound(1)[OF h(1) True]
    have "card (N - V1) \<le> n" by (rule card_remaining[OF assms(1) h(2) Cons.prems(2)])
    show ?thesis
    proof (cases b)
      case True
      with snd h(1) \<open>x \<notin> V\<close> Cons.prems(3) show ?thesis by auto
    next
      case False
      with snd Cons.prems(3) have V1: "settled (dep_edges d) V1" "S1 = {}" "insert x V \<subseteq> V1" by simp_all
      from Cons.IH[OF _ \<open>card (N - V1) \<le> n\<close> V1(1)] Cons.prems(1) obtain c where
        c: "cycle_scan n d xs V1 {} = Some c"
        "if c then \<exists>z. (z, z) \<in> (dep_edges d)\<^sup>+ else \<exists>D. settled (dep_edges d) D \<and> V1 \<union> set xs \<subseteq> D" by auto
      have "cycle_scan n d (x # xs) V {} = Some c" using c(1) h(1) V1(2) False \<open>x \<notin> V\<close> by simp
      moreover have "V \<union> set (x # xs) \<subseteq> V1 \<union> set xs" using V1(3) by auto
      ultimately show ?thesis using c(2) by (intro exI[of _ c] conjI) (auto split: if_splits)
    qed
  next
    case False
    then have "V \<union> set (x # xs) = V \<union> set xs" "cycle_scan n d (x # xs) V {} = cycle_scan n d xs V {}" by auto
    with Cons.IH[OF _ Cons.prems(2,3)] Cons.prems(1) show ?thesis by (simp only: set_simps insert_subset simp_thms)
  qed
qed auto

lemma dep_edges_nodes: "dag_wf d \<Longrightarrow> (x, y) \<in> dep_edges d \<Longrightarrow> x \<in> set (dkeys d)"
  by (cases "map_of d x") (auto simp: dep_edges_def deps_of_def dest!: map_of_SomeD intro: rev_image_eqI)

lemma dag_wf_name: "dag_wf d \<Longrightarrow> (x, s) \<in> set d \<Longrightarrow> ws_name s = x"
  by (auto simp: dag_wf_def)

lemma map_of_dag: "dag_wf d \<Longrightarrow> (x, s) \<in> set d \<longleftrightarrow> map_of d x = Some s"
  by (simp add: dag_wf_def)

lemma missing_dep_iff:
  assumes "dag_wf d"
  shows "missing_dep d \<longleftrightarrow> \<not> (\<forall>x. set (deps_of d x) \<subseteq> set (dkeys d))"
proof -
  have "missing_dep d \<longleftrightarrow> (\<exists>k s. map_of d k = Some s \<and> \<not> set (ws_dependencies s) \<subseteq> set (dkeys d))"
    unfolding missing_dep_def map_of_dag[OF assms, symmetric] by blast
  also have "\<dots> \<longleftrightarrow> (\<exists>k. \<not> set (deps_of d k) \<subseteq> set (dkeys d))"
    by (rule ex_cong1, rename_tac k, case_tac "map_of d k") (simp_all add: deps_of_def)
  finally show ?thesis by simp
qed

lemma dag_validate_eq:
  assumes "dag_wf d"
  shows "dag_validate d = (if \<not> missing_dep d \<and> acyclic (dep_edges d) then Inr () else Inl FlowWorkflowExecution)"
proof (cases "missing_dep d")
  case False
  then have closed: "\<forall>z \<in> set (dkeys d). set (deps_of d z) \<subseteq> set (dkeys d)" using missing_dep_iff[OF assms] by blast
  have e: "settled (dep_edges d) {}" by (simp add: settled_def)
  have "card (set (dkeys d) - {}) \<le> length d" using card_length[of "dkeys d"] by (simp only: Diff_empty length_map)
  from cycle_scan_correct[OF finite_set closed order_refl this e] obtain b where
    b: "cycle_scan (length d) d (dkeys d) {} {} = Some b" and
    r: "if b then \<exists>z. (z, z) \<in> (dep_edges d)\<^sup>+ else \<exists>D. settled (dep_edges d) D \<and> {} \<union> set (dkeys d) \<subseteq> D"
    by (elim exE conjE)
  have "b \<longleftrightarrow> \<not> acyclic (dep_edges d)"
  proof (cases b)
    case False
    with r obtain D where D: "settled (dep_edges d) D" "{} \<union> set (dkeys d) \<subseteq> D" by (simp only: if_False) (elim exE conjE)
    have "(z, z) \<notin> (dep_edges d)\<^sup>+" for z
    proof
      assume z: "(z, z) \<in> (dep_edges d)\<^sup>+"
      then obtain y where "(z, y) \<in> dep_edges d" by (meson tranclD)
      with D(2) dep_edges_nodes[OF assms] have "z \<in> D" by blast
      with z D(1) show False by (simp add: settled_def)
    qed
    with False show ?thesis by (simp add: acyclic_def)
  qed (use r in \<open>auto simp: acyclic_def\<close>)
  with False b show ?thesis by (simp add: dag_validate_def)
qed (simp add: dag_validate_def)

text \<open>C18. A workflow graph is accepted exactly when every dependency names a step and the dependency
  relation has no cycle; otherwise construction raises WorkflowExecutionError.  The depth-first
  search always ends.\<close>

theorem dag_init_correct:
  "dag_init steps =
     (let d = dag_steps steps
      in if (\<forall>x. set (deps_of d x) \<subseteq> set (dkeys d)) \<and> acyclic (dep_edges d) then Inr d else Inl FlowWorkflowExecution)"
  unfolding dag_init_def Let_def dag_validate_eq[OF dag_steps_wf] missing_dep_iff[OF dag_steps_wf] by simp

section \<open>Kahn's algorithm\<close>

lemma kahn_adjacent_eq:
  assumes "dag_wf d"
  shows "kahn_adjacent c d (queue, deg) =
    (queue @ map fst (filter (\<lambda>(k, s). c \<in> set (ws_dependencies s) \<and> deg k = 1) d),
     (\<lambda>x. if \<exists>s. (x, s) \<in> set d \<and> c \<in> set (ws_dependencies s) then deg x - 1 else deg x))"
  using assms
proof (induction d arbitrary: queue deg)
  case (Cons p d)
  obtain k s where p: "p = (k, s)" by (cases p)
  have wf: "dag_wf d" "ws_name s = k" "\<And>t. (k, t) \<notin> set d"
    using Cons.prems by (force simp: dag_wf_def p)+
  have flt: "filter (\<lambda>(k', s). c \<in> set (ws_dependencies s) \<and> (deg(k := v)) k' = 1) d
      = filter (\<lambda>(k', s). c \<in> set (ws_dependencies s) \<and> deg k' = 1) d" for v
    by (rule filter_cong[OF refl]) (use wf(3) in \<open>auto split: if_splits\<close>)
  show ?case
    using Cons.IH[OF wf(1)] wf(2,3) flt by (auto simp: p Let_def fun_eq_iff)
qed simp

definition kahn_inv :: "'z dag \<Rightarrow> string list \<Rightarrow> (string \<Rightarrow> int) \<Rightarrow> string list \<Rightarrow> bool" where
  "kahn_inv d queue deg result \<longleftrightarrow> distinct (result @ queue)
     \<and> set (result @ queue) = {x \<in> set (dkeys d). deg x = 0}
     \<and> (\<forall>x \<in> set (dkeys d). deg x = int (length (deps_of d x)) - int (card (set (deps_of d x) \<inter> set result)))
     \<and> (\<forall>i < length result. set (deps_of d (result ! i)) \<subseteq> set (take i result))"

lemma kahn_zero:
  assumes "int (length xs) - int (card (set xs \<inter> R)) = 0"
  shows "distinct xs" "set xs \<subseteq> R"
proof -
  have "card (set xs \<inter> R) \<le> card (set xs)" by (intro card_mono) auto
  with assms card_length[of xs] have c: "card (set xs \<inter> R) = card (set xs)" "card (set xs) = length xs" by linarith+
  then show "distinct xs" by (simp add: card_distinct)
  have "set xs \<inter> R = set xs" using c(1) by (intro card_subset_eq) auto
  then show "set xs \<subseteq> R" by blast
qed

lemma deps_of_mem:
  assumes "dag_wf d"
  shows "(\<exists>s. (x, s) \<in> set d \<and> c \<in> set (ws_dependencies s)) \<longleftrightarrow> c \<in> set (deps_of d x)"
  unfolding map_of_dag[OF assms] by (cases "map_of d x") (simp_all add: deps_of_def)

lemma kahn_inv_step:
  assumes wf: "dag_wf d" and inv: "kahn_inv d (c # queue) deg result" and st: "kahn_adjacent c d (queue, deg) = (queue', deg')"
  shows "kahn_inv d queue' deg' (result @ [c])"
proof -
  let ?new = "map fst (filter (\<lambda>(k, s). c \<in> set (ws_dependencies s) \<and> deg k = 1) d)"
  have q: "queue' = queue @ ?new" and dg: "deg' x = (if c \<in> set (deps_of d x) then deg x - 1 else deg x)" if "x \<in> set (dkeys d)" for x
    using st kahn_adjacent_eq[OF wf, of c queue deg] deps_of_mem[OF wf, of _ c] by auto
  have dist: "distinct (result @ c # queue)" and mem: "set (result @ c # queue) = {x \<in> set (dkeys d). deg x = 0}"
    and deg: "\<And>x. x \<in> set (dkeys d) \<Longrightarrow> deg x = int (length (deps_of d x)) - int (card (set (deps_of d x) \<inter> set result))"
    and ord: "\<And>i. i < length result \<Longrightarrow> set (deps_of d (result ! i)) \<subseteq> set (take i result)"
    using inv unfolding kahn_inv_def by blast+
  have c: "c \<in> set (dkeys d)" "deg c = 0" "c \<notin> set result" using dist mem by auto
  have new: "set ?new = {x \<in> set (dkeys d). c \<in> set (deps_of d x) \<and> deg x = 1}"
  proof (rule set_eqI)
    fix x
    have "x \<in> set ?new \<longleftrightarrow> (\<exists>s. (x, s) \<in> set d \<and> c \<in> set (ws_dependencies s)) \<and> deg x = 1" by (auto simp: image_iff)
    then show "x \<in> set ?new \<longleftrightarrow> x \<in> {x \<in> set (dkeys d). c \<in> set (deps_of d x) \<and> deg x = 1}"
      unfolding deps_of_mem[OF wf] using dep_edges_nodes[OF wf, of x c] by (simp add: dep_edges_def) blast
  qed
  have free: "c \<notin> set (deps_of d x)" if "x \<in> set (dkeys d)" "deg x = 0" for x
    using kahn_zero(2)[of "deps_of d x" "set result"] deg[OF that(1)] that(2) c(3) by auto
  have q: "queue' = queue @ ?new" using q[OF c(1)] .
  have "distinct ?new" using wf by (simp add: dag_wf_def distinct_map_filter)
  moreover have "set ?new \<inter> set (result @ c # queue) = {}" unfolding new mem by auto
  ultimately have "distinct ((result @ [c]) @ queue')" using dist by (auto simp: q simp del: set_map)
  moreover have "set ((result @ [c]) @ queue') = {x \<in> set (dkeys d). deg' x = 0}"
  proof -
    have "set ((result @ [c]) @ queue') = set (result @ c # queue) \<union> set ?new" by (auto simp: q)
    moreover have "deg' x = 0 \<longleftrightarrow> deg x = 0 \<or> c \<in> set (deps_of d x) \<and> deg x = 1" if "x \<in> set (dkeys d)" for x
      using dg[OF that] free[OF that] by auto
    ultimately show ?thesis unfolding mem new by blast
  qed
  moreover have "deg' x = int (length (deps_of d x)) - int (card (set (deps_of d x) \<inter> set (result @ [c])))"
    if "x \<in> set (dkeys d)" for x
  proof -
    have "set (deps_of d x) \<inter> set (result @ [c]) =
        (if c \<in> set (deps_of d x) then insert c (set (deps_of d x) \<inter> set result) else set (deps_of d x) \<inter> set result)" by auto
    then show ?thesis using dg[OF that] deg[OF that] c(3) by simp
  qed
  moreover have "set (deps_of d ((result @ [c]) ! i)) \<subseteq> set (take i (result @ [c]))" if "i < length (result @ [c])" for i
    using that ord[of i] kahn_zero(2)[of "deps_of d c" "set result"] deg[OF c(1)] c(2)
    by (cases "i < length result") (auto simp: nth_append less_Suc_eq)
  ultimately show ?thesis unfolding kahn_inv_def by blast
qed

lemma kahn_loop_correct:
  assumes "dag_wf d" "kahn_inv d queue deg result" "length d \<le> length result + n"
  shows "\<exists>r deg'. kahn_loop n d queue deg result = Some r \<and> kahn_inv d [] deg' r"
  using assms
proof (induction n d queue deg result rule: kahn_loop.induct)
  case (2 d c queue deg result)
  have "length (result @ c # queue) \<le> length d"
  proof -
    have "distinct (result @ c # queue)" "set (result @ c # queue) \<subseteq> set (dkeys d)" using 2(2) by (auto simp: kahn_inv_def)
    from card_mono[OF _ this(2)] distinct_card[OF this(1)] card_length[of "dkeys d"] show ?thesis by simp
  qed
  with 2(3) show ?case by simp
next
  case (3 n d c queue deg result)
  obtain queue' deg' where st: "kahn_adjacent c d (queue, deg) = (queue', deg')" by (cases "kahn_adjacent c d (queue, deg)")
  from 3(1)[OF st[symmetric] refl 3(2) kahn_inv_step[OF 3(2,3) st]] 3(4) st show ?case by simp
qed auto

lemma kahn_inv_initial:
  assumes "dag_wf d"
  shows "kahn_inv d (filter (\<lambda>x. initial_degree d x = 0) (dkeys d)) (initial_degree d) []"
proof -
  have "distinct (dkeys d)" using assms by (simp add: dag_wf_def)
  then show ?thesis by (simp add: kahn_inv_def initial_degree_def)
qed

lemma finite_dep_edges: "dag_wf d \<Longrightarrow> finite (dep_edges d)"
  using dep_edges_nodes[of d]
  by (intro finite_subset[of "dep_edges d" "Sigma (set (dkeys d)) (\<lambda>x. set (deps_of d x))"]) (auto simp: dep_edges_def)

text \<open>Every step is reached by a set that contains a step as soon as it contains what the step depends on.\<close>

lemma acyclic_closure:
  assumes "dag_wf d" "acyclic (dep_edges d)" "\<And>x. set (deps_of d x) \<subseteq> A" "\<And>x. x \<in> A \<Longrightarrow> set (deps_of d x) \<subseteq> P \<Longrightarrow> x \<in> P"
  shows "A \<subseteq> P"
proof
  fix x assume "x \<in> A"
  have "wf ((dep_edges d)\<inverse>)" using finite_dep_edges[OF assms(1)] assms(2) by (rule finite_acyclic_wf_converse)
  then show "x \<in> P" using \<open>x \<in> A\<close>
  proof (induction x rule: wf_induct_rule)
    case (less x)
    have "y \<in> P" if "y \<in> set (deps_of d x)" for y
      using less that assms(3)[of x] by (auto simp: dep_edges_def)
    with assms(4)[OF less(2)] show ?case by blast
  qed
qed

lemma dag_initD:
  assumes "dag_init steps = Inr d"
  shows "dag_wf d" "\<And>x. set (deps_of d x) \<subseteq> set (dkeys d)" "acyclic (dep_edges d)"
proof -
  have "dag_steps steps = d" "dag_validate d = Inr ()"
    using assms by (auto simp: dag_init_def Let_def split: sum.splits)
  with dag_steps_wf[of steps] dag_validate_eq[of d] missing_dep_iff[of d]
  show "dag_wf d" "\<And>x. set (deps_of d x) \<subseteq> set (dkeys d)" "acyclic (dep_edges d)"
    by (metis Inl_Inr_False)+
qed

lemma kahn_result:
  assumes "dag_wf d"
  obtains r deg where "topological_sort d =
      (if length r \<noteq> length d then Inl FlowWorkflowExecution else Inr (map (\<lambda>x. the (map_of d x)) r))" "kahn_inv d [] deg r"
  using kahn_loop_correct[OF assms kahn_inv_initial[OF assms], of "length d"]
  by (auto simp: topological_sort_def)

lemma dag_lookup:
  assumes "dag_wf d" "x \<in> set (dkeys d)"
  shows "ws_name (the (map_of d x)) = x" "ws_dependencies (the (map_of d x)) = deps_of d x"
    "(x, the (map_of d x)) \<in> set d"
proof -
  from assms(2) obtain s where s: "(x, s) \<in> set d" by auto
  with map_of_dag[OF assms(1)] have "map_of d x = Some s" by simp
  with s assms(1) show "ws_name (the (map_of d x)) = x" "ws_dependencies (the (map_of d x)) = deps_of d x"
    "(x, the (map_of d x)) \<in> set d"
    by (auto simp: dag_wf_def deps_of_def)
qed

lemma dag_lookup_image:
  assumes "dag_wf d"
  shows "(\<lambda>x. the (map_of d x)) ` set (dkeys d) = snd ` set d"
proof -
  have "the (map_of d (fst p)) = snd p" if "p \<in> set d" for p
    using that map_of_dag[OF assms, of "fst p" "snd p"] by simp
  then show ?thesis by (simp add: image_image)
qed

lemma topological_sort_names:
  assumes "dag_wf d" "topological_sort d = Inr order"
  shows "distinct (map ws_name order)"
proof -
  obtain r deg where ts: "topological_sort d =
      (if length r \<noteq> length d then Inl FlowWorkflowExecution else Inr (map (\<lambda>x. the (map_of d x)) r))"
    and inv: "kahn_inv d [] deg r" using kahn_result[OF assms(1)] by metis
  then have r: "order = map (\<lambda>x. the (map_of d x)) r" using assms(2) by (simp split: if_splits)
  have "map ws_name order = map id r"
    unfolding r map_map by (rule map_cong[OF refl]) (use inv dag_lookup(1)[OF assms(1)] in \<open>auto simp: kahn_inv_def\<close>)
  then show ?thesis using inv by (simp add: kahn_inv_def)
qed

text \<open>C19. On an accepted graph in which no step lists a dependency twice the topological sort returns
  every step exactly once, each after all the steps it depends on.\<close>

theorem topological_sort_orders:
  assumes "dag_init steps = Inr d" "\<forall>x. distinct (deps_of d x)"
  shows "\<exists>order. topological_sort d = Inr order \<and> distinct (map ws_name order) \<and> set order = set (map snd d)
    \<and> (\<forall>i < length order. set (ws_dependencies (order ! i)) \<subseteq> ws_name ` set (take i order))"
proof -
  note wf = dag_initD(1)[OF assms(1)]
  obtain r deg where ts: "topological_sort d =
      (if length r \<noteq> length d then Inl FlowWorkflowExecution else Inr (map (\<lambda>x. the (map_of d x)) r))"
    and inv: "kahn_inv d [] deg r" using kahn_result[OF wf] by metis
  have dist: "distinct r" and mem: "set r = {x \<in> set (dkeys d). deg x = 0}"
    and deg: "\<And>x. x \<in> set (dkeys d) \<Longrightarrow> deg x = int (length (deps_of d x)) - int (card (set (deps_of d x) \<inter> set r))"
    and ord: "\<And>i. i < length r \<Longrightarrow> set (deps_of d (r ! i)) \<subseteq> set (take i r)"
    using inv unfolding kahn_inv_def append_Nil2 by blast+
  have "set (dkeys d) \<subseteq> set r"
  proof (rule acyclic_closure[OF wf dag_initD(3,2)[OF assms(1)]])
    fix x assume x: "x \<in> set (dkeys d)" "set (deps_of d x) \<subseteq> set r"
    then have "set (deps_of d x) \<inter> set r = set (deps_of d x)" by blast
    with deg[OF x(1)] distinct_card[of "deps_of d x"] assms(2) have "deg x = 0" by simp
    with x(1) show "x \<in> set r" unfolding mem by blast
  qed
  then have keys: "set r = set (dkeys d)" using mem by blast
  have len: "length r = length d"
    using distinct_card[OF dist] distinct_card[of "dkeys d"] wf keys by (simp add: dag_wf_def)
  let ?order = "map (\<lambda>x. the (map_of d x)) r"
  have name: "ws_name (the (map_of d x)) = x" "ws_dependencies (the (map_of d x)) = deps_of d x" if "x \<in> set r" for x
    using dag_lookup[OF wf] that keys by blast+
  have names: "map ws_name ?order = r" using name(1) by (simp add: map_idI)
  have "set ?order = set (map snd d)" using dag_lookup_image[OF wf] keys by simp
  moreover have "set (ws_dependencies (?order ! i)) \<subseteq> ws_name ` set (take i ?order)" if "i < length ?order" for i
  proof -
    have "ws_name ` set (take i ?order) = set (take i r)" using names by (metis list.set_map take_map)
    then show ?thesis using ord[of i] name(2)[of "r ! i"] that by simp
  qed
  ultimately show ?thesis using ts len names dist by (intro exI[of _ ?order]) simp
qed

definition demo_steps :: "wstep list" where
  "demo_steps = [\<lparr>ws_name = ''embed'', ws_dependencies = [''chunk'', ''parse'']\<rparr>,
     \<lparr>ws_name = ''chunk'', ws_dependencies = [''parse'']\<rparr>, \<lparr>ws_name = ''parse'', ws_dependencies = []\<rparr>]"

lemma demo_dag: "dag_init demo_steps = Inr (map (\<lambda>s. (ws_name s, s)) demo_steps)"
  by (simp add: demo_steps_def dag_init_def dag_steps_def dag_validate_def missing_dep_def deps_of_def Let_def eval_nat_numeral)

theorem topological_sort_orders_witness:
  "topological_sort (map (\<lambda>s. (ws_name s, s)) demo_steps) = Inr (rev demo_steps)
   \<and> (\<exists>order. topological_sort (map (\<lambda>s. (ws_name s, s)) demo_steps) = Inr order \<and> distinct (map ws_name order))"
proof -
  have "\<forall>x. distinct (deps_of (map (\<lambda>s. (ws_name s, s)) demo_steps) x)"
    by (simp add: demo_steps_def deps_of_def)
  from topological_sort_orders[OF demo_dag this] show ?thesis
    by (auto simp: topological_sort_def demo_steps_def initial_degree_def deps_of_def Let_def eval_nat_numeral)
qed

lemma topological_sort_twice:
  assumes "dag_init steps = Inr d" "x \<in> set (dkeys d)" "\<not> distinct (deps_of d x)"
  shows "topological_sort d = Inl FlowWorkflowExecution"
proof -
  note wf = dag_initD(1)[OF assms(1)]
  obtain r deg where ts: "topological_sort d =
      (if length r \<noteq> length d then Inl FlowWorkflowExecution else Inr (map (\<lambda>x. the (map_of d x)) r))"
    and inv: "kahn_inv d [] deg r" using kahn_result[OF wf] by metis
  have dist: "distinct r" and mem: "set r = {x \<in> set (dkeys d). deg x = 0}"
    and deg: "deg x = int (length (deps_of d x)) - int (card (set (deps_of d x) \<inter> set r))"
    using inv assms(2) unfolding kahn_inv_def append_Nil2 by blast+
  have "x \<notin> set r" using kahn_zero(1)[of "deps_of d x" "set r"] deg assms(3) mem by auto
  with mem assms(2) have "set r \<subset> set (dkeys d)" by blast
  from psubset_card_mono[OF _ this] have "length r < length d"
    using distinct_card[OF dist] card_length[of "dkeys d"] by simp
  with ts show ?thesis by simp
qed

text \<open>An accepted graph in which some step lists a dependency twice cannot be sorted: Kahn's loop
  counts the dependency twice and discounts it once, so that the sort reports a circular
  dependency that does not exist.\<close>

theorem topological_sort_duplicate_dependency:
  assumes "dag_init steps = Inr d" "x \<in> set (dkeys d)" "\<not> distinct (deps_of d x)"
  shows "topological_sort d = Inl FlowWorkflowExecution \<and> acyclic (dep_edges d)"
  using topological_sort_twice[OF assms] dag_initD(3)[OF assms(1)] by simp

definition demo_twice :: "wstep list" where
  "demo_twice = [\<lparr>ws_name = ''a'', ws_dependencies = []\<rparr>, \<lparr>ws_name = ''b'', ws_dependencies = [''a'', ''a'']\<rparr>]"

theorem topological_sort_duplicate_dependency_witness:
  "\<exists>d. dag_init demo_twice = Inr d \<and> topological_sort d = Inl FlowWorkflowExecution"
proof -
  let ?d = "map (\<lambda>s. (ws_name s, s)) demo_twice"
  have i: "dag_init demo_twice = Inr ?d"
    by (simp add: demo_twice_def dag_init_def dag_steps_def dag_validate_def missing_dep_def deps_of_def Let_def eval_nat_numeral)
  have "''b'' \<in> set (dkeys ?d)" "\<not> distinct (deps_of ?d ''b'')" by (simp_all add: demo_twice_def deps_of_def)
  from topological_sort_duplicate_dependency[OF i this] i show ?thesis by blast
qed

section \<open>Parallel groups\<close>

declare groups_loop.simps [simp del]

lemma ready_steps:
  assumes "dag_wf d"
  shows "ws_name ` set (get_ready_steps d C) = {x \<in> set (dkeys d). x \<notin> C \<and> set (deps_of d x) \<subseteq> C}"
    "distinct (map ws_name (get_ready_steps d C))" "set (get_ready_steps d C) \<subseteq> snd ` set d"
proof -
  have nm: "ws_name s = k" "ws_dependencies s = deps_of d k" if "(k, s) \<in> set d" for k s
    using that assms map_of_dag[OF assms, of k s] by (auto simp: dag_wf_def deps_of_def)
  let ?F = "filter (\<lambda>p. fst p \<notin> C \<and> set (deps_of d (fst p)) \<subseteq> C) d"
  have nm': "ws_name (snd p) = fst p" "ws_dependencies (snd p) = deps_of d (fst p)" if "p \<in> set d" for p
    using nm[of "fst p" "snd p"] that by simp_all
  have eq: "get_ready_steps d C = map snd ?F"
    unfolding get_ready_steps_def filter_map comp_def by (rule arg_cong, rule filter_cong[OF refl]) (simp add: nm')
  have names: "map ws_name (map snd ?F) = map fst ?F"
    unfolding map_map comp_def by (rule map_cong[OF refl]) (simp add: nm'(1))
  have "ws_name ` set (get_ready_steps d C) = set (map fst ?F)" by (simp only: eq names[symmetric] list.set_map)
  then show "ws_name ` set (get_ready_steps d C) = {x \<in> set (dkeys d). x \<notin> C \<and> set (deps_of d x) \<subseteq> C}" by auto
  show "distinct (map ws_name (get_ready_steps d C))"
    unfolding eq names using assms by (simp add: dag_wf_def distinct_map_filter)
  show "set (get_ready_steps d C) \<subseteq> snd ` set d" by (auto simp: get_ready_steps_def)
qed

lemma ready_progress:
  assumes "dag_wf d" "acyclic (dep_edges d)" "\<And>x. set (deps_of d x) \<subseteq> set (dkeys d)" "get_ready_steps d C = []"
  shows "set (dkeys d) \<subseteq> C"
  by (rule acyclic_closure[OF assms(1-3)]) (use ready_steps(1)[OF assms(1), of C] assms(4) in auto)

lemma groups_loop_correct:
  assumes "dag_wf d" "acyclic (dep_edges d)" "\<And>x. set (deps_of d x) \<subseteq> set (dkeys d)"
    "completed \<subseteq> set (dkeys d)" "length d \<le> card completed + n"
  shows "\<exists>gs. groups_loop n d completed = Some gs \<and> distinct (map ws_name (concat gs))
    \<and> ws_name ` set (concat gs) = set (dkeys d) - completed \<and> set (concat gs) \<subseteq> snd ` set d
    \<and> (\<forall>i < length gs. gs ! i = get_ready_steps d (completed \<union> ws_name ` set (concat (take i gs))))"
  using assms(4,5)
proof (induction n arbitrary: completed)
  case 0
  have "card (set (dkeys d)) \<le> card completed" using 0(2) card_length[of "dkeys d"] by simp
  with 0(1) have "completed = set (dkeys d)" by (intro card_seteq) auto
  with 0 show ?case by (simp add: groups_loop.simps[of 0])
next
  case (Suc n)
  let ?ready = "get_ready_steps d completed"
  let ?C = "completed \<union> ws_name ` set ?ready"
  have fin: "finite completed" by (rule finite_subset[OF Suc.prems(1)]) simp
  show ?case
  proof (cases "card completed < length d")
    case False
    then have "completed = set (dkeys d)"
      using Suc.prems(1) card_length[of "dkeys d"] by (intro card_seteq) auto
    with False show ?thesis by (simp add: groups_loop.simps[of "Suc n"])
  next
    case True
    have "?ready \<noteq> []"
    proof
      assume "?ready = []"
      from ready_progress[OF assms(1-3) this] have "set (dkeys d) \<subseteq> completed" .
      with card_mono[OF fin this] distinct_card[of "dkeys d"] assms(1) True show False by (simp add: dag_wf_def)
    qed
    have rn: "ws_name ` set ?ready = {x \<in> set (dkeys d). x \<notin> completed \<and> set (deps_of d x) \<subseteq> completed}"
      by (rule ready_steps(1)[OF assms(1)])
    from \<open>?ready \<noteq> []\<close> obtain a where "a \<in> set ?ready" by (meson list.set_sel(1))
    with rn have "ws_name a \<in> ?C" "ws_name a \<notin> completed" by blast+
    then have "completed \<subset> ?C" by blast
    then have "card completed < card ?C" using fin by (intro psubset_card_mono) auto
    then have "length d \<le> card ?C + n" using Suc.prems(2) by simp
    moreover have "?C \<subseteq> set (dkeys d)" using Suc.prems(1) rn by blast
    ultimately obtain gs where gs: "groups_loop n d ?C = Some gs" "distinct (map ws_name (concat gs))"
      "ws_name ` set (concat gs) = set (dkeys d) - ?C" "set (concat gs) \<subseteq> snd ` set d"
      "\<forall>i < length gs. gs ! i = get_ready_steps d (?C \<union> ws_name ` set (concat (take i gs)))"
      using Suc.IH[of ?C] by blast
    have run: "groups_loop (Suc n) d completed = Some (?ready # gs)"
      using True \<open>?ready \<noteq> []\<close> gs(1) by (simp add: groups_loop.simps[of "Suc n"] Let_def)
    have "distinct (map ws_name (concat (?ready # gs)))"
      using gs(2,3) ready_steps(2)[OF assms(1), of completed] by auto
    moreover have "ws_name ` set (concat (?ready # gs)) = set (dkeys d) - completed"
      using gs(3) rn by (simp only: concat.simps set_append image_Un) blast
    moreover have "set (concat (?ready # gs)) \<subseteq> snd ` set d" using gs(4) ready_steps(3)[OF assms(1), of completed] by simp
    moreover have "(?ready # gs) ! i = get_ready_steps d (completed \<union> ws_name ` set (concat (take i (?ready # gs))))"
      if "i < length (?ready # gs)" for i
      using that gs(5) by (cases i) (simp_all add: image_Un Un_assoc)
    ultimately show ?thesis using run by blast
  qed
qed

lemma parallel_groups_run:
  assumes "dag_init steps = Inr d"
  shows "distinct (map ws_name (concat (get_parallel_groups d)))" "set (concat (get_parallel_groups d)) = set (map snd d)"
    "\<And>i. i < length (get_parallel_groups d) \<Longrightarrow>
      get_parallel_groups d ! i = get_ready_steps d (ws_name ` set (concat (take i (get_parallel_groups d))))"
proof -
  note wf = dag_initD[OF assms]
  from groups_loop_correct[OF wf(1,3,2), of "{}" "length d"] obtain gs where
    gs: "groups_loop (length d) d {} = Some gs" "distinct (map ws_name (concat gs))"
    "ws_name ` set (concat gs) = set (dkeys d) - {}" "set (concat gs) \<subseteq> snd ` set d"
    "\<forall>i < length gs. gs ! i = get_ready_steps d ({} \<union> ws_name ` set (concat (take i gs)))" by auto
  have g: "get_parallel_groups d = gs" using gs(1) by (simp add: get_parallel_groups_def)
  have "snd ` set d \<subseteq> set (concat gs)"
  proof
    fix s assume "s \<in> snd ` set d"
    then obtain k where k: "(k, s) \<in> set d" by auto
    then have "k \<in> ws_name ` set (concat gs)" unfolding gs(3) by (force simp: image_iff)
    then obtain t where t: "t \<in> set (concat gs)" "ws_name t = k" by auto
    with gs(4) obtain k' where "(k', t) \<in> set d" by auto
    with t(2) wf(1) have "(k, t) \<in> set d" by (auto simp: dag_wf_def)
    with k map_of_dag[OF wf(1)] have "t = s" by simp
    with t(1) show "s \<in> set (concat gs)" by simp
  qed
  with gs show "distinct (map ws_name (concat (get_parallel_groups d)))" "set (concat (get_parallel_groups d)) = set (map snd d)"
    "\<And>i. i < length (get_parallel_groups d) \<Longrightarrow>
      get_parallel_groups d ! i = get_ready_steps d (ws_name ` set (concat (take i (get_parallel_groups d))))"
    unfolding g by auto
qed

text \<open>C20. On an accepted graph the parallel groups contain every step exactly once, and the i-th group
  consists of exactly the steps that are not in an earlier group and depend on steps of earlier
  groups only: no step can run before what it depends on, and none waits longer than it must.\<close>

theorem parallel_groups_correct:
  assumes "dag_init steps = Inr d"
  shows "distinct (map ws_name (concat (get_parallel_groups d))) \<and> set (concat (get_parallel_groups d)) = set (map snd d)
    \<and> (\<forall>i < length (get_parallel_groups d). \<forall>s \<in> set (map snd d).
         let earlier = ws_name ` set (concat (take i (get_parallel_groups d)))
         in s \<in> set (get_parallel_groups d ! i) \<longleftrightarrow> ws_name s \<notin> earlier \<and> set (ws_dependencies s) \<subseteq> earlier)"
  using parallel_groups_run[OF assms] by (auto simp: get_ready_steps_def Let_def)

theorem parallel_groups_correct_witness:
  "get_parallel_groups (map (\<lambda>s. (ws_name s, s)) demo_steps) = [[demo_steps ! 2], [demo_steps ! 1], [demo_steps ! 0]]
   \<and> distinct (map ws_name (concat (get_parallel_groups (map (\<lambda>s. (ws_name s, s)) demo_steps))))"
  using parallel_groups_correct[OF demo_dag]
  by (simp add: get_parallel_groups_def groups_loop.simps get_ready_steps_def demo_steps_def Let_def)

end
