(* ===== verification/Workflow_Run.thy ===== *)
theory Workflow_Run
  imports Workflow_Dag
begin

text \<open>
  Running a workflow: retry policies (\<^verbatim>\<open>flow/retry/policy.py\<close>, \<^verbatim>\<open>flow/retry/backoff.py\<close>), the executor
  (\<^verbatim>\<open>flow/workflow/executor.py\<close>) and the compensation of a failed run (\<^verbatim>\<open>flow/workflow/saga.py\<close>).  Handlers
  are arbitrary statements on a world.  The event loop is a parameter: what sleeping and waiting
  with a timeout do, and in which order the steps of a parallel group settle.
\<close>

section \<open>Backoff\<close>

datatype backoff =
    ExponentialBackoff real real real
  | LinearBackoff real real real
  | ConstantBackoff real

fun calculate :: "backoff \<Rightarrow> nat \<Rightarrow> real" where
  "calculate (ExponentialBackoff base multiplier max_delay) attempt = min (base * multiplier ^ attempt) max_delay"
| "calculate (LinearBackoff base increment max_delay) attempt = min (base + increment * real attempt) max_delay"
| "calculate (ConstantBackoff delay) attempt = delay"

section \<open>Retry policy\<close>

text \<open>\<^term>\<open>rp_dlq\<close> is the add method of the dead letter queue, when it is enabled and present.\<close>

record 's retry_policy =
  rp_max_attempts :: int
  rp_backoff :: backoff
  rp_retryable :: "exn \<Rightarrow> bool"
  rp_dlq :: "(exn \<Rightarrow> ('s, unit) py) option"

definition retry_policy_init :: "'s retry_policy \<Rightarrow> exn + 's retry_policy" where
  "retry_policy_init p = (if rp_max_attempts p < 1 then Inl ValueErr else Inr p)"

definition send_to_dlq :: "'s retry_policy \<Rightarrow> exn \<Rightarrow> ('s, unit) py" where
  "send_to_dlq p e =
     (case rp_dlq p of
        None \<Rightarrow> py_return ()
      | Some add \<Rightarrow> py_except (add e) is_Exception (\<lambda>_. py_return ()))"

text \<open>The attempts from number \<^term>\<open>attempt\<close> on; \<^term>\<open>n\<close> counts those after it.\<close>

fun retry_from :: "'s retry_policy \<Rightarrow> (real \<Rightarrow> ('s, unit) py) \<Rightarrow> ('s, 'a) py \<Rightarrow> nat \<Rightarrow> nat \<Rightarrow> ('s, 'a) py" where
  "retry_from p sleep func attempt 0 =
     py_except func (rp_retryable p) (\<lambda>e. py_seq (send_to_dlq p e) (py_raise e))"
| "retry_from p sleep func attempt (Suc n) =
     (\<lambda>s. case func s of
        (Inr x, s') \<Rightarrow> (Inr x, s')
      | (Inl e, s') \<Rightarrow>
          if rp_retryable p e
          then py_seq (sleep (calculate (rp_backoff p) attempt)) (retry_from p sleep func (Suc attempt) n) s'
          else (Inl e, s'))"

definition execute_with_retry :: "'s retry_policy \<Rightarrow> (real \<Rightarrow> ('s, unit) py) \<Rightarrow> ('s, 'a) py \<Rightarrow> ('s, 'a) py" where
  "execute_with_retry p sleep func = retry_from p sleep func 0 (nat (rp_max_attempts p - 1))"

section \<open>Executor\<close>

record ('s, 'c, 'v) workflow_step = wstep +
  ws_handler :: "'c \<Rightarrow> (string, 'v) dict \<Rightarrow> ('s, 'v) py"
  ws_rollback_handler :: "('v option \<Rightarrow> ('s, unit) py) option"
  ws_retry_policy :: "'s retry_policy option"
  ws_timeout :: "real option"

record ('s, 'v) wf_state =
  wf_world :: 's
  wf_results :: "(string, 'v) dict"
  wf_completed :: "string list"

text \<open>\<^term>\<open>lp_cut\<close> is what a step that is cancelled on the way has done to the world.\<close>

record ('s, 'v) aio =
  lp_sleep :: "real \<Rightarrow> ('s, unit) py"
  lp_wait_for :: "real \<Rightarrow> ('s, 'v) py \<Rightarrow> ('s, 'v) py"
  lp_cut :: "string \<Rightarrow> 's \<Rightarrow> 's"

definition in_world :: "('s, 'a) py \<Rightarrow> (('s, 'v) wf_state, 'a) py" where
  "in_world m st = (case m (wf_world st) of (r, w) \<Rightarrow> (r, st\<lparr>wf_world := w\<rparr>))"

definition effective_handler ::
  "('s, 'v) aio \<Rightarrow> ('s, 'c, 'v) workflow_step \<Rightarrow> 'c \<Rightarrow> (string, 'v) dict \<Rightarrow> ('s, 'v) py" where
  "effective_handler aio step ctx results =
     (case ws_retry_policy step of
        None \<Rightarrow> ws_handler step ctx results
      | Some p \<Rightarrow> execute_with_retry p (lp_sleep aio) (ws_handler step ctx results))"

definition execute_step ::
  "('s, 'v) aio \<Rightarrow> 'c \<Rightarrow> ('s, 'c, 'v) workflow_step \<Rightarrow> (('s, 'v) wf_state, unit) py" where
  "execute_step aio ctx step =
     py_bind (py_get wf_results) (\<lambda>results.
       let run = effective_handler aio step ctx results
       in py_bind
            (in_world (case ws_timeout step of
                         None \<Rightarrow> run
                       | Some t \<Rightarrow> if t = 0 then run else lp_wait_for aio t run))
            (\<lambda>result. py_modify (\<lambda>st. st\<lparr>wf_results := dset (ws_name step) result (wf_results st),
                wf_completed := ws_name step # removeAll (ws_name step) (wf_completed st)\<rparr>)))"

definition execute_sequential ::
  "('s, 'v) aio \<Rightarrow> (string, ('s, 'c, 'v) workflow_step) dict \<Rightarrow> 'c \<Rightarrow> (('s, 'v) wf_state, unit) py" where
  "execute_sequential aio d ctx =
     (case topological_sort d of
        Inl e \<Rightarrow> py_raise e
      | Inr order \<Rightarrow> py_for order (execute_step aio ctx))"

text \<open>A parallel group: the steps in the order in which they settle.  After the first failure the others
  are cancelled; a step marked true is stopped by that, one marked false still settles by itself.\<close>

fun settle_group ::
  "('s, 'v) aio \<Rightarrow> 'c \<Rightarrow> exn option \<Rightarrow> (('s, 'c, 'v) workflow_step \<times> bool) list \<Rightarrow> (('s, 'v) wf_state, unit) py" where
  "settle_group aio ctx failed [] = (case failed of None \<Rightarrow> py_return () | Some e \<Rightarrow> py_raise e)"
| "settle_group aio ctx failed ((step, stopped) # rest) =
     (if failed \<noteq> None \<and> stopped
      then py_seq (py_modify (\<lambda>st. st\<lparr>wf_world := lp_cut aio (ws_name step) (wf_world st)\<rparr>)) (settle_group aio ctx failed rest)
      else (\<lambda>st. case execute_step aio ctx step st of
              (Inr _, st') \<Rightarrow> settle_group aio ctx failed rest st'
            | (Inl e, st') \<Rightarrow> settle_group aio ctx (if failed = None then Some e else failed) rest st'))"

definition execute_parallel ::
  "('s, 'v) aio \<Rightarrow> (string, ('s, 'c, 'v) workflow_step) dict \<Rightarrow> 'c \<Rightarrow>
   (('s, 'c, 'v) workflow_step list \<Rightarrow> (('s, 'c, 'v) workflow_step \<times> bool) list) \<Rightarrow> (('s, 'v) wf_state, unit) py" where
  "execute_parallel aio d ctx sched =
     py_for (get_parallel_groups d) (\<lambda>group. settle_group aio ctx None (sched group))"

section \<open>Saga\<close>

definition rollback_step :: "('s, 'c, 'v) workflow_step \<Rightarrow> (('s, 'v) wf_state, unit) py" where
  "rollback_step step =
     py_bind (py_get (\<lambda>st. (ws_name step \<in> set (wf_completed st), map_of (wf_results st) (ws_name step)))) (\<lambda>(completed, result).
       case ws_rollback_handler step of
         None \<Rightarrow> py_return ()
       | Some handler \<Rightarrow>
           if completed then py_except (in_world (handler result)) is_Exception (\<lambda>_. py_return ()) else py_return ())"

definition rollback :: "(string, ('s, 'c, 'v) workflow_step) dict \<Rightarrow> (('s, 'v) wf_state, unit) py" where
  "rollback d =
     (case topological_sort d of
        Inl e \<Rightarrow> py_raise e
      | Inr order \<Rightarrow> py_for (rev order) rollback_step)"

text \<open>\<^verbatim>\<open>execute\<close>: \<^term>\<open>sched\<close> is None for sequential execution.\<close>

definition execute_workflow ::
  "('s, 'v) aio \<Rightarrow> (string, ('s, 'c, 'v) workflow_step) dict \<Rightarrow> 'c \<Rightarrow>
   (('s, 'c, 'v) workflow_step list \<Rightarrow> (('s, 'c, 'v) workflow_step \<times> bool) list) option \<Rightarrow>
   (('s, 'v) wf_state, (string, 'v) dict) py" where
  "execute_workflow aio d ctx sched =
     py_except
       (py_seq (case sched of None \<Rightarrow> execute_sequential aio d ctx | Some sc \<Rightarrow> execute_parallel aio d ctx sc)
          (py_get wf_results))
       is_Exception
       (\<lambda>_. py_seq (rollback d) (py_raise FlowWorkflowExecution))"

definition wf_start :: "'s \<Rightarrow> ('s, 'v) wf_state" where
  "wf_start w = \<lparr>wf_world = w, wf_results = [], wf_completed = []\<rparr>"

section \<open>Properties of retrying\<close>

lemma calculate_bounded:
  "calculate (ExponentialBackoff b m mx) n \<le> mx" "calculate (LinearBackoff b i mx) n \<le> mx"
  by simp_all

text \<open>A scripted function: each call takes the next outcome; calls, sleeps and dead letters are logged.\<close>

datatype retry_event = Called | Slept real | Dead exn

type_synonym 'a scripted = "(exn + 'a) list \<times> retry_event list"

definition scripted_call :: "('a scripted, 'a) py" where
  "scripted_call s = (hd (fst s), (tl (fst s), snd s @ [Called]))"

definition scripted_policy :: "int \<Rightarrow> backoff \<Rightarrow> (exn \<Rightarrow> bool) \<Rightarrow> 'a scripted retry_policy" where
  "scripted_policy n b retryable = \<lparr>rp_max_attempts = n, rp_backoff = b, rp_retryable = retryable,
     rp_dlq = Some (\<lambda>e. py_modify (\<lambda>s. (fst s, snd s @ [Dead e])))\<rparr>"

definition scripted_sleep :: "real \<Rightarrow> ('a scripted, unit) py" where
  "scripted_sleep t = py_modify (\<lambda>s. (fst s, snd s @ [Slept t]))"

text \<open>The log of \<^term>\<open>k\<close> failed attempts that were followed by another one.\<close>

definition retry_log :: "backoff \<Rightarrow> nat \<Rightarrow> nat \<Rightarrow> retry_event list" where
  "retry_log b a k = concat (map (\<lambda>i. [Called, Slept (calculate b i)]) [a ..< a + k])"

lemma retry_log_Suc: "retry_log b a (Suc k) = [Called, Slept (calculate b a)] @ retry_log b (Suc a) k"
proof -
  have "[a ..< a + Suc k] = a # [Suc a ..< Suc a + k]" by (simp add: upt_rec)
  then show ?thesis by (simp add: retry_log_def)
qed

lemma retry_from_failures:
  assumes "\<forall>e \<in> set es. retryable e" "length es \<le> n"
  shows "retry_from (scripted_policy m b retryable) scripted_sleep scripted_call a n (map Inl es @ rest, lg)
    = retry_from (scripted_policy m b retryable) scripted_sleep scripted_call (a + length es) (n - length es)
        (rest, lg @ retry_log b a (length es))"
  using assms
proof (induction es arbitrary: a n lg)
  case Nil
  then show ?case by (simp add: retry_log_def)
next
  case (Cons e es)
  then obtain k where n: "n = Suc k" by (cases n) auto
  have "retry_from (scripted_policy m b retryable) scripted_sleep scripted_call a n (map Inl (e # es) @ rest, lg)
    = retry_from (scripted_policy m b retryable) scripted_sleep scripted_call (Suc a) k
        (map Inl es @ rest, lg @ [Called, Slept (calculate b a)])"
    using Cons.prems(1) by (simp add: n scripted_call_def scripted_policy_def scripted_sleep_def py_simps)
  with Cons n show ?case by (simp add: retry_log_Suc)
qed

text \<open>C21. Retrying: with \<^term>\<open>k\<close> retryable failures before the first other outcome and fewer than the
  maximal number of attempts, that outcome is the result, after a call and the scheduled backoff
  for each failure; when every attempt fails the last error is raised after exactly the maximal
  number of calls, and only then is it sent to the dead letter queue.\<close>

theorem retry_calls:
  assumes "\<forall>e \<in> set es. retryable e" "1 \<le> m"
  shows "(int (length es) < m \<longrightarrow> (\<forall>e. r = Inl e \<longrightarrow> \<not> retryable e) \<longrightarrow>
      execute_with_retry (scripted_policy m b retryable) scripted_sleep scripted_call (map Inl es @ r # rest, [])
        = (r, (rest, retry_log b 0 (length es) @ [Called])))
    \<and> (int (length es) = m \<longrightarrow>
      execute_with_retry (scripted_policy m b retryable) scripted_sleep scripted_call (map Inl es @ r # rest, [])
        = (Inl (last es), (r # rest, retry_log b 0 (length es - 1) @ [Called, Dead (last es)])))"
proof (intro conjI impI)
  assume l: "int (length es) < m" and r: "\<forall>e. r = Inl e \<longrightarrow> \<not> retryable e"
  then have "length es \<le> nat (m - 1)" by linarith
  from retry_from_failures[OF assms(1) this, of m b 0 "r # rest" "[]"] r
  show "execute_with_retry (scripted_policy m b retryable) scripted_sleep scripted_call (map Inl es @ r # rest, [])
      = (r, (rest, retry_log b 0 (length es) @ [Called]))"
    by (cases "nat (m - 1) - length es"; cases r)
      (auto simp: execute_with_retry_def scripted_policy_def scripted_call_def py_simps)
next
  assume l: "int (length es) = m"
  with assms(2) have "es \<noteq> []" by auto
  then obtain e es' where es: "es = es' @ [e]" by (meson rev_exhaust)
  have "length es' \<le> nat (m - 1)" "nat (m - 1) - length es' = 0" using l by (auto simp: es)
  with retry_from_failures[of es' retryable "nat (m - 1)" m b 0 "Inl e # r # rest" "[]"] assms(1)
  show "execute_with_retry (scripted_policy m b retryable) scripted_sleep scripted_call (map Inl es @ r # rest, [])
      = (Inl (last es), (r # rest, retry_log b 0 (length es - 1) @ [Called, Dead (last es)]))"
    by (simp add: es execute_with_retry_def scripted_policy_def scripted_call_def send_to_dlq_def py_simps)
qed

theorem retry_calls_witness:
  "execute_with_retry (scripted_policy 3 (ExponentialBackoff 1 2 60) (\<lambda>e. e = TimeoutErr)) scripted_sleep scripted_call
     ([Inl TimeoutErr, Inl TimeoutErr, Inr (7::nat)], [])
     = (Inr 7, ([], [Called, Slept 1, Called, Slept 2, Called]))
   \<and> execute_with_retry (scripted_policy 1 (ConstantBackoff 5) (\<lambda>e. e = TimeoutErr)) scripted_sleep scripted_call
       ([Inl TimeoutErr, Inr (7::nat)], []) = (Inl TimeoutErr, ([Inr 7], [Called, Dead TimeoutErr]))"
  using retry_calls[of "[TimeoutErr, TimeoutErr]" "\<lambda>e. e = TimeoutErr" 3 "Inr (7::nat)" "ExponentialBackoff 1 2 60" "[]"]
    retry_calls[of "[TimeoutErr]" "\<lambda>e. e = TimeoutErr" 1 "Inr (7::nat)" "ConstantBackoff 5" "[]"]
  by (simp add: retry_log_def upt_rec)

section \<open>Compensation\<close>

lemma in_world_frame:
  assumes "in_world m st = (r, st')"
  shows "wf_results st' = wf_results st" "wf_completed st' = wf_completed st"
  using assms by (auto simp: in_world_def split: prod.splits)

lemma execute_step_ok:
  assumes "execute_step aio ctx step st = (Inr u, st')"
  shows "set (wf_completed st') = insert (ws_name step) (set (wf_completed st))"
    "\<exists>v. map_of (wf_results st') (ws_name step) = Some v"
    "x \<noteq> ws_name step \<Longrightarrow> map_of (wf_results st') x = map_of (wf_results st) x"
  using assms
  by (auto simp: execute_step_def py_simps Let_def map_of_dset split: prod.splits sum.splits dest: in_world_frame)

lemma execute_step_fails:
  assumes "execute_step aio ctx step st = (Inl e, st')"
  shows "wf_results st' = wf_results st" "wf_completed st' = wf_completed st"
  using assms
  by (auto simp: execute_step_def py_simps Let_def split: prod.splits sum.splits dest: in_world_frame)

lemma execute_steps_ok:
  assumes "py_for steps (execute_step aio ctx) st = (Inr u, st')"
  shows "set (wf_completed st') = ws_name ` set steps \<union> set (wf_completed st)"
    "\<forall>s \<in> set steps. \<exists>v. map_of (wf_results st') (ws_name s) = Some v"
proof -
  have "set (wf_completed st') = ws_name ` set steps \<union> set (wf_completed st)
      \<and> (\<forall>x. x \<in> ws_name ` set steps \<or> map_of (wf_results st) x \<noteq> None \<longrightarrow> map_of (wf_results st') x \<noteq> None)"
    using assms
  proof (induction steps arbitrary: st)
    case (Cons s steps)
    from Cons.prems obtain st1 where st1: "execute_step aio ctx s st = (Inr (), st1)" "py_for steps (execute_step aio ctx) st1 = (Inr u, st')"
      by (auto simp: py_simps split: prod.splits sum.splits)
    have "map_of (wf_results st1) x \<noteq> None" if "x = ws_name s \<or> map_of (wf_results st) x \<noteq> None" for x
      using that execute_step_ok(2)[OF st1(1)] execute_step_ok(3)[OF st1(1), of x] by (cases "x = ws_name s") auto
    with Cons.IH[OF st1(2)] execute_step_ok(1)[OF st1(1)] show ?case by auto
  qed (simp add: py_simps)
  then show "set (wf_completed st') = ws_name ` set steps \<union> set (wf_completed st)"
    "\<forall>s \<in> set steps. \<exists>v. map_of (wf_results st') (ws_name s) = Some v" by auto
qed

text \<open>Compensating one step with a given result, whatever is recorded.\<close>

definition compensate :: "(string, 'v) dict \<Rightarrow> ('s, 'c, 'v) workflow_step \<Rightarrow> (('s, 'v) wf_state, unit) py" where
  "compensate results step =
     (case ws_rollback_handler step of
        None \<Rightarrow> py_return ()
      | Some handler \<Rightarrow> py_except (in_world (handler (map_of results (ws_name step)))) is_Exception (\<lambda>_. py_return ()))"

lemma compensate_frame:
  assumes "compensate results step st = (r, st')"
  shows "wf_results st' = wf_results st" "wf_completed st' = wf_completed st"
  using assms
  by (auto simp: compensate_def py_simps split: option.splits prod.splits sum.splits if_splits dest: in_world_frame)

lemma rollback_step_eq:
  "rollback_step step st = (if ws_name step \<in> set (wf_completed st) then compensate (wf_results st) step st else (Inr (), st))"
  by (auto simp: rollback_step_def compensate_def py_simps split: option.splits)

lemma rollback_steps_eq:
  "py_for steps rollback_step st =
     py_for (filter (\<lambda>s. ws_name s \<in> set (wf_completed st)) steps) (compensate (wf_results st)) st"
proof (induction steps arbitrary: st)
  case (Cons s steps)
  show ?case
  proof (cases "ws_name s \<in> set (wf_completed st)")
    case True
    obtain r st1 where st1: "compensate (wf_results st) s st = (r, st1)" by fastforce
    with compensate_frame[OF st1] Cons.IH[of st1] True show ?thesis
      by (cases r) (simp_all add: rollback_step_eq[of s st] py_seq_def py_bind_def)
  qed (simp add: rollback_step_eq[of s st] py_seq_def py_bind_def Cons.IH)
qed simp

text \<open>C22. Saga: when a sequential run fails at the i-th step of the execution order with an exception, the
  rollback handlers of exactly the steps before it are called, last completed first, each with
  the result recorded for its step in the run and each in its own try; then WorkflowExecutionError is raised.\<close>

theorem saga_compensates:
  assumes "dag_init steps = Inr d" "topological_sort d = Inr order" "i < length order"
    "py_for (take i order) (execute_step aio ctx) (wf_start w) = (Inr (), st)"
    "execute_step aio ctx (order ! i) st = (Inl e, st')" "is_Exception e"
  shows "execute_workflow aio d ctx None (wf_start w)
      = py_seq (py_for (rev (take i order)) (compensate (wf_results st))) (py_raise FlowWorkflowExecution) st'
    \<and> (\<forall>s \<in> set (take i order). \<exists>v. map_of (wf_results st) (ws_name s) = Some v)"
proof
  have split: "order = take i order @ order ! i # drop (Suc i) order" using assms(3) by (rule id_take_nth_drop)
  have done': "set (wf_completed st) = ws_name ` set (take i order)" using execute_steps_ok(1)[OF assms(4)] by (simp add: wf_start_def)
  have run: "py_for (take i order @ order ! i # drop (Suc i) order) (execute_step aio ctx) (wf_start w) = (Inl e, st')"
    using assms(4,5) by (simp add: py_for_append py_seq_def py_bind_def)
  have "filter (\<lambda>s. ws_name s \<in> set (wf_completed st)) (rev order) = rev (take i order)"
  proof -
    have "ws_name ` set (order ! i # drop (Suc i) order) \<inter> ws_name ` set (take i order) = {}"
      using topological_sort_names[OF dag_initD(1)[OF assms(1)] assms(2)] by (subst (asm) split) auto
    then have "filter (\<lambda>s. ws_name s \<in> ws_name ` set (take i order)) (order ! i # drop (Suc i) order) = []"
      by (auto simp: filter_empty_conv)
    moreover have "filter (\<lambda>s. ws_name s \<in> ws_name ` set (take i order)) (take i order) = take i order"
      by (auto intro: filter_True)
    ultimately have "filter (\<lambda>s. ws_name s \<in> ws_name ` set (take i order)) order = take i order"
      by (subst (2) split) (simp only: filter_append append_Nil2)
    then show ?thesis by (simp add: done' rev_filter[symmetric])
  qed
  then have "py_for (rev order) rollback_step st' = py_for (rev (take i order)) (compensate (wf_results st)) st'"
    using execute_step_fails[OF assms(5)] by (simp add: rollback_steps_eq)
  then show "execute_workflow aio d ctx None (wf_start w)
      = py_seq (py_for (rev (take i order)) (compensate (wf_results st))) (py_raise FlowWorkflowExecution) st'"
    using run split[symmetric] assms(2,6)
    by (simp add: execute_workflow_def execute_sequential_def rollback_def py_except_def py_seq_def py_bind_def)
  show "\<forall>s \<in> set (take i order). \<exists>v. map_of (wf_results st) (ws_name s) = Some v"
    by (rule execute_steps_ok(2)[OF assms(4)])
qed

text \<open>Handlers of an example: they note what they do in the world.\<close>

definition noted :: "string \<Rightarrow> exn + nat \<Rightarrow> unit \<Rightarrow> (string, nat) dict \<Rightarrow> (string list, nat) py" where
  "noted msg r ctx results w = (r, w @ [msg])"

definition undo :: "string \<Rightarrow> (nat option \<Rightarrow> (string list, unit) py) option" where
  "undo msg = Some (\<lambda>r w. (Inr (), w @ [msg]))"

definition demo_flow :: "string list \<Rightarrow> (string list, unit, nat) workflow_step list" where
  "demo_flow deps =
     [\<lparr>ws_name = ''a'', ws_dependencies = [], ws_handler = noted ''do a'' (Inr 1), ws_rollback_handler = undo ''undo a'',
       ws_retry_policy = None, ws_timeout = None\<rparr>,
      \<lparr>ws_name = ''b'', ws_dependencies = deps, ws_handler = noted ''try b'' (Inl ValueErr), ws_rollback_handler = undo ''undo b'',
       ws_retry_policy = None, ws_timeout = None\<rparr>]"

definition demo_aio :: "(string list, nat) aio" where
  "demo_aio = \<lparr>lp_sleep = (\<lambda>_. py_return ()), lp_wait_for = (\<lambda>_ m. m), lp_cut = (\<lambda>_ w. w)\<rparr>"

lemma demo_flow_init:
  "dag_init (demo_flow [''a'']) = Inr (map (\<lambda>s. (ws_name s, s)) (demo_flow [''a'']))"
  "dag_init (demo_flow [''a'', ''a'']) = Inr (map (\<lambda>s. (ws_name s, s)) (demo_flow [''a'', ''a'']))"
  by (simp_all add: demo_flow_def dag_init_def dag_steps_def dag_validate_def missing_dep_def deps_of_def Let_def eval_nat_numeral)

lemmas demo_flow_eval = demo_flow_def noted_def undo_def execute_step_def effective_handler_def in_world_def wf_start_def py_simps

theorem saga_compensates_witness:
  "execute_workflow demo_aio (map (\<lambda>s. (ws_name s, s)) (demo_flow [''a''])) () None (wf_start [])
     = (Inl FlowWorkflowExecution,
        \<lparr>wf_world = [''do a'', ''try b'', ''undo a''], wf_results = [(''a'', 1)], wf_completed = [''a'']\<rparr>)"
proof -
  let ?d = "map (\<lambda>s. (ws_name s, s)) (demo_flow [''a''])"
  let ?st = "\<lparr>wf_world = [''do a''], wf_results = [(''a'', 1)], wf_completed = [''a'']\<rparr>"
  let ?st' = "\<lparr>wf_world = [''do a'', ''try b''], wf_results = [(''a'', 1)], wf_completed = [''a'']\<rparr>"
  have t: "topological_sort ?d = Inr (demo_flow [''a''])"
    by (simp add: topological_sort_def demo_flow_def initial_degree_def deps_of_def Let_def eval_nat_numeral)
  have a: "py_for (take 1 (demo_flow [''a''])) (execute_step demo_aio ()) (wf_start []) = (Inr (), ?st)"
    by (simp add: demo_flow_eval)
  have b: "execute_step demo_aio () (demo_flow [''a''] ! 1) ?st = (Inl ValueErr, ?st')"
    by (simp add: demo_flow_eval)
  have l: "1 < length (demo_flow [''a''])" "is_Exception ValueErr" by (simp_all add: demo_flow_def is_Exception_def)
  from saga_compensates[OF demo_flow_init(1) t l(1) a b l(2)] show ?thesis
    by (simp add: compensate_def demo_flow_def undo_def in_world_def py_simps)
qed

section \<open>Parallel runs\<close>

text \<open>The names a state records as completed only grow while a group settles, by names of the group.\<close>

lemma settle_group_completed:
  assumes "settle_group aio ctx failed rest st = (r, st')"
  shows "set (wf_completed st) \<subseteq> set (wf_completed st')
    \<and> set (wf_completed st') \<subseteq> set (wf_completed st) \<union> ws_name ` fst ` set rest
    \<and> (r = Inr () \<longrightarrow> failed = None \<and> ws_name ` fst ` set rest \<subseteq> set (wf_completed st'))"
  using assms
proof (induction rest arbitrary: failed st)
  case Nil
  then show ?case by (auto simp: py_simps split: option.splits)
next
  case (Cons p rest)
  obtain s stopped where p: "p = (s, stopped)" by (cases p)
  show ?case
  proof (cases "failed \<noteq> None \<and> stopped")
    case True
    with Cons.prems have "settle_group aio ctx failed rest (st\<lparr>wf_world := lp_cut aio (ws_name s) (wf_world st)\<rparr>) = (r, st')"
      by (simp add: p py_simps)
    from Cons.IH[OF this] True show ?thesis by (auto simp: p)
  next
    case False
    obtain q st1 where q: "execute_step aio ctx s st = (q, st1)" by fastforce
    have st1: "settle_group aio ctx failed (p # rest) st =
        settle_group aio ctx (case q of Inr _ \<Rightarrow> failed | Inl e \<Rightarrow> if failed = None then Some e else failed) rest st1"
      unfolding p settle_group.simps if_not_P[OF False] q by (simp split: sum.split)
    note IH = Cons.IH[OF Cons.prems[unfolded st1]]
    show ?thesis
    proof (cases q)
      case (Inr u)
      with IH execute_step_ok(1)[of aio ctx s st u st1] q show ?thesis by (auto simp: p)
    next
      case (Inl e)
      with IH execute_step_fails(2)[of aio ctx s st e st1] q show ?thesis by (auto simp: p split: if_splits)
    qed
  qed
qed

lemma execute_groups_completed:
  assumes "\<forall>g. set (map fst (sched g)) = set g" "py_for suf (\<lambda>g. settle_group aio ctx None (sched g)) st = (r, st')"
    "set (wf_completed st) = ws_name ` set (concat pre)"
  shows "\<exists>k. ws_name ` set (concat (pre @ take k suf)) \<subseteq> set (wf_completed st')
    \<and> set (wf_completed st') \<subseteq> ws_name ` set (concat (pre @ take (Suc k) suf))
    \<and> (r = Inr () \<longrightarrow> set (wf_completed st') = ws_name ` set (concat (pre @ suf)))"
  using assms(2,3)
proof (induction suf arbitrary: pre st)
  case Nil
  then show ?case by (simp add: py_simps)
next
  case (Cons g suf)
  obtain q st1 where q: "settle_group aio ctx None (sched g) st = (q, st1)" by fastforce
  have names: "fst ` set (sched g) = set g" using assms(1) by simp
  note c = settle_group_completed[OF q, unfolded names]
  show ?case
  proof (cases q)
    case (Inl e)
    with Cons.prems q have "r = Inl e" "st' = st1" by (simp_all add: py_seq_def py_bind_def)
    with c Cons.prems(2) show ?thesis by (intro exI[of _ 0]) (simp add: image_Un)
  next
    case (Inr u)
    then have run: "py_for suf (\<lambda>g. settle_group aio ctx None (sched g)) st1 = (r, st')"
      using Cons.prems(1) q by (simp add: py_seq_def py_bind_def)
    have "set (wf_completed st1) = ws_name ` set (concat (pre @ [g]))" 
      using c Inr Cons.prems(2) by (simp add: image_Un) blast
    from Cons.IH[OF run this] obtain k where
      "ws_name ` set (concat ((pre @ [g]) @ take k suf)) \<subseteq> set (wf_completed st')"
      "set (wf_completed st') \<subseteq> ws_name ` set (concat ((pre @ [g]) @ take (Suc k) suf))"
      "r = Inr () \<longrightarrow> set (wf_completed st') = ws_name ` set (concat ((pre @ [g]) @ suf))" by blast
    then show ?thesis by (intro exI[of _ "Suc k"]) (simp only: take_Suc_Cons append_assoc append_Cons append_Nil simp_thms)
  qed
qed

lemma groups_cover:
  assumes "dag_init steps = Inr d" "s \<in> set (map snd d)" "ws_name s \<in> ws_name ` set (concat (take k (get_parallel_groups d)))"
  shows "\<exists>i < k. i < length (get_parallel_groups d) \<and> s \<in> set (get_parallel_groups d ! i)"
proof -
  let ?gs = "get_parallel_groups d"
  note wf = dag_initD(1)[OF assms(1)]
  from assms(3) obtain i t where i: "i < length (take k ?gs)" "t \<in> set (take k ?gs ! i)" "ws_name s = ws_name t"
    by (auto simp: in_set_conv_nth[of _ "take k ?gs"])
  then have "t \<in> set (?gs ! i)" "i < length ?gs" by simp_all
  then have "t \<in> set (concat ?gs)" unfolding set_concat by (metis UN_I nth_mem)
  then have "t \<in> set (map snd d)" unfolding parallel_groups_run(2)[OF assms(1)] .
  with assms(2) obtain k1 k2 where "(k1, t) \<in> set d" "(k2, s) \<in> set d" by auto
  moreover from this i(3) dag_wf_name[OF wf] have "k1 = k2" by metis
  ultimately have "t = s" using map_of_dag[OF wf] by simp
  with i show ?thesis by (intro exI[of _ i]) auto
qed

text \<open>C23. Parallel execution, for every order in which the steps of a group settle and are cancelled:
  whatever the outcome, a step is recorded as completed only if all its dependencies are; on
  success every step is.\<close>

theorem parallel_completed_closed:
  assumes "dag_init steps = Inr d" "\<forall>g. set (map fst (sched g)) = set g"
    "execute_parallel aio d ctx sched (wf_start w) = (r, st)"
  shows "(\<forall>s \<in> set (map snd d). ws_name s \<in> set (wf_completed st) \<longrightarrow> set (ws_dependencies s) \<subseteq> set (wf_completed st))
    \<and> (r = Inr () \<longrightarrow> set (wf_completed st) = ws_name ` set (map snd d))"
proof -
  let ?gs = "get_parallel_groups d"
  note g = parallel_groups_run[OF assms(1)]
  from execute_groups_completed[OF assms(2) assms(3)[unfolded execute_parallel_def], of "[]"] obtain k where
    k: "ws_name ` set (concat (take k ?gs)) \<subseteq> set (wf_completed st)"
    "set (wf_completed st) \<subseteq> ws_name ` set (concat (take (Suc k) ?gs))"
    "r = Inr () \<longrightarrow> set (wf_completed st) = ws_name ` set (concat ?gs)"
    by (auto simp: wf_start_def)
  have "set (ws_dependencies s) \<subseteq> set (wf_completed st)" if s: "s \<in> set (map snd d)" "ws_name s \<in> set (wf_completed st)" for s
  proof -
    from groups_cover[OF assms(1) s(1)] s(2) k(2) obtain i where i: "i < Suc k" "i < length ?gs" "s \<in> set (?gs ! i)" by blast
    have "set (ws_dependencies s) \<subseteq> ws_name ` set (concat (take i ?gs))"
      using i(3) unfolding g(3)[OF i(2)] by (simp add: get_ready_steps_def)
    moreover have "set (take i ?gs) \<subseteq> set (take k ?gs)" using i(1) by (intro set_take_subset_set_take) simp
    ultimately show ?thesis using k(1) by fastforce
  qed
  with k(3) show ?thesis unfolding g(2) by blast
qed

theorem parallel_completed_closed_witness:
  "let run = execute_parallel demo_aio (map (\<lambda>s. (ws_name s, s)) (demo_flow [''a''])) () (map (\<lambda>s. (s, True))) (wf_start [])
   in fst run = Inl ValueErr \<and> set (wf_completed (snd run)) = {''a''}
      \<and> set (ws_dependencies (demo_flow [''a''] ! 0)) \<subseteq> set (wf_completed (snd run))"
proof -
  let ?d = "map (\<lambda>s. (ws_name s, s)) (demo_flow [''a''])"
  let ?run = "execute_parallel demo_aio ?d () (map (\<lambda>s. (s, True))) (wf_start [])"
  have run: "fst ?run = Inl ValueErr" "set (wf_completed (snd ?run)) = {''a''}"
    by (simp_all add: execute_parallel_def get_parallel_groups_def groups_loop.simps get_ready_steps_def Let_def demo_flow_eval)
  have sched: "\<forall>g. set (map fst (map (\<lambda>s. (s, True)) g)) = set g" by (simp add: image_image)
  have a: "demo_flow [''a''] ! 0 \<in> set (map snd ?d)" "ws_name (demo_flow [''a''] ! 0) \<in> set (wf_completed (snd ?run))"
    using run(2) by (simp_all add: demo_flow_def)
  from parallel_completed_closed[OF demo_flow_init(1) sched prod.collapse[symmetric, of ?run]] a
  have "set (ws_dependencies (demo_flow [''a''] ! 0)) \<subseteq> set (wf_completed (snd ?run))" by blast
  with run show ?thesis unfolding Let_def by (intro conjI)
qed

text \<open>C24. A step that lists a dependency twice disables compensation: the graph is accepted and its steps
  run in parallel, but when a step then fails, the rollback fails on the execution order before
  it calls any handler, and the completed steps stay uncompensated.\<close>

theorem duplicate_dependency_disables_rollback:
  assumes "dag_init steps = Inr d" "x \<in> set (dkeys d)" "\<not> distinct (deps_of d x)"
    "execute_parallel aio d ctx sched (wf_start w) = (Inl e, st)" "is_Exception e"
  shows "execute_workflow aio d ctx (Some sched) (wf_start w) = (Inl FlowWorkflowExecution, st)"
  using assms(4,5) topological_sort_twice[OF assms(1-3)]
  by (simp add: execute_workflow_def rollback_def py_simps)

theorem duplicate_dependency_disables_rollback_witness:
  "execute_workflow demo_aio (map (\<lambda>s. (ws_name s, s)) (demo_flow [''a'', ''a''])) () (Some (map (\<lambda>s. (s, True)))) (wf_start [])
   = (Inl FlowWorkflowExecution,
      \<lparr>wf_world = [''do a'', ''try b''], wf_results = [(''a'', 1)], wf_completed = [''a'']\<rparr>)"
proof (rule duplicate_dependency_disables_rollback[OF demo_flow_init(2)])
  let ?d = "map (\<lambda>s. (ws_name s, s)) (demo_flow [''a'', ''a''])"
  show "''b'' \<in> set (dkeys ?d)" "\<not> distinct (deps_of ?d ''b'')" by (simp_all add: demo_flow_def deps_of_def)
  show "execute_parallel demo_aio ?d () (map (\<lambda>s. (s, True))) (wf_start []) =
      (Inl ValueErr, \<lparr>wf_world = [''do a'', ''try b''], wf_results = [(''a'', 1)], wf_completed = [''a'']\<rparr>)"
    by (simp add: execute_parallel_def get_parallel_groups_def groups_loop.simps get_ready_steps_def Let_def demo_flow_eval)
  show "is_Exception ValueErr" by (simp add: is_Exception_def)
qed

end
