(* ===== verification/SSE.thy ===== *)
theory SSE
  imports Text_Pipeline
begin

text \<open>
  Server-sent events: UTF-8, frame encoding (\<^verbatim>\<open>stream/sse/frame.py\<close>), the Last-Event-ID anchor
  (\<^verbatim>\<open>stream/sse/writer.py\<close>), the event envelope (\<^verbatim>\<open>stream/events/envelope.py\<close>) and the client's frame parser
  (\<^verbatim>\<open>stream/client/sse_reader.py\<close>).  Text is a list of code points and a byte stream a list of
  numbers below 256.  What \<^verbatim>\<open>json.dumps\<close> prints is a parameter.
\<close>

section \<open>UTF-8\<close>

definition scalar :: "nat \<Rightarrow> bool" where
  "scalar c \<longleftrightarrow> c < 55296 \<or> 57344 \<le> c \<and> c < 1114112"

definition utf8_bytes :: "nat \<Rightarrow> nat list" where
  "utf8_bytes c =
     (if c < 128 then [c]
      else if c < 2048 then [192 + c div 64, 128 + c mod 64]
      else if c < 65536 then [224 + c div 4096, 128 + c div 64 mod 64, 128 + c mod 64]
      else [240 + c div 262144, 128 + c div 4096 mod 64, 128 + c div 64 mod 64, 128 + c mod 64])"

text \<open>\<^verbatim>\<open>str.encode("utf-8")\<close>: a lone surrogate raises.\<close>

definition utf8_encode :: "ustr \<Rightarrow> exn + nat list" where
  "utf8_encode s = (if \<forall>c \<in> set s. scalar c then Inr (concat (map utf8_bytes s)) else Inl (OtherErr ''UnicodeEncodeError''))"

text \<open>\<^verbatim>\<open>bytes.decode("utf-8", errors="replace")\<close>: each maximal well-formed start of a sequence that cannot be
  completed becomes one replacement character.  The first continuation byte lies in [lo, hi].\<close>

definition utf8_lead :: "nat \<Rightarrow> (nat \<times> nat \<times> nat \<times> nat) option" where
  "utf8_lead b =
     (if b < 128 then Some (0, 0, 0, b)
      else if b < 194 then None
      else if b < 224 then Some (1, 128, 191, b - 192)
      else if b < 240 then Some (2, if b = 224 then 160 else 128, if b = 237 then 159 else 191, b - 224)
      else if b < 245 then Some (3, if b = 240 then 144 else 128, if b = 244 then 143 else 191, b - 240)
      else None)"

fun utf8_conts :: "nat \<Rightarrow> nat \<Rightarrow> nat \<Rightarrow> nat \<Rightarrow> nat list \<Rightarrow> nat option \<times> nat" where
  "utf8_conts 0 lo hi acc bs = (Some acc, 0)"
| "utf8_conts (Suc k) lo hi acc [] = (None, 0)"
| "utf8_conts (Suc k) lo hi acc (c # cs) =
     (if lo \<le> c \<and> c \<le> hi
      then let (r, n) = utf8_conts k 128 191 (acc * 64 + (c - 128)) cs in (r, Suc n)
      else (None, 0))"

definition utf8_next :: "nat \<Rightarrow> nat list \<Rightarrow> nat \<times> nat" where
  "utf8_next b bs =
     (case utf8_lead b of
        None \<Rightarrow> (65533, 0)
      | Some (k, lo, hi, acc) \<Rightarrow>
          (case utf8_conts k lo hi acc bs of (Some c, n) \<Rightarrow> (c, n) | (None, n) \<Rightarrow> (65533, n)))"

function utf8_decode :: "nat list \<Rightarrow> ustr" where
  "utf8_decode [] = []"
| "utf8_decode (b # bs) = fst (utf8_next b bs) # utf8_decode (drop (snd (utf8_next b bs)) bs)"
  by pat_completeness auto
termination
  by (relation "measure length") (auto simp: le_imp_less_Suc)

lemma utf8_next_char:
  assumes "scalar c"
  shows "utf8_next (hd (utf8_bytes c)) (tl (utf8_bytes c) @ rest) = (c, length (utf8_bytes c) - 1)"
proof -
  define q r q1 r1 q2 r2 where d: "q = c div 64" "r = c mod 64" "q1 = q div 64" "r1 = q mod 64" "q2 = q1 div 64" "r2 = q1 mod 64"
  have e: "c = q * 64 + r" "q = q1 * 64 + r1" "q1 = q2 * 64 + r2" "r < 64" "r1 < 64" "r2 < 64"
    unfolding d by simp_all
  have dv: "c div 64 mod 64 = r1" "c mod 64 = r" "c div 4096 = q1" "c div 4096 mod 64 = r2" "c div 262144 = q2" "c div 64 = q"
    "q mod 64 = r1" "q1 mod 64 = r2"
    unfolding d by (simp_all add: div_mult2_eq[symmetric])
  consider "c < 128" | "128 \<le> c" "c < 2048" | "2048 \<le> c" "c < 65536" | "65536 \<le> c" by linarith
  then show ?thesis
  proof cases
    case 2
    then have q: "2 \<le> q" "q < 32" using e by linarith+
    have b: "utf8_bytes c = [192 + q, 128 + r]" using 2 by (simp add: utf8_bytes_def dv)
    have l: "utf8_lead (192 + q) = Some (Suc 0, 128, 191, q)" using q by (simp add: utf8_lead_def)
    have "q * 64 + r = c" "r \<le> 63" using e(1,4) by simp_all
    then show ?thesis by (simp add: b l utf8_next_def)
  next
    case 3
    then have q: "q1 < 16" "q1 = 0 \<longrightarrow> 32 \<le> r1" "q1 = 13 \<longrightarrow> r1 < 32" using e assms unfolding scalar_def by linarith+
    have b: "utf8_bytes c = [224 + q1, 128 + r1, 128 + r]" using 3 by (simp add: utf8_bytes_def dv)
    have l: "utf8_lead (224 + q1) = Some (Suc (Suc 0), if q1 = 0 then 160 else 128, if q1 = 13 then 159 else 191, q1)"
      using q(1) by (simp add: utf8_lead_def)
    have "(q1 * 64 + r1) * 64 + r = c" "r \<le> 63" "r1 \<le> 63" using e(1,2,4,5) by simp_all
    with q show ?thesis by (auto simp: b l utf8_next_def)
  next
    case 4
    then have q: "q2 < 5" "q2 = 0 \<longrightarrow> 16 \<le> r2" "q2 = 4 \<longrightarrow> r2 < 16" using e assms unfolding scalar_def by linarith+
    have b: "utf8_bytes c = [240 + q2, 128 + r2, 128 + r1, 128 + r]" using 4 by (simp add: utf8_bytes_def dv)
    have l: "utf8_lead (240 + q2) = Some (Suc (Suc (Suc 0)), if q2 = 0 then 144 else 128, if q2 = 4 then 143 else 191, q2)"
      using q(1) by (simp add: utf8_lead_def)
    have "((q2 * 64 + r2) * 64 + r1) * 64 + r = c" "r \<le> 63" "r1 \<le> 63" "r2 \<le> 63" using e by simp_all
    with q show ?thesis by (auto simp: b l utf8_next_def)
  qed (simp add: utf8_bytes_def utf8_next_def utf8_lead_def)
qed

lemma utf8_bytes_nonempty: "utf8_bytes c \<noteq> []"
  by (simp add: utf8_bytes_def)

lemma utf8_decode_char: "scalar c \<Longrightarrow> utf8_decode (utf8_bytes c @ rest) = c # utf8_decode rest"
  using utf8_next_char[of c rest] utf8_bytes_nonempty[of c] by (cases "utf8_bytes c") auto

lemma utf8_decode_encode: "utf8_encode s = Inr bs \<Longrightarrow> utf8_decode (bs @ rest) = s @ utf8_decode rest"
proof -
  have "\<forall>c \<in> set s. scalar c \<Longrightarrow> utf8_decode (concat (map utf8_bytes s) @ rest) = s @ utf8_decode rest"
    by (induction s) (auto simp: utf8_decode_char)
  then show "utf8_encode s = Inr bs \<Longrightarrow> ?thesis" by (auto simp: utf8_encode_def split: if_splits)
qed

section \<open>Frames\<close>

text \<open>The line boundaries of \<^verbatim>\<open>str.splitlines\<close>.\<close>

definition line_break :: "nat \<Rightarrow> bool" where
  "line_break c \<longleftrightarrow> c \<in> {10, 11, 12, 13, 28, 29, 30, 133, 8232, 8233}"

fun splitlines_from :: "ustr \<Rightarrow> ustr \<Rightarrow> ustr list" where
  "splitlines_from line [] = (if line = [] then [] else [line])"
| "splitlines_from line [c] = (if line_break c then [line] else [line @ [c]])"
| "splitlines_from line (c # d # cs) =
     (if c = CR \<and> d = LF then line # splitlines_from [] cs
      else if line_break c then line # splitlines_from [] (d # cs)
      else splitlines_from (line @ [c]) (d # cs))"

fun split_nl :: "ustr \<Rightarrow> ustr list" where
  "split_nl [] = [[]]"
| "split_nl (c # cs) = (if c = LF then [] # split_nl cs else (c # hd (split_nl cs)) # tl (split_nl cs))"

fun join_nl :: "ustr list \<Rightarrow> ustr" where
  "join_nl [] = []"
| "join_nl [l] = l"
| "join_nl (l # m # ls) = l @ LF # join_nl (m # ls)"

record sse_frame =
  fr_event :: ustr
  fr_data :: ustr
  fr_id :: "ustr option"
  fr_comment :: "ustr option"

text \<open>Replacing CRLF and then CR by LF is the substitution of the newline normaliser.\<close>

definition frame_lines :: "sse_frame \<Rightarrow> ustr list" where
  "frame_lines f =
     (case fr_comment f of
        Some c \<Rightarrow> map (\<lambda>l. lit '':'' @ l) (let ls = splitlines_from [] c in if ls = [] then [[]] else ls)
      | None \<Rightarrow>
          (case fr_id f of None \<Rightarrow> [] | Some i \<Rightarrow> [lit ''id: '' @ i])
          @ [lit ''event: '' @ fr_event f]
          @ map (\<lambda>l. lit ''data: '' @ l) (split_nl (crlf_sub (fr_data f))))"

definition frame_encode :: "sse_frame \<Rightarrow> exn + nat list" where
  "frame_encode f = utf8_encode (join_nl (frame_lines f) @ [LF, LF])"

datatype event_type =
    STREAM_START | STREAM_DELTA | ENRICH_MARKER | ENRICH_PLACEHOLDER | ENRICH_RESOLVED | STAGE_END
  | STREAM_MANIFEST | STREAM_END | STREAM_ERROR | STREAM_CANCELLED

fun event_value :: "event_type \<Rightarrow> string" where
  "event_value STREAM_START = ''stream.start''"
| "event_value STREAM_DELTA = ''stream.delta''"
| "event_value ENRICH_MARKER = ''enrich.marker''"
| "event_value ENRICH_PLACEHOLDER = ''enrich.placeholder''"
| "event_value ENRICH_RESOLVED = ''enrich.resolved''"
| "event_value STAGE_END = ''stage.end''"
| "event_value STREAM_MANIFEST = ''stream.manifest''"
| "event_value STREAM_END = ''stream.end''"
| "event_value STREAM_ERROR = ''stream.error''"
| "event_value STREAM_CANCELLED = ''stream.cancelled''"

section \<open>Envelopes\<close>

text \<open>The decimal digits of an integer, as an f-string prints it.\<close>

fun dec_nat :: "nat \<Rightarrow> ustr" where
  "dec_nat n = (if n < 10 then [48 + n] else dec_nat (n div 10) @ [48 + n mod 10])"

declare dec_nat.simps [simp del]

definition dec_int :: "int \<Rightarrow> ustr" where
  "dec_int i = (if i < 0 then 45 # dec_nat (nat (- i)) else dec_nat (nat i))"

record 'd envelope =
  ev_v :: int
  ev_stream_id :: ustr
  ev_stage :: "ustr option"
  ev_seq :: int
  ev_ts :: real
  ev_data :: 'd

datatype 'd payload_value = PInt int | PStr ustr | PFloat real | PData 'd

definition sse_id :: "'d envelope \<Rightarrow> ustr" where
  "sse_id env = ev_stream_id env @ lit '':'' @ dec_int (ev_seq env)"

definition to_payload :: "'d envelope \<Rightarrow> (string, 'd payload_value) dict" where
  "to_payload env =
     [(''v'', PInt (ev_v env)), (''stream_id'', PStr (ev_stream_id env))]
     @ (case ev_stage env of None \<Rightarrow> [] | Some st \<Rightarrow> [(''stage'', PStr st)])
     @ [(''seq'', PInt (ev_seq env)), (''ts'', PFloat (ev_ts env)), (''data'', PData (ev_data env))]"

definition frame_from_envelope ::
  "((string, 'd payload_value) dict \<Rightarrow> ustr) \<Rightarrow> 'd envelope \<Rightarrow> event_type \<Rightarrow> sse_frame" where
  "frame_from_envelope dumps env ty =
     \<lparr>fr_event = lit (event_value ty), fr_data = dumps (to_payload env), fr_id = Some (sse_id env), fr_comment = None\<rparr>"

definition heartbeat_frame :: sse_frame where
  "heartbeat_frame = \<lparr>fr_event = [], fr_data = [], fr_id = None, fr_comment = Some (lit ''ping'')\<rparr>"

text \<open>\<^verbatim>\<open>int(text)\<close>: surrounding whitespace, an optional sign, digits with single underscores between
  them.  Decimal digits outside ASCII are left out.\<close>

definition is_digit :: "nat \<Rightarrow> bool" where
  "is_digit c \<longleftrightarrow> 48 \<le> c \<and> c \<le> 57"

fun digits_value :: "nat \<Rightarrow> ustr \<Rightarrow> nat option" where
  "digits_value acc [] = Some acc"
| "digits_value acc (c # cs) =
     (if is_digit c then digits_value (acc * 10 + (c - 48)) cs
      else if c = 95 then (case cs of d # _ \<Rightarrow> if is_digit d then digits_value acc cs else None | [] \<Rightarrow> None)
      else None)"

definition unsigned_int :: "ustr \<Rightarrow> nat option" where
  "unsigned_int s = (case s of c # _ \<Rightarrow> if is_digit c then digits_value 0 s else None | [] \<Rightarrow> None)"

definition py_int_of_text :: "ustr \<Rightarrow> int option" where
  "py_int_of_text s =
     (let t = strip s
      in if startswith t [45] then map_option (\<lambda>n. - int n) (unsigned_int (tl t))
         else if startswith t [43] then map_option int (unsigned_int (tl t))
         else map_option int (unsigned_int t))"

text \<open>\<^verbatim>\<open>raw.rpartition(":")\<close>: None when there is no colon.\<close>

definition rpartition_colon :: "ustr \<Rightarrow> (ustr \<times> ustr) option" where
  "rpartition_colon s =
     (if 58 \<in> set s
      then Some (rev (tl (dropWhile (\<lambda>c. c \<noteq> 58) (rev s))), rev (takeWhile (\<lambda>c. c \<noteq> 58) (rev s)))
      else None)"

definition parse_last_event_id :: "ustr option \<Rightarrow> (ustr \<times> int) option" where
  "parse_last_event_id raw =
     (case raw of
        None \<Rightarrow> None
      | Some r \<Rightarrow>
          if r = [] then None
          else case rpartition_colon r of
                 None \<Rightarrow> None
               | Some (stream_id, seq_str) \<Rightarrow>
                   if stream_id = [] then None
                   else map_option (Pair stream_id) (py_int_of_text seq_str))"

section \<open>The client\<close>

record raw_frame =
  rf_event :: ustr
  rf_data_lines :: "ustr list"
  rf_id :: "ustr option"

definition fresh_frame :: raw_frame where
  "fresh_frame = \<lparr>rf_event = lit ''message'', rf_data_lines = [], rf_id = None\<rparr>"

definition rf_data :: "raw_frame \<Rightarrow> ustr" where
  "rf_data f = join_nl (rf_data_lines f)"

definition feed_line :: "raw_frame \<Rightarrow> ustr \<Rightarrow> raw_frame option \<times> raw_frame" where
  "feed_line cur line0 =
     (let line = rstrip_by (\<lambda>c. c = CR \<or> c = LF) line0
      in if line = [] then
           (if rf_data_lines cur \<noteq> [] \<or> (rf_id cur \<noteq> None \<and> rf_id cur \<noteq> Some []) \<or> rf_event cur \<noteq> lit ''message''
            then (Some cur, fresh_frame) else (None, cur))
         else if startswith line (lit '':'') then (None, cur)
         else if startswith line (lit ''event:'') then (None, cur\<lparr>rf_event := strip (drop 6 line)\<rparr>)
         else if startswith line (lit ''id:'') then (None, cur\<lparr>rf_id := Some (strip (drop 3 line))\<rparr>)
         else if startswith line (lit ''data:'') then
           (let value = drop 5 line;
                value = (if startswith value (lit '' '') then tl value else value)
            in (None, cur\<lparr>rf_data_lines := rf_data_lines cur @ [value]\<rparr>))
         else (None, cur))"

text \<open>The loop that cuts lines off the buffer.\<close>

function drain_lines :: "raw_frame \<Rightarrow> ustr \<Rightarrow> raw_frame list \<times> raw_frame \<times> ustr" where
  "drain_lines cur buffer =
     (if LF \<in> set buffer then
        (let line = takeWhile (\<lambda>c. c \<noteq> LF) buffer;
             rest = tl (dropWhile (\<lambda>c. c \<noteq> LF) buffer);
             (frame, cur') = feed_line cur line;
             (frames, cur'', buffer') = drain_lines cur' rest
         in ((case frame of None \<Rightarrow> [] | Some f \<Rightarrow> [f]) @ frames, cur'', buffer'))
      else ([], cur, buffer))"
  by pat_completeness auto
termination
proof (relation "measure (\<lambda>(_, b). length b)", simp)
  fix b :: ustr
  assume "LF \<in> set b"
  then have "dropWhile (\<lambda>c. c \<noteq> LF) b \<noteq> []" by (auto simp: dropWhile_eq_Nil_conv)
  then have "length (tl (dropWhile (\<lambda>c. c \<noteq> LF) b)) < length b"
    using length_dropWhile_le[of "\<lambda>c. c \<noteq> LF" b] by (cases "dropWhile (\<lambda>c. c \<noteq> LF) b") auto
  then show "\<And>cur x xa y fr cur'. x = takeWhile (\<lambda>c. c \<noteq> LF) b \<Longrightarrow> xa = tl (dropWhile (\<lambda>c. c \<noteq> LF) b) \<Longrightarrow>
      y = feed_line cur x \<Longrightarrow> (fr, cur') = y \<Longrightarrow> ((cur', xa), cur, b) \<in> measure (\<lambda>(_, b). length b)" by simp
qed

declare drain_lines.simps [simp del]

fun parse_from :: "raw_frame \<Rightarrow> ustr \<Rightarrow> nat list list \<Rightarrow> raw_frame list" where
  "parse_from cur buffer [] =
     (if buffer \<noteq> [] then (case fst (feed_line cur buffer) of None \<Rightarrow> [] | Some f \<Rightarrow> [f]) else [])"
| "parse_from cur buffer (chunk # chunks) =
     (let (frames, cur', buffer') = drain_lines cur (buffer @ utf8_decode chunk)
      in frames @ parse_from cur' buffer' chunks)"

definition sse_parse :: "nat list list \<Rightarrow> raw_frame list" where
  "sse_parse chunks = parse_from fresh_frame [] chunks"

section \<open>Line-level laws\<close>

lemma drain_none: "LF \<notin> set b \<Longrightarrow> drain_lines cur b = ([], cur, b)"
  by (simp add: drain_lines.simps)

lemma cut_line:
  "LF \<notin> set l \<Longrightarrow> takeWhile (\<lambda>c. c \<noteq> LF) (l @ LF # rest) = l"
  "LF \<notin> set l \<Longrightarrow> dropWhile (\<lambda>c. c \<noteq> LF) (l @ LF # rest) = LF # rest"
  by (induction l) auto

lemma drain_line:
  assumes "LF \<notin> set l"
  shows "drain_lines cur (l @ LF # rest) =
    (let (frame, cur') = feed_line cur l; (frames, cur'', b) = drain_lines cur' rest
     in ((case frame of None \<Rightarrow> [] | Some f \<Rightarrow> [f]) @ frames, cur'', b))"
  by (subst drain_lines.simps) (simp add: cut_line[OF assms])

lemma drain_append:
  "drain_lines cur (a @ b) =
    (let (f1, c1, b1) = drain_lines cur a; (f2, c2, b2) = drain_lines c1 (b1 @ b) in (f1 @ f2, c2, b2))"
proof (induction cur a rule: drain_lines.induct)
  case (1 cur a)
  show ?case
  proof (cases "LF \<in> set a")
    case True
    then obtain l rest where a: "a = l @ LF # rest" "LF \<notin> set l" by (metis split_list_first)
    have tw: "takeWhile (\<lambda>c. c \<noteq> LF) a = l" "tl (dropWhile (\<lambda>c. c \<noteq> LF) a) = rest"
      using a(2) by (simp_all add: a(1) cut_line)
    obtain fr cur' where f: "feed_line cur l = (fr, cur')" by fastforce
    note IH = 1[OF True tw[symmetric] f[symmetric] refl]
    show ?thesis
      using IH by (simp add: a(1) drain_line[OF a(2)] f split: prod.splits)
  qed (simp add: drain_none)
qed

lemma drain_rest: "drain_lines cur b = (f, c, b') \<Longrightarrow> LF \<notin> set b'"
proof (induction cur b arbitrary: f c b' rule: drain_lines.induct)
  case (1 cur b)
  show ?case
  proof (cases "LF \<in> set b")
    case True
    obtain fr cur' where fl: "feed_line cur (takeWhile (\<lambda>c. c \<noteq> LF) b) = (fr, cur')" by fastforce
    from 1(2) True fl obtain f2 where "drain_lines cur' (tl (dropWhile (\<lambda>c. c \<noteq> LF) b)) = (f2, c, b')"
      by (subst (asm) drain_lines.simps) (auto split: prod.splits)
    with 1(1)[OF True refl refl fl[symmetric] refl] show ?thesis by blast
  qed (use 1(2) in \<open>simp add: drain_none\<close>)
qed

text \<open>The frames depend on the concatenation of the decoded chunks only.\<close>

lemma parse_from_concat:
  assumes "LF \<notin> set buffer"
  shows "parse_from cur buffer chunks =
    (let (frames, cur', b) = drain_lines cur (buffer @ concat (map utf8_decode chunks))
     in frames @ (if b \<noteq> [] then (case fst (feed_line cur' b) of None \<Rightarrow> [] | Some f \<Rightarrow> [f]) else []))"
  using assms
proof (induction chunks arbitrary: cur buffer)
  case Nil
  then show ?case by (simp add: drain_none)
next
  case (Cons chunk chunks)
  obtain f1 c1 b1 where d: "drain_lines cur (buffer @ utf8_decode chunk) = (f1, c1, b1)" by (metis prod_cases3)
  have "drain_lines cur (buffer @ concat (map utf8_decode (chunk # chunks))) =
      (let (f2, c2, b2) = drain_lines c1 (b1 @ concat (map utf8_decode chunks)) in (f1 @ f2, c2, b2))"
    using drain_append[of cur "buffer @ utf8_decode chunk" "concat (map utf8_decode chunks)"] by (simp add: d)
  with Cons.IH[OF drain_rest[OF d], of c1] d show ?case by (simp split: prod.splits)
qed

lemma split_nl_nonempty [simp]: "split_nl s \<noteq> []"
  by (induction s) auto

lemma split_nl_lines: "l \<in> set (split_nl s) \<Longrightarrow> LF \<notin> set l \<and> set l \<subseteq> set s"
proof (induction s arbitrary: l)
  case (Cons c s)
  then have IH: "LF \<notin> set m \<and> set m \<subseteq> set s" if "m \<in> set (split_nl s)" for m using that by blast
  show ?case
  proof (cases "c = LF")
    case True
    with Cons.prems IH show ?thesis by auto
  next
    case False
    obtain m ms where "split_nl s = m # ms" by (cases "split_nl s") auto
    with False Cons.prems IH[of m] IH[of l] show ?thesis by auto
  qed
qed simp

lemma join_split_nl [simp]: "join_nl (split_nl s) = s"
proof (induction s)
  case (Cons c s)
  then show ?case by (cases "split_nl s"; cases "tl (split_nl s)") auto
qed simp

lemma join_nl_terminated: "ls \<noteq> [] \<Longrightarrow> join_nl ls @ [LF] = concat (map (\<lambda>l. l @ [LF]) ls)"
  by (induction ls rule: join_nl.induct) auto

section \<open>Round trip\<close>

lemma strip_SP: "strip (SP # s) = strip s"
  by (simp add: strip_def lstrip_by_def is_space_def)

lemma line_end_kept: "s = [] \<or> last s \<noteq> CR \<and> last s \<noteq> LF \<Longrightarrow> rstrip_by (\<lambda>c. c = CR \<or> c = LF) s = s"
  by (rule rstrip_by_id) auto

lemma strip_last:
  assumes "strip s = s" "s \<noteq> []"
  shows "last s \<noteq> CR" "last s \<noteq> LF"
proof -
  have "\<not> is_space (last (rstrip_by is_space t))" if "rstrip_by is_space t \<noteq> []" for t
    using that hd_dropWhile[of is_space "rev t"] by (simp add: rstrip_by_def last_rev)
  from this[of "lstrip_by is_space s"] have "\<not> is_space (last s)" using assms by (simp add: strip_def)
  moreover have "is_space CR" "is_space LF" by (simp_all add: is_space_def)
  ultimately show "last s \<noteq> CR" "last s \<noteq> LF" by metis+
qed

lemmas feed_simps = feed_line_def Let_def startswith_def lit_def

lemma feed_event_line:
  assumes "strip ev = ev"
  shows "feed_line cur (lit ''event: '' @ ev) = (None, cur\<lparr>rf_event := ev\<rparr>)"
proof -
  have "rstrip_by (\<lambda>c. c = CR \<or> c = LF) (lit ''event: '' @ ev) = lit ''event: '' @ ev"
    using strip_last[OF assms] by (intro line_end_kept) (auto simp: lit_def)
  then show ?thesis using assms by (simp add: feed_simps strip_SP)
qed

lemma feed_id_line:
  assumes "strip i = i"
  shows "feed_line cur (lit ''id: '' @ i) = (None, cur\<lparr>rf_id := Some i\<rparr>)"
proof -
  have "rstrip_by (\<lambda>c. c = CR \<or> c = LF) (lit ''id: '' @ i) = lit ''id: '' @ i"
    using strip_last[OF assms] by (intro line_end_kept) (auto simp: lit_def)
  then show ?thesis using assms by (simp add: feed_simps strip_SP)
qed

lemma feed_data_line:
  assumes "CR \<notin> set l" "LF \<notin> set l"
  shows "feed_line cur (lit ''data: '' @ l) = (None, cur\<lparr>rf_data_lines := rf_data_lines cur @ [l]\<rparr>)"
proof -
  have "l \<noteq> [] \<Longrightarrow> last l \<noteq> CR \<and> last l \<noteq> LF" using assms last_in_set by metis
  then have "rstrip_by (\<lambda>c. c = CR \<or> c = LF) (lit ''data: '' @ l) = lit ''data: '' @ l"
    by (intro line_end_kept) (auto simp: lit_def)
  then show ?thesis by (simp add: feed_simps)
qed

lemma feed_blank_line: "feed_line cur [] = (if rf_data_lines cur \<noteq> [] \<or> (rf_id cur \<noteq> None \<and> rf_id cur \<noteq> Some []) \<or> rf_event cur \<noteq> lit ''message''
            then (Some cur, fresh_frame) else (None, cur))"
  by (simp add: feed_line_def rstrip_by_def)

lemma drain_data_lines:
  assumes "\<forall>l \<in> set ls. CR \<notin> set l \<and> LF \<notin> set l"
  shows "drain_lines cur (concat (map (\<lambda>l. l @ [LF]) (map (\<lambda>l. lit ''data: '' @ l) ls)) @ rest)
    = drain_lines (cur\<lparr>rf_data_lines := rf_data_lines cur @ ls\<rparr>) rest"
  using assms
proof (induction ls arbitrary: cur)
  case (Cons l ls)
  have "LF \<notin> set (lit ''data: '' @ l)" using Cons.prems by (simp add: lit_def)
  note dl = drain_line[OF this, of cur "concat (map (\<lambda>l. l @ [LF]) (map (\<lambda>l. lit ''data: '' @ l) ls)) @ rest"]
  have "drain_lines cur (concat (map (\<lambda>l. l @ [LF]) (map (\<lambda>l. lit ''data: '' @ l) (l # ls))) @ rest)
      = drain_lines (cur\<lparr>rf_data_lines := rf_data_lines cur @ [l]\<rparr>) (concat (map (\<lambda>l. l @ [LF]) (map (\<lambda>l. lit ''data: '' @ l) ls)) @ rest)"
    using dl Cons.prems by (simp add: feed_data_line split: prod.splits)
  with Cons show ?case by simp
qed simp

text \<open>A frame a server sends: a business frame with clean event and id, or a comment of one line.\<close>

definition clean_frame :: "sse_frame \<Rightarrow> bool" where
  "clean_frame f \<longleftrightarrow> fr_comment f = None \<and> strip (fr_event f) = fr_event f \<and> LF \<notin> set (fr_event f)
     \<and> (\<forall>i. fr_id f = Some i \<longrightarrow> strip i = i \<and> LF \<notin> set i)"

definition read_back :: "sse_frame \<Rightarrow> raw_frame" where
  "read_back f = \<lparr>rf_event = fr_event f, rf_data_lines = split_nl (crlf_sub (fr_data f)), rf_id = fr_id f\<rparr>"

lemma drain_frame:
  assumes "clean_frame f"
  shows "drain_lines fresh_frame (join_nl (frame_lines f) @ [LF, LF] @ rest) =
    (let (frames, c, b) = drain_lines fresh_frame rest in (read_back f # frames, c, b))"
proof -
  let ?ls = "split_nl (crlf_sub (fr_data f))"
  have ls: "\<forall>l \<in> set ?ls. CR \<notin> set l \<and> LF \<notin> set l"
    using split_nl_lines CR_notin_crlf_sub[of "fr_data f"] by blast
  have ev: "strip (fr_event f) = fr_event f" "LF \<notin> set (lit ''event: '' @ fr_event f)"
    using assms by (auto simp: clean_frame_def lit_def)
  define cur where "cur = fresh_frame\<lparr>rf_id := fr_id f\<rparr>"
  define tail where "tail = (lit ''event: '' @ fr_event f) @ LF # concat (map (\<lambda>l. l @ [LF]) (map (\<lambda>l. lit ''data: '' @ l) ?ls)) @ LF # rest"
  have "frame_lines f \<noteq> []" using assms by (simp add: clean_frame_def frame_lines_def)
  then have whole: "join_nl (frame_lines f) @ [LF, LF] @ rest = concat (map (\<lambda>l. l @ [LF]) (frame_lines f)) @ LF # rest"
    using join_nl_terminated[of "frame_lines f"] by (metis append.assoc append_Cons append_Nil)
  have "drain_lines fresh_frame (concat (map (\<lambda>l. l @ [LF]) (frame_lines f)) @ LF # rest) = drain_lines cur tail"
  proof (cases "fr_id f")
    case None
    then show ?thesis using assms by (simp add: clean_frame_def frame_lines_def cur_def tail_def fresh_frame_def)
  next
    case (Some i)
    then have i: "strip i = i" "LF \<notin> set (lit ''id: '' @ i)" using assms by (auto simp: clean_frame_def lit_def)
    have "concat (map (\<lambda>l. l @ [LF]) (frame_lines f)) @ LF # rest = (lit ''id: '' @ i) @ LF # tail"
      using assms Some by (simp add: clean_frame_def frame_lines_def tail_def)
    then show ?thesis
      by (simp only: drain_line[OF i(2)] feed_id_line[OF i(1)]) (simp add: cur_def Some split: prod.splits)
  qed
  also have "\<dots> = drain_lines (read_back f) (LF # rest)"
    unfolding tail_def
    by (simp only: drain_line[OF ev(2)] feed_event_line[OF ev(1)] drain_data_lines[OF ls] prod.case option.case)
      (simp add: cur_def fresh_frame_def read_back_def split: prod.splits)
  also have "\<dots> = (let (frames, c, b) = drain_lines fresh_frame rest in (read_back f # frames, c, b))"
    using drain_line[of "[]" "read_back f" rest] by (simp add: feed_blank_line) (simp add: read_back_def)
  finally show ?thesis unfolding whole .
qed

lemma drain_heartbeat:
  "drain_lines fresh_frame (join_nl (frame_lines heartbeat_frame) @ [LF, LF] @ rest) = drain_lines fresh_frame rest"
proof -
  have l: "frame_lines heartbeat_frame = [lit '':ping'']"
    by (simp add: frame_lines_def heartbeat_frame_def lit_def line_break_def Let_def)
  have "LF \<notin> set (lit '':ping'')" by (simp add: lit_def)
  note dl = drain_line[OF this, of fresh_frame "LF # rest"] drain_line[of "[]" fresh_frame rest]
  have f: "feed_line fresh_frame (lit '':ping'') = (None, fresh_frame)"
    by (simp add: feed_simps rstrip_by_def)
  have b: "feed_line fresh_frame [] = (None, fresh_frame)" by (simp add: feed_blank_line fresh_frame_def)
  show ?thesis using dl f b by (simp add: l split: prod.splits)
qed

text \<open>What a server writes: business events and heartbeats.\<close>

definition item_frame :: "((string, 'd payload_value) dict \<Rightarrow> ustr) \<Rightarrow> ('d envelope \<times> event_type) option \<Rightarrow> sse_frame" where
  "item_frame dumps item = (case item of None \<Rightarrow> heartbeat_frame | Some (env, ty) \<Rightarrow> frame_from_envelope dumps env ty)"

fun sent_events :: "'e option list \<Rightarrow> 'e list" where
  "sent_events [] = []"
| "sent_events (None # xs) = sent_events xs"
| "sent_events (Some e # xs) = e # sent_events xs"

definition clean_stream_id :: "ustr \<Rightarrow> bool" where
  "clean_stream_id i \<longleftrightarrow> LF \<notin> set i \<and> (i = [] \<or> \<not> is_space (hd i))"

lemma dec_nat_digits: "dec_nat n \<noteq> [] \<and> (\<forall>c \<in> set (dec_nat n). is_digit c)"
proof (induction n rule: dec_nat.induct)
  case (1 n)
  then show ?case by (subst dec_nat.simps) (subst (2) dec_nat.simps, auto simp: is_digit_def)
qed

lemma digit_not_space: "is_digit c \<Longrightarrow> \<not> is_space c \<and> c \<noteq> LF"
  by (auto simp: is_digit_def is_space_def)

lemma dec_int_digits: "dec_int n \<noteq> [] \<and> is_digit (last (dec_int n)) \<and> (\<forall>c \<in> set (dec_int n). is_digit c \<or> c = 45)"
  using dec_nat_digits[of "nat n"] dec_nat_digits[of "nat (- n)"] by (simp add: dec_int_def)

lemma strip_id:
  assumes "s \<noteq> []" "\<not> is_space (hd s)" "\<not> is_space (last s)"
  shows "strip s = s"
proof -
  have "lstrip_by is_space s = s" using assms(1,2) by (cases s) (simp_all add: lstrip_by_def)
  with assms show ?thesis by (simp add: strip_def rstrip_by_id)
qed

lemma sse_id_clean:
  assumes "clean_stream_id (ev_stream_id env)"
  shows "strip (sse_id env) = sse_id env" "LF \<notin> set (sse_id env)"
proof -
  have d: "\<not> is_space (last (dec_int (ev_seq env)))" "LF \<notin> set (dec_int (ev_seq env))"
    using dec_int_digits[of "ev_seq env"] by (auto simp: digit_not_space) (auto simp: is_digit_def)
  show "strip (sse_id env) = sse_id env"
  proof (rule strip_id)
    show "\<not> is_space (hd (sse_id env))"
      using assms by (cases "ev_stream_id env") (auto simp: sse_id_def clean_stream_id_def lit_def is_space_def)
  qed (use d dec_int_digits[of "ev_seq env"] in \<open>auto simp: sse_id_def lit_def\<close>)
  show "LF \<notin> set (sse_id env)" using assms d by (simp add: sse_id_def clean_stream_id_def lit_def)
qed

lemma event_value_clean: "strip (lit (event_value ty)) = lit (event_value ty)" "LF \<notin> set (lit (event_value ty))"
  by (cases ty; simp add: strip_def lstrip_by_def rstrip_by_def lit_def is_space_def)+

lemma clean_envelope_frame: "clean_stream_id (ev_stream_id env) \<Longrightarrow> clean_frame (frame_from_envelope dumps env ty)"
  by (simp add: clean_frame_def frame_from_envelope_def event_value_clean sse_id_clean)

definition item_text :: "sse_frame \<Rightarrow> ustr" where
  "item_text f = join_nl (frame_lines f) @ [LF, LF]"

lemma item_frame_simps [simp]:
  "item_frame dumps None = heartbeat_frame"
  "item_frame dumps (Some (env, ty)) = frame_from_envelope dumps env ty"
  by (simp_all add: item_frame_def)

lemma drain_item_text:
  "drain_lines fresh_frame (item_text heartbeat_frame @ rest) = drain_lines fresh_frame rest"
  "clean_frame f \<Longrightarrow> drain_lines fresh_frame (item_text f @ rest) =
    (let (frames, c, b) = drain_lines fresh_frame rest in (read_back f # frames, c, b))"
  using drain_heartbeat[of rest] drain_frame[of f rest] by (simp_all add: item_text_def)

lemma drain_items:
  assumes "\<forall>(env, ty) \<in> set (sent_events items). clean_stream_id (ev_stream_id env)"
  shows "drain_lines fresh_frame (concat (map (item_text \<circ> item_frame dumps) items)) =
    (map (\<lambda>(env, ty). read_back (frame_from_envelope dumps env ty)) (sent_events items), fresh_frame, [])"
  using assms
proof (induction items rule: sent_events.induct)
  case (2 items)
  then show ?case by (simp add: drain_item_text)
next
  case (3 e items)
  obtain env ty where e: "e = (env, ty)" by fastforce
  have "clean_stream_id (ev_stream_id env)" using 3(2) by (simp add: e)
  from clean_envelope_frame[OF this] 3 show ?case by (simp add: e drain_item_text)
qed (simp add: drain_none)

lemma utf8_encode_concat:
  assumes "map utf8_encode ts = map Inr bs"
  shows "utf8_encode (concat ts) = Inr (concat bs)"
  using assms
proof (induction ts arbitrary: bs)
  case (Cons t ts)
  then obtain b bs' where b: "bs = b # bs'" "utf8_encode t = Inr b" "map utf8_encode ts = map Inr bs'" by (cases bs) auto
  from Cons.IH[OF b(3)] b(1,2) show ?case by (auto simp: utf8_encode_def split: if_splits)
qed (simp add: utf8_encode_def)

lemma utf8_encode_inj: "utf8_encode s = Inr bs \<Longrightarrow> utf8_encode t = Inr bs \<Longrightarrow> s = t"
  using utf8_decode_encode[of s bs "[]"] utf8_decode_encode[of t bs "[]"] by simp

lemma decode_pieces:
  assumes "map utf8_encode ts = map Inr bs"
  shows "concat (map utf8_decode bs) = concat ts"
  using assms
proof (induction ts arbitrary: bs)
  case (Cons t ts)
  then obtain b bs' where b: "bs = b # bs'" "utf8_encode t = Inr b" "map utf8_encode ts = map Inr bs'" by (cases bs) auto
  from Cons.IH[OF b(3)] utf8_decode_encode[OF b(2), of "[]"] show ?case by (simp add: b(1))
qed simp

lemma sse_parse_sent:
  assumes ids: "\<forall>(env, ty) \<in> set (sent_events items). clean_stream_id (ev_stream_id env)"
    and sent: "map (\<lambda>i. frame_encode (item_frame dumps i)) items = map Inr frames"
    and cut: "map utf8_encode texts = map Inr chunks" "concat chunks = concat frames"
  shows "sse_parse chunks = map (\<lambda>(env, ty). read_back (frame_from_envelope dumps env ty)) (sent_events items)"
proof -
  have "map utf8_encode (map (item_text \<circ> item_frame dumps) items) = map Inr frames"
    using sent by (simp add: frame_encode_def item_text_def o_def)
  from utf8_encode_concat[OF this] utf8_encode_concat[OF cut(1)] cut(2)
  have "concat texts = concat (map (item_text \<circ> item_frame dumps) items)" by (metis utf8_encode_inj)
  with decode_pieces[OF cut(1)] drain_items[OF ids, of dumps] parse_from_concat[of "[]" fresh_frame chunks]
  show ?thesis by (simp add: sse_parse_def)
qed

section \<open>Chunk boundaries inside a character\<close>

lemma decode_continuation:
  "128 \<le> b \<Longrightarrow> b < 192 \<Longrightarrow> utf8_decode (b # bs) = 65533 # utf8_decode bs"
  by (simp add: utf8_next_def utf8_lead_def)

lemma decode_continuations:
  "\<forall>b \<in> set bs. 128 \<le> b \<and> b < 192 \<Longrightarrow> utf8_decode (bs @ rest) = replicate (length bs) 65533 @ utf8_decode rest"
  by (induction bs) (auto simp: decode_continuation simp del: utf8_decode.simps(2))

lemma utf8_bytes_continuations: "\<forall>b \<in> set (tl (utf8_bytes c)). 128 \<le> b \<and> b < 192"
  by (simp add: utf8_bytes_def)

lemma conts_cut:
  "utf8_conts n lo hi acc bs = (Some x, m) \<Longrightarrow> m = n \<and> (\<forall>j < n. utf8_conts n lo hi acc (take j bs) = (None, j))"
proof (induction n lo hi acc bs arbitrary: m rule: utf8_conts.induct)
  case (3 k lo hi acc c cs)
  from "3.prems" obtain m' where m: "lo \<le> c" "c \<le> hi" "m = Suc m'" "utf8_conts k 128 191 (acc * 64 + (c - 128)) cs = (Some x, m')"
    by (auto split: if_splits prod.splits)
  note IH = "3.IH"[OF conjI[OF m(1,2)] m(4)]
  show ?case
  proof (intro conjI allI impI)
    fix j assume "j < Suc k"
    then show "utf8_conts (Suc k) lo hi acc (take j (c # cs)) = (None, j)"
      using IH m(1,2) by (cases j) auto
  qed (use IH m(3) in simp)
qed auto

lemma next_cut:
  assumes "scalar c" "0 < k" "k < length (utf8_bytes c)"
  shows "utf8_next (hd (utf8_bytes c)) (take (k - 1) (tl (utf8_bytes c))) = (65533, k - 1)"
proof (cases "c = 65533")
  case True
  then have "utf8_bytes c = [239, 191, 189]" by (simp add: utf8_bytes_def)
  moreover have "k = 1 \<or> k = 2" using assms(2,3) calculation by auto
  ultimately show ?thesis by (auto simp: utf8_next_def utf8_lead_def numeral_2_eq_2)
next
  case False
  from utf8_next_char[OF assms(1), of "[]"] False
  obtain n lo hi acc where n: "utf8_lead (hd (utf8_bytes c)) = Some (n, lo, hi, acc)"
      "utf8_conts n lo hi acc (tl (utf8_bytes c)) = (Some c, length (utf8_bytes c) - 1)"
    by (auto simp: utf8_next_def split: option.splits prod.splits)
  have "k - 1 < n" using conts_cut[OF n(2)] assms(2,3) by linarith
  with conts_cut[OF n(2)] have "utf8_conts n lo hi acc (take (k - 1) (tl (utf8_bytes c))) = (None, k - 1)" by simp
  with n(1) show ?thesis by (simp add: utf8_next_def)
qed

lemma decode_cut_char:
  assumes "scalar c" "0 < k" "k < length (utf8_bytes c)"
  shows "utf8_decode (take k (utf8_bytes c)) = [65533]"
    "utf8_decode (drop k (utf8_bytes c) @ rest) = replicate (length (utf8_bytes c) - k) 65533 @ utf8_decode rest"
proof -
  obtain b bs where b: "utf8_bytes c = b # bs" using utf8_bytes_nonempty[of c] by (cases "utf8_bytes c") auto
  obtain j where k: "k = Suc j" using assms(2) by (cases k) auto
  show "utf8_decode (take k (utf8_bytes c)) = [65533]"
    using next_cut[OF assms] by (simp add: b k)
  have "\<forall>x \<in> set (drop k (utf8_bytes c)). 128 \<le> x \<and> x < 192"
    using utf8_bytes_continuations[of c] by (auto simp: b k dest: in_set_dropD)
  from decode_continuations[OF this, of rest]
  show "utf8_decode (drop k (utf8_bytes c) @ rest) = replicate (length (utf8_bytes c) - k) 65533 @ utf8_decode rest" by simp
qed

lemma utf8_decode_ascii: "\<forall>c \<in> set s. c < 128 \<Longrightarrow> utf8_decode (s @ rest) = s @ utf8_decode rest"
  by (induction s) (auto simp: utf8_next_def utf8_lead_def)

lemma parse_data_text:
  assumes "concat (map utf8_decode chunks) = lit ''data: '' @ l @ [LF, LF]" "CR \<notin> set l" "LF \<notin> set l"
  shows "sse_parse chunks = [\<lparr>rf_event = lit ''message'', rf_data_lines = [l], rf_id = None\<rparr>]"
proof -
  have "LF \<notin> set (lit ''data: '' @ l)" using assms(3) by (simp add: lit_def)
  from drain_line[OF this, of fresh_frame "[LF]"] drain_line[of "[]" "fresh_frame\<lparr>rf_data_lines := [l]\<rparr>" "[]"]
  have "drain_lines fresh_frame (concat (map utf8_decode chunks)) = ([fresh_frame\<lparr>rf_data_lines := [l]\<rparr>], fresh_frame, [])"
    using feed_data_line[OF assms(2,3), of fresh_frame] assms(1)
    by (simp add: feed_blank_line drain_none) (simp add: fresh_frame_def)
  with parse_from_concat[of "[]" fresh_frame chunks] show ?thesis by (simp add: sse_parse_def fresh_frame_def)
qed

section \<open>The resume anchor\<close>

lemma digits_value_dec: "digits_value acc (dec_nat n) = Some (acc * 10 ^ length (dec_nat n) + n)"
proof (induction n arbitrary: acc rule: dec_nat.induct)
  case (1 n)
  have app: "\<forall>c \<in> set xs. is_digit c \<Longrightarrow> digits_value a (xs @ ys) = (case digits_value a xs of None \<Rightarrow> None | Some v \<Rightarrow> digits_value v ys)"
    for a xs ys by (induction xs arbitrary: a) auto
  show ?case
  proof (cases "n < 10")
    case True
    then show ?thesis by (simp add: dec_nat.simps[of n] is_digit_def)
  next
    case False
    have s: "dec_nat n = dec_nat (n div 10) @ [48 + n mod 10]" using False by (simp add: dec_nat.simps[of n])
    have "\<forall>c \<in> set (dec_nat (n div 10)). is_digit c" using dec_nat_digits by blast
    from app[OF this, of acc "[48 + n mod 10]"] 1[OF False, of acc] show ?thesis
      by (simp add: s is_digit_def algebra_simps)
  qed
qed

lemma unsigned_int_dec: "unsigned_int (dec_nat n) = Some n"
  using dec_nat_digits[of n] digits_value_dec[of 0 n] by (cases "dec_nat n") (auto simp: unsigned_int_def)

lemma py_int_dec: "py_int_of_text (dec_int i) = Some i"
proof -
  have "strip (dec_int i) = dec_int i"
  proof (rule strip_id)
    have "is_digit c \<or> c = 45 \<Longrightarrow> \<not> is_space c" for c by (auto simp: is_digit_def is_space_def)
    then show "\<not> is_space (hd (dec_int i))" "\<not> is_space (last (dec_int i))"
      using dec_int_digits[of i] hd_in_set last_in_set by metis+
  qed (use dec_int_digits in blast)
  moreover have "is_digit (hd (dec_nat n))" for n using dec_nat_digits[of n] hd_in_set by metis
  then have "\<not> startswith (dec_nat n) [45]" "\<not> startswith (dec_nat n) [43]" for n
    by (cases "dec_nat n"; auto simp: startswith_def is_digit_def; metis list.sel(1) numeral_le_iff semiring_norm)+
  ultimately show ?thesis
    by (auto simp: py_int_of_text_def Let_def dec_int_def unsigned_int_dec startswith_def)
qed

lemma rpartition_anchor: "58 \<notin> set b \<Longrightarrow> rpartition_colon (a @ lit '':'' @ b) = Some (a, b)"
proof -
  assume "58 \<notin> set b"
  then have "takeWhile (\<lambda>c. c \<noteq> 58) (rev b @ 58 # rev a) = rev b" "dropWhile (\<lambda>c. c \<noteq> 58) (rev b @ 58 # rev a) = 58 # rev a"
    by (subst takeWhile_append2 dropWhile_append2; auto)+
  then show ?thesis by (simp add: rpartition_colon_def lit_def)
qed

section \<open>Properties\<close>

text \<open>C25. The client reads back what the server writes.  Whatever sequence of events and heartbeats is encoded, and
  however the bytes are cut into chunks between characters, \<^verbatim>\<open>SSEClient.parse\<close> yields exactly one frame per
  event, in order, with the event's type as its name, its resume anchor as its id and its payload text with
  the newlines normalised as its data; heartbeats yield nothing.  Stream ids must not contain a line feed or
  start with whitespace.\<close>

theorem sse_round_trip:
  assumes "\<forall>(env, ty) \<in> set (sent_events items). clean_stream_id (ev_stream_id env)"
    and "map (\<lambda>i. frame_encode (item_frame dumps i)) items = map Inr frames"
    and "map utf8_encode texts = map Inr chunks" and "concat chunks = concat frames"
  shows "map (\<lambda>f. (rf_event f, rf_id f, rf_data f)) (sse_parse chunks) =
    map (\<lambda>(env, ty). (lit (event_value ty), Some (sse_id env), crlf_sub (dumps (to_payload env)))) (sent_events items)"
  unfolding sse_parse_sent[OF assms]
  by (auto simp: read_back_def frame_from_envelope_def rf_data_def)

definition demo_envelope :: "unit envelope" where
  "demo_envelope = \<lparr>ev_v = 1, ev_stream_id = lit ''s'', ev_stage = None, ev_seq = 1, ev_ts = 0, ev_data = ()\<rparr>"

definition demo_frames :: "nat list list" where
  "demo_frames = [lit '':ping'' @ [LF, LF],
     lit ''id: s:1'' @ [LF] @ lit ''event: stream.delta'' @ [LF] @ lit ''data: '' @ [195, 169, LF] @ lit ''data: x'' @ [LF, LF]]"

lemma demo_sent:
  "map (\<lambda>i. frame_encode (item_frame (\<lambda>_. [233, CR, LF, 120]) i)) [None, Some (demo_envelope, STREAM_DELTA)] = map Inr demo_frames"
  by (simp add: frame_encode_def frame_lines_def demo_frames_def utf8_encode_def heartbeat_frame_def frame_from_envelope_def
      demo_envelope_def sse_id_def dec_int_def dec_nat.simps lit_def scalar_def utf8_bytes_def line_break_def Let_def)

lemma demo_chunks:
  "map utf8_encode [lit '':ping'' @ [LF], LF # lit ''id: s:1'' @ [LF] @ lit ''event: stream.delta'' @ [LF] @ lit ''data: '' @ [233],
      LF # lit ''data: x'' @ [LF, LF]] =
   map Inr [lit '':ping'' @ [LF], LF # lit ''id: s:1'' @ [LF] @ lit ''event: stream.delta'' @ [LF] @ lit ''data: '' @ [195, 169],
      LF # lit ''data: x'' @ [LF, LF]]"
  by (simp add: utf8_encode_def lit_def scalar_def utf8_bytes_def)

theorem sse_round_trip_witness:
  "map (\<lambda>f. (rf_event f, rf_id f, rf_data f))
     (sse_parse [lit '':ping'' @ [LF], LF # lit ''id: s:1'' @ [LF] @ lit ''event: stream.delta'' @ [LF] @ lit ''data: '' @ [195, 169],
        LF # lit ''data: x'' @ [LF, LF]])
   = [(lit ''stream.delta'', Some (lit ''s:1''), [233, LF, 120])]"
proof -
  have c: "\<forall>(env, ty) \<in> set (sent_events [None, Some (demo_envelope, STREAM_DELTA)]). clean_stream_id (ev_stream_id env)"
    by (simp add: clean_stream_id_def demo_envelope_def lit_def is_space_def)
  have j: "concat [lit '':ping'' @ [LF], LF # lit ''id: s:1'' @ [LF] @ lit ''event: stream.delta'' @ [LF] @ lit ''data: '' @ [195, 169],
      LF # lit ''data: x'' @ [LF, LF]] = concat demo_frames"
    by (simp add: demo_frames_def)
  show ?thesis
    using sse_round_trip[OF c demo_sent demo_chunks j]
    by (simp add: demo_envelope_def sse_id_def dec_int_def dec_nat.simps lit_def)
qed

text \<open>C26. A chunk boundary inside a character destroys it.  Every character outside ASCII takes at least two
  bytes, and a data line whose bytes are cut inside the character is read as one replacement character for
  the first part and one for each byte of the second, since each chunk is decoded on its own; sent in one
  chunk it is read as it is.\<close>

theorem split_character_is_lost:
  assumes "scalar c" "0 < k" "k < length (utf8_bytes c)"
  shows "map rf_data (sse_parse [lit ''data: '' @ utf8_bytes c @ [LF, LF]]) = [[c]]
    \<and> map rf_data (sse_parse [lit ''data: '' @ take k (utf8_bytes c), drop k (utf8_bytes c) @ [LF, LF]])
        = [65533 # replicate (length (utf8_bytes c) - k) 65533]"
proof -
  have c: "128 \<le> c" using assms(2,3) by (cases "c < 128") (simp_all add: utf8_bytes_def)
  have d: "utf8_decode (lit ''data: '' @ rest) = lit ''data: '' @ utf8_decode rest" for rest
    by (rule utf8_decode_ascii) (simp add: lit_def)
  have e: "utf8_decode [LF, LF] = [LF, LF]" using utf8_decode_ascii[of "[LF, LF]" "[]"] by simp
  have whole: "sse_parse [lit ''data: '' @ utf8_bytes c @ [LF, LF]] = [\<lparr>rf_event = lit ''message'', rf_data_lines = [[c]], rf_id = None\<rparr>]"
    by (rule parse_data_text) (use c in \<open>simp_all add: d e utf8_decode_char[OF assms(1)] del: utf8_decode.simps\<close>)
  have "sse_parse [lit ''data: '' @ take k (utf8_bytes c), drop k (utf8_bytes c) @ [LF, LF]]
      = [\<lparr>rf_event = lit ''message'', rf_data_lines = [65533 # replicate (length (utf8_bytes c) - k) 65533], rf_id = None\<rparr>]"
    by (rule parse_data_text) (simp_all add: d e decode_cut_char[OF assms] del: utf8_decode.simps)
  with whole show ?thesis by (simp add: rf_data_def)
qed

theorem split_character_is_lost_witness:
  "map rf_data (sse_parse [lit ''data: '' @ [195, 169] @ [LF, LF]]) = [[233]]
    \<and> map rf_data (sse_parse [lit ''data: '' @ [195], [169] @ [LF, LF]]) = [[65533, 65533]]"
proof -
  have b: "utf8_bytes 233 = [195, 169]" by (simp add: utf8_bytes_def)
  have "scalar 233" "0 < (1::nat)" "1 < length (utf8_bytes 233)" by (simp_all add: scalar_def b)
  from split_character_is_lost[OF this] show ?thesis by (simp add: b)
qed

text \<open>The resume anchor round-trips: the id of an event, sent back by a client as Last-Event-ID, is parsed to the
  stream id and sequence number of that event, whatever colons the stream id contains.\<close>

theorem anchor_round_trip:
  assumes "ev_stream_id env \<noteq> []"
  shows "parse_last_event_id (Some (sse_id env)) = Some (ev_stream_id env, ev_seq env)"
proof -
  have "58 \<notin> set (dec_int (ev_seq env))" using dec_int_digits[of "ev_seq env"] by (auto simp: is_digit_def)
  with assms show ?thesis
    by (simp add: parse_last_event_id_def sse_id_def rpartition_anchor py_int_dec)
qed

theorem anchor_round_trip_witness:
  "parse_last_event_id (Some (lit ''a:b:-12'')) = Some (lit ''a:b'', -12)"
proof -
  have "sse_id (demo_envelope\<lparr>ev_stream_id := lit ''a:b'', ev_seq := -12\<rparr>) = lit ''a:b:-12''"
    by (simp add: sse_id_def dec_int_def dec_nat.simps lit_def)
  with anchor_round_trip[of "demo_envelope\<lparr>ev_stream_id := lit ''a:b'', ev_seq := -12\<rparr>"] show ?thesis by (simp add: lit_def)
qed

end
