(* ===== verification/Mux.thy ===== *)
theory Mux
  imports SSE "HOL-Library.Sublist" "HOL-Library.Multiset"
begin

text \<open>
  The stream multiplexer (\<^verbatim>\<open>stream/mux/multiplexer.py\<close>): producers put events of many streams into one bounded
  queue; the consumer numbers them per stream.  An operation that would wait on the queue returns \<^verbatim>\<open>PutWaits\<close>;
  the waiting puts, the consumer and the producers interleave freely in the step relation \<^verbatim>\<open>mux_step\<close>, which puts no
  condition on what the producers call.
\<close>

section \<open>State and operations\<close>

datatype backpressure_policy = BLOCK | FAIL

record 'd queued_item =
  qi_stream_id :: ustr
  qi_stage :: "ustr option"
  qi_event_type :: event_type
  qi_data :: 'd

record 'd mux =
  mx_maxsize :: int
  mx_queue :: "'d queued_item option list" \<comment> \<open>None is the sentinel\<close>
  mx_backpressure :: backpressure_policy
  mx_allocators :: "(ustr, int) dict"
  mx_open :: "ustr set"
  mx_closed :: bool

definition mux_init :: "int \<Rightarrow> backpressure_policy \<Rightarrow> 'd mux" where
  "mux_init maxsize bp = \<lparr>mx_maxsize = maxsize, mx_queue = [], mx_backpressure = bp, mx_allocators = [], mx_open = {}, mx_closed = False\<rparr>"

text \<open>\<^verbatim>\<open>asyncio.Queue.full\<close>: a size of zero or less means unbounded.\<close>

definition q_full :: "'d mux \<Rightarrow> bool" where
  "q_full m \<longleftrightarrow> 0 < mx_maxsize m \<and> mx_maxsize m \<le> int (length (mx_queue m))"

definition q_put :: "'d queued_item option \<Rightarrow> 'd mux \<Rightarrow> 'd mux" where
  "q_put it m = m\<lparr>mx_queue := mx_queue m @ [it]\<rparr>"

datatype 'd put_result = Enqueued "'d mux" | PutWaits "'d mux" "'d queued_item option" | PutRaised exn

text \<open>\<^verbatim>\<open>await queue.put(item)\<close>.\<close>

definition await_put :: "'d queued_item option \<Rightarrow> 'd mux \<Rightarrow> 'd put_result" where
  "await_put it m = (if q_full m then PutWaits m it else Enqueued (q_put it m))"

definition seq_next :: "ustr \<Rightarrow> (ustr, int) dict \<Rightarrow> int \<times> (ustr, int) dict" where
  "seq_next sid al = (let n = dget al sid 0 + 1 in (n, dset sid n al))"

definition mux_register :: "ustr \<Rightarrow> 'd mux \<Rightarrow> 'd mux" where
  "mux_register sid m =
     (let al = (if map_of (mx_allocators m) sid = None then dset sid 0 (mx_allocators m) else mx_allocators m)
      in m\<lparr>mx_allocators := al, mx_open := insert sid (mx_open m)\<rparr>)"

definition mux_emit :: "ustr \<Rightarrow> event_type \<Rightarrow> 'd \<Rightarrow> ustr option \<Rightarrow> 'd mux \<Rightarrow> 'd put_result" where
  "mux_emit sid ty data stage m =
     (if mx_closed m then PutRaised RuntimeErr
      else let it = \<lparr>qi_stream_id = sid, qi_stage = stage, qi_event_type = ty, qi_data = data\<rparr>
        in if mx_backpressure m = BLOCK then await_put (Some it) m
           else if q_full m then PutRaised StreamBackpressure
           else Enqueued (q_put (Some it) m))"

definition mux_close_stream :: "ustr \<Rightarrow> 'd mux \<Rightarrow> 'd put_result" where
  "mux_close_stream sid m =
     (let m = m\<lparr>mx_open := mx_open m - {sid}\<rparr>
      in if mx_open m = {} \<and> \<not> mx_closed m then await_put None (m\<lparr>mx_closed := True\<rparr>) else Enqueued m)"

definition mux_force_close :: "'d mux \<Rightarrow> 'd mux" where
  "mux_force_close m =
     (if mx_closed m then m
      else let m = m\<lparr>mx_closed := True, mx_open := {}\<rparr>
        in if \<not> q_full m then q_put None m
           else let m = (if mx_queue m = [] then m else m\<lparr>mx_queue := tl (mx_queue m)\<rparr>)
             in if \<not> q_full m then q_put None m else m)"

text \<open>One turn of the consumer loop, up to its \<^verbatim>\<open>yield\<close>.\<close>

datatype 'd next_result = Stop "'d mux" | WaitItem | Yield "'d envelope" event_type "'d mux"

definition mux_next :: "real \<Rightarrow> 'd mux \<Rightarrow> 'd next_result" where
  "mux_next now m =
     (if mx_closed m \<and> mx_queue m = [] then Stop m
      else case mx_queue m of
        [] \<Rightarrow> WaitItem
      | None # q \<Rightarrow> Stop (m\<lparr>mx_queue := q\<rparr>)
      | Some it # q \<Rightarrow>
          (let (n, al) = seq_next (qi_stream_id it) (mx_allocators m)
           in Yield \<lparr>ev_v = 1, ev_stream_id = qi_stream_id it, ev_stage = qi_stage it, ev_seq = n, ev_ts = now, ev_data = qi_data it\<rparr>
                (qi_event_type it) (m\<lparr>mx_queue := q, mx_allocators := al\<rparr>)))"

text \<open>The consumer loop while no producer acts: None when it would wait or the fuel runs out.\<close>

fun mux_events :: "(nat \<Rightarrow> real) \<Rightarrow> nat \<Rightarrow> 'd mux \<Rightarrow> (('d envelope \<times> event_type) list \<times> 'd mux) option" where
  "mux_events clock 0 m = None"
| "mux_events clock (Suc fuel) m =
     (case mux_next (clock fuel) m of
        Stop m' \<Rightarrow> Some ([], m')
      | WaitItem \<Rightarrow> None
      | Yield env ty m' \<Rightarrow> map_option (\<lambda>(evs, m''). ((env, ty) # evs, m'')) (mux_events clock fuel m'))"

section \<open>Interleavings\<close>

text \<open>What an event carries of the item it was made from.\<close>

definition item_of :: "'d envelope \<times> event_type \<Rightarrow> 'd queued_item" where
  "item_of e = (case e of (env, ty) \<Rightarrow>
     \<lparr>qi_stream_id = ev_stream_id env, qi_stage = ev_stage env, qi_event_type = ty, qi_data = ev_data env\<rparr>)"

record 'd mux_system =
  ms_mux :: "'d mux"
  ms_waiting :: "'d queued_item option list" \<comment> \<open>puts that wait for room\<close>
  ms_sent :: "'d queued_item list" \<comment> \<open>events put, in queue order\<close>
  ms_out :: "('d envelope \<times> event_type) list"
  ms_done :: bool
  ms_forced :: bool
  ms_closing :: "('d queued_item list \<times> 'd queued_item list) option" \<comment> \<open>at the last close: events put, events waiting\<close>

definition mux_start :: "int \<Rightarrow> backpressure_policy \<Rightarrow> 'd mux_system" where
  "mux_start maxsize bp =
     \<lparr>ms_mux = mux_init maxsize bp, ms_waiting = [], ms_sent = [], ms_out = [], ms_done = False, ms_forced = False, ms_closing = None\<rparr>"

definition somes :: "'a option list \<Rightarrow> 'a list" where
  "somes xs = List.map_filter (\<lambda>x. x) xs"

definition new_item :: "ustr \<Rightarrow> event_type \<Rightarrow> 'd \<Rightarrow> ustr option \<Rightarrow> 'd queued_item" where
  "new_item sid ty data stage = \<lparr>qi_stream_id = sid, qi_stage = stage, qi_event_type = ty, qi_data = data\<rparr>"

text \<open>Producers, waiting puts and the consumer in any order.  A put waits until there is room or its task is cancelled; neither
  emitting nor closing checks whether the stream is registered or other puts on it wait.  \<^verbatim>\<open>ms_closing\<close> remembers what had
  been put, and what waited, when the last stream was closed.\<close>

definition closed_by :: "'d mux \<Rightarrow> 'd mux_system \<Rightarrow> 'd mux_system" where
  "closed_by m s = s\<lparr>ms_mux := m,
     ms_closing := (if mx_closed m \<and> \<not> mx_closed (ms_mux s) then Some (ms_sent s, somes (ms_waiting s)) else ms_closing s)\<rparr>"

lemma closed_by_simps [simp]:
  "ms_mux (closed_by m s) = m" "ms_waiting (closed_by m s) = ms_waiting s" "ms_sent (closed_by m s) = ms_sent s"
  "ms_out (closed_by m s) = ms_out s" "ms_done (closed_by m s) = ms_done s" "ms_forced (closed_by m s) = ms_forced s"
  by (simp_all add: closed_by_def)

inductive mux_step :: "'d mux_system \<Rightarrow> 'd mux_system \<Rightarrow> bool" where
  step_register: "mux_step s (s\<lparr>ms_mux := mux_register sid (ms_mux s)\<rparr>)"
| step_emit: "mux_emit sid ty data stage (ms_mux s) = Enqueued m \<Longrightarrow>
    mux_step s (s\<lparr>ms_mux := m, ms_sent := ms_sent s @ [new_item sid ty data stage]\<rparr>)"
| step_emit_waits: "mux_emit sid ty data stage (ms_mux s) = PutWaits m it \<Longrightarrow>
    mux_step s (s\<lparr>ms_mux := m, ms_waiting := ms_waiting s @ [it]\<rparr>)"
| step_resume: "ms_waiting s = xs @ it # ys \<Longrightarrow> \<not> q_full (ms_mux s) \<Longrightarrow>
    mux_step s (s\<lparr>ms_mux := q_put it (ms_mux s), ms_waiting := xs @ ys, ms_sent := ms_sent s @ somes [it]\<rparr>)"
| step_give_up: "ms_waiting s = xs @ it # ys \<Longrightarrow> mux_step s (s\<lparr>ms_waiting := xs @ ys\<rparr>)"
| step_close: "mux_close_stream sid (ms_mux s) = Enqueued m \<Longrightarrow> mux_step s (closed_by m s)"
| step_close_waits: "mux_close_stream sid (ms_mux s) = PutWaits m it \<Longrightarrow>
    mux_step s ((closed_by m s)\<lparr>ms_waiting := ms_waiting s @ [it]\<rparr>)"
| step_force: "mux_step s (s\<lparr>ms_mux := mux_force_close (ms_mux s), ms_forced := True\<rparr>)"
| step_yield: "\<not> ms_done s \<Longrightarrow> mux_next now (ms_mux s) = Yield env ty m \<Longrightarrow>
    mux_step s (s\<lparr>ms_mux := m, ms_out := ms_out s @ [(env, ty)]\<rparr>)"
| step_stop: "\<not> ms_done s \<Longrightarrow> mux_next now (ms_mux s) = Stop m \<Longrightarrow>
    mux_step s (s\<lparr>ms_mux := m, ms_done := True\<rparr>)"

inductive mux_reach :: "int \<Rightarrow> backpressure_policy \<Rightarrow> 'd mux_system \<Rightarrow> bool" for maxsize bp where
  reach_start: "mux_reach maxsize bp (mux_start maxsize bp)"
| reach_step: "mux_reach maxsize bp s \<Longrightarrow> mux_step s s' \<Longrightarrow> mux_reach maxsize bp s'"

section \<open>Invariants\<close>

lemma somes_simps [simp]:
  "somes [] = []" "somes (None # xs) = somes xs" "somes (Some x # xs) = x # somes xs" "somes (xs @ ys) = somes xs @ somes ys"
  by (simp_all add: somes_def map_filter_simps List.map_filter_def)

text \<open>Sequence numbers: the events of a stream are numbered from one without a gap.\<close>

definition seqs_of :: "ustr \<Rightarrow> ('d envelope \<times> event_type) list \<Rightarrow> int list" where
  "seqs_of sid evs = map (ev_seq \<circ> fst) (filter (\<lambda>e. ev_stream_id (fst e) = sid) evs)"

definition numbered :: "'d mux_system \<Rightarrow> bool" where
  "numbered s \<longleftrightarrow> (\<forall>sid. dget (mx_allocators (ms_mux s)) sid 0 = int (length (seqs_of sid (ms_out s)))
     \<and> seqs_of sid (ms_out s) = [1..int (length (seqs_of sid (ms_out s)))])"

text \<open>Without a forced close nothing that was put is dropped from the queue, what had been put at the close is yielded
  before the consumer stops, and what is put or waits after it waited already at the close.\<close>

fun before_sentinel :: "'a option list \<Rightarrow> 'a list" where
  "before_sentinel [] = []"
| "before_sentinel (None # q) = []"
| "before_sentinel (Some x # q) = x # before_sentinel q"

definition ahead :: "'d mux_system \<Rightarrow> 'd queued_item list" where
  "ahead s = map item_of (ms_out s) @ (if ms_done s then [] else before_sentinel (mx_queue (ms_mux s)))"

definition closing_ok :: "'d mux_system \<Rightarrow> bool" where
  "closing_ok s \<longleftrightarrow> (\<forall>early late. ms_closing s = Some (early, late) \<longrightarrow>
     prefix early (ahead s) \<and> mset (ms_sent s) + mset (somes (ms_waiting s)) \<subseteq># mset early + mset late)"

definition lossless :: "'d mux_system \<Rightarrow> bool" where
  "lossless s \<longleftrightarrow> ms_sent s = map item_of (ms_out s) @ somes (mx_queue (ms_mux s))
     \<and> (ms_done s \<longrightarrow> mx_closed (ms_mux s))
     \<and> (\<not> mx_closed (ms_mux s) \<longrightarrow> None \<notin> set (mx_queue (ms_mux s) @ ms_waiting s))
     \<and> (ms_closing s = None \<longleftrightarrow> \<not> mx_closed (ms_mux s)) \<and> closing_ok s"

lemmas mux_defs = mux_register_def mux_emit_def mux_close_stream_def mux_force_close_def await_put_def q_put_def Let_def

lemma numbered_keep:
  "numbered s \<Longrightarrow> ms_out s' = ms_out s \<Longrightarrow> (\<And>sid. dget (mx_allocators (ms_mux s')) sid 0 = dget (mx_allocators (ms_mux s)) sid 0) \<Longrightarrow> numbered s'"
  by (simp add: numbered_def)

lemma mux_next_yield:
  assumes "mux_next now m = Yield env ty m'"
  obtains it q where "mx_queue m = Some it # q" "item_of (env, ty) = it" "m' = m\<lparr>mx_queue := q, mx_allocators := mx_allocators m'\<rparr>"
    "ev_seq env = dget (mx_allocators m) (ev_stream_id env) 0 + 1"
    "\<And>sid. dget (mx_allocators m') sid 0 = (if sid = ev_stream_id env then ev_seq env else dget (mx_allocators m) sid 0)"
  using assms
  by (cases "mx_queue m"; cases "hd (mx_queue m)")
    (auto simp: mux_next_def seq_next_def item_of_def Let_def dget_def dict_simps split: if_splits prod.splits)

lemma numbered_step: "mux_step s s' \<Longrightarrow> numbered s \<Longrightarrow> numbered s'"
proof (induction rule: mux_step.induct)
  case (step_yield s now env ty m)
  obtain it q where y: "ev_seq env = dget (mx_allocators (ms_mux s)) (ev_stream_id env) 0 + 1"
    "\<And>sid. dget (mx_allocators m) sid 0 = (if sid = ev_stream_id env then ev_seq env else dget (mx_allocators (ms_mux s)) sid 0)"
    using mux_next_yield[OF step_yield(2)] by metis
  have "int (length (seqs_of (ev_stream_id env) (ms_out s))) \<ge> 0" by simp
  then show ?case using step_yield(3)
    by (auto simp: numbered_def seqs_of_def y upto_rec2)
next
  case (step_stop s now m)
  then show ?case by (elim numbered_keep) (auto simp: mux_next_def split: if_splits list.splits option.splits prod.splits)
qed (erule numbered_keep; auto simp: mux_defs dget_def dict_simps split: if_splits option.splits)+

lemma mux_next_stop:
  "mux_next now m = Stop m' \<Longrightarrow> mx_closed m \<and> mx_queue m = [] \<and> m' = m \<or> (\<exists>q. mx_queue m = None # q \<and> m' = m\<lparr>mx_queue := q\<rparr>)"
  by (auto simp: mux_next_def split: if_splits list.splits option.splits prod.splits)

lemma emit_enqueued: "mux_emit sid ty data stage m = Enqueued m' \<Longrightarrow>
    \<not> mx_closed m \<and> m' = q_put (Some (new_item sid ty data stage)) m"
  by (auto simp: mux_emit_def await_put_def new_item_def Let_def split: if_splits)

lemma emit_waits: "mux_emit sid ty data stage m = PutWaits m' it \<Longrightarrow>
    \<not> mx_closed m \<and> m' = m \<and> it = Some (new_item sid ty data stage)"
  by (auto simp: mux_emit_def await_put_def new_item_def Let_def split: if_splits)

lemma close_result:
  "mux_close_stream sid m = Enqueued m' \<Longrightarrow>
     m' = m\<lparr>mx_open := mx_open m - {sid}\<rparr>
     \<or> \<not> mx_closed m \<and> mx_open m - {sid} = {} \<and> m' = q_put None (m\<lparr>mx_open := mx_open m - {sid}, mx_closed := True\<rparr>)"
  "mux_close_stream sid m = PutWaits m' it \<Longrightarrow>
     \<not> mx_closed m \<and> mx_open m - {sid} = {} \<and> it = None \<and> m' = m\<lparr>mx_open := mx_open m - {sid}, mx_closed := True\<rparr>"
  by (auto simp: mux_close_stream_def await_put_def Let_def split: if_splits)

lemma somes_nil_iff: "somes xs = [] \<longleftrightarrow> (\<forall>x \<in> set xs. x = None)"
  by (induction xs) (auto simp: somes_def map_filter_simps split: option.splits)

lemma somes_members: "it \<in> set (somes xs) \<longleftrightarrow> Some it \<in> set xs"
  by (induction xs) (auto simp: somes_def map_filter_simps split: option.splits)

lemma before_sentinel_put: "prefix (before_sentinel q) (before_sentinel (q @ [it]))" "before_sentinel (q @ [None]) = before_sentinel q"
  by (induction q rule: before_sentinel.induct) auto

lemma before_sentinel_all: "None \<notin> set q \<Longrightarrow> before_sentinel q = somes q"
  by (induction q rule: before_sentinel.induct) auto

lemma ahead_put: "prefix (ahead s) (ahead (s\<lparr>ms_mux := q_put it (ms_mux s), ms_waiting := w, ms_sent := x\<rparr>))"
  by (simp add: ahead_def q_put_def before_sentinel_put(1))

lemma closing_ok_mono:
  assumes "closing_ok s" "ms_closing s' = ms_closing s" "prefix (ahead s) (ahead s')"
    "mset (ms_sent s') + mset (somes (ms_waiting s')) \<subseteq># mset (ms_sent s) + mset (somes (ms_waiting s))"
  shows "closing_ok s'"
  unfolding closing_ok_def
proof (intro allI impI conjI)
  fix early late assume "ms_closing s' = Some (early, late)"
  then have c: "prefix early (ahead s)" "mset (ms_sent s) + mset (somes (ms_waiting s)) \<subseteq># mset early + mset late"
    using assms(1,2) by (simp_all add: closing_ok_def)
  show "prefix early (ahead s')" by (rule prefix_order.trans[OF c(1) assms(3)])
  show "mset (ms_sent s') + mset (somes (ms_waiting s')) \<subseteq># mset early + mset late"
    by (rule subset_mset.order_trans[OF assms(4) c(2)])
qed

lemma closing_ok_None: "ms_closing s = None \<Longrightarrow> closing_ok s"
  by (simp add: closing_ok_def)

lemma lossless_close:
  assumes l: "lossless s" and c: "\<not> mx_closed (ms_mux s)" "mx_closed m" "somes w = somes (ms_waiting s)"
    "mx_queue m = mx_queue (ms_mux s) \<or> mx_queue m = mx_queue (ms_mux s) @ [None]"
  shows "lossless ((closed_by m s)\<lparr>ms_waiting := w\<rparr>)"
proof -
  have n: "None \<notin> set (mx_queue (ms_mux s))" "\<not> ms_done s" "ms_sent s = map item_of (ms_out s) @ somes (mx_queue (ms_mux s))"
    using l c(1) by (auto simp: lossless_def)
  have "before_sentinel (mx_queue m) = somes (mx_queue (ms_mux s))"
    using c(4) before_sentinel_put(2)[of "mx_queue (ms_mux s)"] before_sentinel_all[OF n(1)] by auto
  then have "closing_ok ((closed_by m s)\<lparr>ms_waiting := w\<rparr>)" using n(2,3) c by (simp add: closing_ok_def closed_by_def ahead_def)
  then show ?thesis using n c by (auto simp: lossless_def closed_by_def)
qed

lemma lossless_close_again:
  assumes "lossless s"
  shows "lossless (closed_by (ms_mux s\<lparr>mx_open := op\<rparr>) s)"
proof -
  let ?s = "s\<lparr>ms_mux := ms_mux s\<lparr>mx_open := op\<rparr>\<rparr>"
  have e: "closed_by (ms_mux s\<lparr>mx_open := op\<rparr>) s = ?s" by (simp add: closed_by_def)
  have "closing_ok ?s" by (rule closing_ok_mono[of s]) (use assms in \<open>simp_all add: lossless_def ahead_def\<close>)
  then show ?thesis unfolding e using assms by (auto simp: lossless_def)
qed

lemma mset_somes_resume: "mset (somes (xs @ it # ys)) = mset (somes [it]) + mset (somes (xs @ ys))"
  by (cases it) simp_all

lemma lossless_resume:
  assumes "ms_waiting s = xs @ it # ys" "lossless s"
  shows "lossless (s\<lparr>ms_mux := q_put it (ms_mux s), ms_waiting := xs @ ys, ms_sent := ms_sent s @ somes [it]\<rparr>)" (is "lossless ?s")
proof -
  have ms: "mset (ms_sent ?s) + mset (somes (ms_waiting ?s)) = mset (ms_sent s) + mset (somes (ms_waiting s))"
    unfolding assms(1) mset_somes_resume by (simp add: ac_simps)
  have "closing_ok s" using assms(2) by (simp add: lossless_def)
  then have "closing_ok ?s" by (rule closing_ok_mono[OF _ _ ahead_put]) (simp, simp only: ms subset_mset.order_refl)
  with assms show ?thesis by (auto simp: lossless_def q_put_def)
qed

lemma lossless_closed:
  assumes "mux_close_stream sid (ms_mux s) = Enqueued m" "lossless s"
  shows "lossless (closed_by m s)"
  using close_result(1)[OF assms(1)]
proof
  assume "m = ms_mux s\<lparr>mx_open := mx_open (ms_mux s) - {sid}\<rparr>"
  then show ?thesis using lossless_close_again[OF assms(2)] by simp
next
  assume "\<not> mx_closed (ms_mux s) \<and> mx_open (ms_mux s) - {sid} = {}
    \<and> m = q_put None (ms_mux s\<lparr>mx_open := mx_open (ms_mux s) - {sid}, mx_closed := True\<rparr>)"
  then have "lossless ((closed_by m s)\<lparr>ms_waiting := ms_waiting s\<rparr>)"
    by (intro lossless_close[OF assms(2)]) (simp_all add: q_put_def)
  then show ?thesis by (simp add: closed_by_def)
qed

lemma lossless_yield:
  assumes "mux_next now (ms_mux s) = Yield env ty m" "\<not> ms_done s" "lossless s"
  shows "lossless (s\<lparr>ms_mux := m, ms_out := ms_out s @ [(env, ty)]\<rparr>)"
proof -
  obtain it q where y: "mx_queue (ms_mux s) = Some it # q" "item_of (env, ty) = it"
      "m = ms_mux s\<lparr>mx_queue := q, mx_allocators := mx_allocators m\<rparr>"
    using mux_next_yield[OF assms(1)] by metis
  have m: "mx_closed m = mx_closed (ms_mux s)" "mx_queue m = q" by (subst y(3), simp)+
  have "closing_ok (s\<lparr>ms_mux := m, ms_out := ms_out s @ [(env, ty)]\<rparr>)"
    by (rule closing_ok_mono[of s]) (use assms y(1,2) m in \<open>simp_all add: lossless_def ahead_def\<close>)
  with y(1,2) m assms show ?thesis by (auto simp: lossless_def)
qed

lemma lossless_step: "mux_step s s' \<Longrightarrow> \<not> ms_forced s' \<Longrightarrow> lossless s \<Longrightarrow> lossless s'"
proof (induction rule: mux_step.induct)
  case (step_register s sid)
  have "closing_ok (s\<lparr>ms_mux := mux_register sid (ms_mux s)\<rparr>)"
    by (rule closing_ok_mono[of s]) (use step_register in \<open>simp_all add: lossless_def ahead_def mux_register_def Let_def\<close>)
  with step_register show ?case by (auto simp: lossless_def mux_register_def Let_def)
next
  case (step_emit sid ty data stage s m)
  note e = emit_enqueued[OF step_emit(1)]
  then have "ms_closing s = None" using step_emit(3) by (auto simp: lossless_def)
  with e step_emit(3) show ?case by (auto simp: lossless_def q_put_def closing_ok_None)
next
  case (step_emit_waits sid ty data stage s m it)
  note e = emit_waits[OF step_emit_waits(1)]
  then have "ms_closing s = None" using step_emit_waits(3) by (auto simp: lossless_def)
  with e step_emit_waits(3) show ?case by (auto simp: lossless_def closing_ok_None)
next
  case (step_resume s xs it ys)
  then show ?case using lossless_resume by blast
next
  case (step_give_up s xs it ys)
  have "closing_ok (s\<lparr>ms_waiting := xs @ ys\<rparr>)"
    by (rule closing_ok_mono[of s]) (use step_give_up in \<open>simp_all add: lossless_def ahead_def mset_somes_resume del: somes_simps\<close>)
  with step_give_up show ?case by (auto simp: lossless_def)
next
  case (step_close sid s m)
  then show ?case using lossless_closed by blast
next
  case (step_close_waits sid s m it)
  from close_result(2)[OF step_close_waits(1)] show ?case by (intro lossless_close[OF step_close_waits(3)]) simp_all
next
  case (step_yield s now env ty m)
  then show ?case using lossless_yield by blast
next
  case (step_stop s now m)
  have m: "before_sentinel (mx_queue (ms_mux s)) = []" "somes (mx_queue m) = somes (mx_queue (ms_mux s))"
    "mx_closed (ms_mux s)" "mx_closed m" using mux_next_stop[OF step_stop(2)] step_stop(4) by (auto simp: lossless_def)
  have "closing_ok (s\<lparr>ms_mux := m, ms_done := True\<rparr>)"
    by (rule closing_ok_mono[of s]) (use step_stop m in \<open>simp_all add: lossless_def ahead_def\<close>)
  with m step_stop show ?case by (auto simp: lossless_def)
qed simp

definition accounted :: "'d mux_system \<Rightarrow> bool" where
  "accounted s \<longleftrightarrow> subseq (map item_of (ms_out s) @ somes (mx_queue (ms_mux s))) (ms_sent s)"

lemma accounted_drop: "accounted s \<Longrightarrow> map item_of (ms_out s') = map item_of (ms_out s) \<Longrightarrow> ms_sent s' = ms_sent s \<Longrightarrow>
    subseq (somes (mx_queue (ms_mux s'))) (somes (mx_queue (ms_mux s))) \<Longrightarrow> accounted s'"
  unfolding accounted_def by (simp add: subseq_order.order_trans[rotated, of _ "ms_sent s"] subseq_append')

lemma somes_tl: "subseq (somes (tl xs)) (somes xs)"
  by (cases xs; cases "hd xs") auto

lemma accounted_put: "accounted s \<Longrightarrow> mx_queue (ms_mux s') = mx_queue (ms_mux s) @ [it] \<Longrightarrow> ms_out s' = ms_out s \<Longrightarrow>
    ms_sent s' = ms_sent s @ somes [it] \<Longrightarrow> accounted s'"
  unfolding accounted_def by (simp add: list_emb_append_mono flip: append_assoc)

lemma accounted_step: "mux_step s s' \<Longrightarrow> accounted s \<Longrightarrow> accounted s'"
proof (induction rule: mux_step.induct)
  case (step_emit sid ty data stage s m)
  with emit_enqueued[OF step_emit(1)] show ?case by (elim accounted_put) (auto simp: q_put_def)
next
  case (step_emit_waits sid ty data stage s m it)
  with emit_waits[OF step_emit_waits(1)] show ?case by (auto simp: accounted_def)
next
  case (step_resume s xs it ys)
  then show ?case by (elim accounted_put) (auto simp: q_put_def)
next
  case (step_close sid s m)
  with close_result(1)[OF step_close(1)] show ?case by (auto simp: accounted_def q_put_def closed_by_def)
next
  case (step_close_waits sid s m it)
  with close_result(2)[OF step_close_waits(1)] show ?case by (auto simp: accounted_def closed_by_def)
next
  case (step_force s)
  then show ?case by (elim accounted_drop) (auto simp: mux_force_close_def q_put_def Let_def somes_tl)
next
  case (step_yield s now env ty m)
  obtain it q where y: "mx_queue (ms_mux s) = Some it # q" "item_of (env, ty) = it"
      "m = ms_mux s\<lparr>mx_queue := q, mx_allocators := mx_allocators m\<rparr>"
    using mux_next_yield[OF step_yield(2)] by metis
  have "mx_queue m = q" by (subst y(3)) simp
  with y(1,2) step_yield(3) show ?case by (simp add: accounted_def)
next
  case (step_stop s now m)
  with mux_next_stop[OF step_stop(2)] show ?case by (auto simp: accounted_def)
qed (auto simp: accounted_def mux_register_def Let_def)

lemma forced_stays: "mux_step s s' \<Longrightarrow> ms_forced s \<Longrightarrow> ms_forced s'"
  by (induction rule: mux_step.induct) auto

text \<open>The queue never exceeds its size, and a forced close stays closed.\<close>

definition bounded :: "'d mux_system \<Rightarrow> bool" where
  "bounded s \<longleftrightarrow> (0 < mx_maxsize (ms_mux s) \<longrightarrow> int (length (mx_queue (ms_mux s))) \<le> mx_maxsize (ms_mux s))
     \<and> (ms_forced s \<longrightarrow> mx_closed (ms_mux s))"

lemma bounded_step: "mux_step s s' \<Longrightarrow> bounded s \<Longrightarrow> bounded s'"
  by (induction rule: mux_step.induct)
    (auto simp: bounded_def mux_defs mux_next_def q_full_def split: if_splits list.splits option.splits prod.splits)

lemma reach_invariant:
  "mux_reach maxsize bp s \<Longrightarrow> numbered s \<and> accounted s \<and> bounded s \<and> (\<not> ms_forced s \<longrightarrow> lossless s)"
proof (induction rule: mux_reach.induct)
  case reach_start
  show ?case by (simp add: numbered_def accounted_def bounded_def lossless_def closing_ok_None mux_start_def mux_init_def seqs_of_def dget_def)
next
  case (reach_step s s')
  then show ?case using numbered_step accounted_step lossless_step bounded_step forced_stays by blast
qed

section \<open>The consumer loop ends\<close>

lemma mux_events_ends:
  assumes "mx_closed m" "length (mx_queue m) < fuel"
  shows "\<exists>evs m'. mux_events clock fuel m = Some (evs, m') \<and> map item_of evs = somes (takeWhile (\<lambda>x. x \<noteq> None) (mx_queue m))"
  using assms
proof (induction fuel arbitrary: m)
  case (Suc fuel)
  show ?case
  proof (cases "mx_queue m")
    case Nil
    then show ?thesis using Suc.prems by (simp add: mux_next_def)
  next
    case q: (Cons x q)
    show ?thesis
    proof (cases x)
      case None
      then show ?thesis by (simp add: q mux_next_def)
    next
      case (Some it)
      obtain env ty m' where y: "mux_next (clock fuel) m = Yield env ty m'"
        by (cases "seq_next (qi_stream_id it) (mx_allocators m)") (simp add: mux_next_def q Some)
      have m': "mx_queue m' = q" "mx_closed m'" "item_of (env, ty) = it"
        using y Suc.prems by (auto simp: mux_next_def q Some item_of_def split: prod.splits)
      from Suc.IH[of m'] m' Suc.prems(2) q obtain evs m'' where
        "mux_events clock fuel m' = Some (evs, m'')" "map item_of evs = somes (takeWhile (\<lambda>x. x \<noteq> None) q)" by auto
      then show ?thesis using y m'(3) Some q by simp
    qed
  qed
qed simp

lemma force_close_queue:
  assumes "mux_reach maxsize bp s" "\<not> mx_closed (ms_mux s)"
  shows "mx_closed (mux_force_close (ms_mux s))"
    "mx_queue (mux_force_close (ms_mux s)) = (if q_full (ms_mux s) then tl (mx_queue (ms_mux s)) else mx_queue (ms_mux s)) @ [None]"
    "None \<notin> set (mx_queue (ms_mux s))"
proof -
  note I = reach_invariant[OF assms(1)]
  have "\<not> ms_forced s" using I assms(2) by (auto simp: bounded_def)
  then show "None \<notin> set (mx_queue (ms_mux s))" using I assms(2) by (auto simp: lossless_def)
  show "mx_closed (mux_force_close (ms_mux s))" by (simp add: mux_force_close_def q_put_def Let_def)
  show "mx_queue (mux_force_close (ms_mux s)) = (if q_full (ms_mux s) then tl (mx_queue (ms_mux s)) else mx_queue (ms_mux s)) @ [None]"
    using I assms(2) by (cases "mx_queue (ms_mux s)") (auto simp: mux_force_close_def q_put_def q_full_def bounded_def Let_def)
qed

lemma takeWhile_not_None: "None \<notin> set xs \<Longrightarrow> takeWhile (\<lambda>x. x \<noteq> None) (xs @ [None]) = xs"
  by (induction xs) (auto, metis option.exhaust)

section \<open>Starting a stream\<close>

text \<open>The opening of \<^verbatim>\<open>StreamRunner.run\<close>: every substream is registered, then one \<^verbatim>\<open>stream.start\<close> per substream is
  emitted.  The consumer loop comes after.\<close>

fun emit_each :: "ustr list \<Rightarrow> event_type \<Rightarrow> 'd \<Rightarrow> 'd mux \<Rightarrow> 'd put_result" where
  "emit_each [] ty data m = Enqueued m"
| "emit_each (sid # sids) ty data m =
     (case mux_emit sid ty data None m of Enqueued m' \<Rightarrow> emit_each sids ty data m' | r \<Rightarrow> r)"

definition runner_start :: "ustr list \<Rightarrow> 'd \<Rightarrow> 'd mux \<Rightarrow> 'd put_result" where
  "runner_start sids data m = emit_each sids STREAM_START data (fold mux_register sids m)"

lemma emit_each_result:
  assumes "\<not> mx_closed m" "0 < mx_maxsize m" "int (length (mx_queue m)) \<le> mx_maxsize m"
  shows "(\<exists>m'. emit_each sids ty data m = Enqueued m') \<and> int (length (mx_queue m) + length sids) \<le> mx_maxsize m
    \<or> (\<exists>m' it. emit_each sids ty data m = PutWaits m' it) \<and> mx_backpressure m = BLOCK \<and> mx_maxsize m < int (length (mx_queue m) + length sids)
    \<or> emit_each sids ty data m = PutRaised StreamBackpressure \<and> mx_backpressure m = FAIL \<and> mx_maxsize m < int (length (mx_queue m) + length sids)"
  using assms
proof (induction sids arbitrary: m)
  case (Cons sid sids)
  show ?case
  proof (cases "q_full m")
    case True
    then show ?thesis using Cons.prems
      by (cases "mx_backpressure m") (auto simp: mux_emit_def await_put_def Let_def q_full_def)
  next
    case False
    then obtain it where e: "mux_emit sid ty data None m = Enqueued (q_put (Some it) m)"
      using Cons.prems(1) by (auto simp: mux_emit_def await_put_def Let_def)
    have "int (length (mx_queue (q_put (Some it) m))) \<le> mx_maxsize (q_put (Some it) m)"
      using False Cons.prems by (simp add: q_put_def q_full_def)
    from Cons.IH[OF _ _ this] Cons.prems show ?thesis by (simp add: e q_put_def)
  qed
qed simp

lemma fold_register:
  "mx_closed (fold mux_register sids m) = mx_closed m" "mx_maxsize (fold mux_register sids m) = mx_maxsize m"
  "mx_queue (fold mux_register sids m) = mx_queue m" "mx_backpressure (fold mux_register sids m) = mx_backpressure m"
  by (induction sids arbitrary: m) (simp_all add: mux_register_def Let_def)

section \<open>Properties\<close>

text \<open>Once the consumer loop has ended without a forced close.\<close>

lemma delivered_at_end:
  assumes "lossless s" "ms_done s"
  shows "\<exists>early late. ms_closing s = Some (early, late) \<and> prefix early (map item_of (ms_out s))
    \<and> mset (ms_sent s) + mset (somes (ms_waiting s)) \<subseteq># mset early + mset late
    \<and> (late = [] \<longrightarrow> map item_of (ms_out s) = ms_sent s \<and> somes (ms_waiting s) = [])"
proof -
  from assms obtain early late where c: "ms_closing s = Some (early, late)" "prefix early (map item_of (ms_out s))"
    "mset (ms_sent s) + mset (somes (ms_waiting s)) \<subseteq># mset early + mset late"
    by (auto simp: lossless_def closing_ok_def ahead_def)
  obtain zs where z: "map item_of (ms_out s) = early @ zs" using c(2) by (rule prefixE)
  have sent: "ms_sent s = early @ zs @ somes (mx_queue (ms_mux s))" using assms(1) z by (simp add: lossless_def)
  have "zs = [] \<and> somes (mx_queue (ms_mux s)) = [] \<and> somes (ms_waiting s) = []" if "late = []"
  proof -
    have "mset early + (mset zs + mset (somes (mx_queue (ms_mux s))) + mset (somes (ms_waiting s))) \<subseteq># mset early + {#}"
      using c(3) that by (simp add: sent ac_simps)
    then show ?thesis by (simp only: subset_mset.add_le_cancel_left) simp
  qed
  then show ?thesis using c sent z by auto
qed

text \<open>C27. The multiplexer numbers every stream densely and delivers what was put.  In every interleaving of emits, closes,
  waiting puts (which may be cancelled) and the consumer, whatever streams they name, the events yielded so far for a stream
  carry the sequence numbers 1 to n, and the events yielded are a subsequence of the events put; without a forced close they
  are an initial part.  Once the consumer loop has ended without a forced close, every event whose put had completed when the
  last stream was closed has been yielded, and only events whose put still waited then can be missing: if none waited, the
  events yielded are exactly those put and no put waits.\<close>

theorem mux_delivers:
  assumes "mux_reach maxsize bp s"
  shows "seqs_of sid (ms_out s) = [1..int (length (seqs_of sid (ms_out s)))]
    \<and> subseq (map item_of (ms_out s)) (ms_sent s)
    \<and> (\<not> ms_forced s \<longrightarrow> prefix (map item_of (ms_out s)) (ms_sent s))
    \<and> (\<not> ms_forced s \<and> ms_done s \<longrightarrow>
        (\<exists>early late. ms_closing s = Some (early, late) \<and> prefix early (map item_of (ms_out s))
          \<and> mset (ms_sent s) + mset (somes (ms_waiting s)) \<subseteq># mset early + mset late
          \<and> (late = [] \<longrightarrow> map item_of (ms_out s) = ms_sent s \<and> somes (ms_waiting s) = [])))"
proof -
  note I = reach_invariant[OF assms]
  have "seqs_of sid (ms_out s) = [1..int (length (seqs_of sid (ms_out s)))]" using I by (simp add: numbered_def)
  moreover have "subseq (map item_of (ms_out s) @ somes (mx_queue (ms_mux s))) (ms_sent s)" using I by (simp add: accounted_def)
  then have "subseq (map item_of (ms_out s)) (ms_sent s)"
    by (rule subseq_order.order_trans[OF subseq_rev_drop_many[OF subseq_order.order_refl]])
  moreover have "\<not> ms_forced s \<longrightarrow> prefix (map item_of (ms_out s)) (ms_sent s)" using I by (simp add: lossless_def)
  moreover have "\<not> ms_forced s \<and> ms_done s \<longrightarrow>
      (\<exists>early late. ms_closing s = Some (early, late) \<and> prefix early (map item_of (ms_out s))
        \<and> mset (ms_sent s) + mset (somes (ms_waiting s)) \<subseteq># mset early + mset late
        \<and> (late = [] \<longrightarrow> map item_of (ms_out s) = ms_sent s \<and> somes (ms_waiting s) = []))"
    using I delivered_at_end by blast
  ultimately show ?thesis by blast
qed

definition demo_item :: "'d \<Rightarrow> 'd queued_item" where
  "demo_item x = new_item (lit ''s'') STREAM_END x None"

definition demo_out :: "'d \<Rightarrow> 'd envelope \<times> event_type" where
  "demo_out x = (\<lparr>ev_v = 1, ev_stream_id = lit ''s'', ev_stage = None, ev_seq = 1, ev_ts = 0, ev_data = x\<rparr>, STREAM_END)"

definition demo_open_mux :: "'d \<Rightarrow> 'd mux" where
  "demo_open_mux x = q_put (Some (demo_item x)) (mux_register (lit ''s'') (mux_init 1 BLOCK))"

definition demo_open_system :: "'d \<Rightarrow> 'd mux_system" where
  "demo_open_system x = (mux_start 1 BLOCK)\<lparr>ms_mux := demo_open_mux x, ms_sent := [demo_item x]\<rparr>"

lemmas demo_mux_defs = demo_open_mux_def mux_start_def mux_init_def mux_defs q_full_def demo_item_def new_item_def

lemma demo_open: "mux_reach 1 BLOCK (demo_open_system x)"
proof -
  let ?m1 = "mux_register (lit ''s'') (mux_init 1 BLOCK) :: 'd mux"
  let ?s1 = "(mux_start 1 BLOCK :: 'd mux_system)\<lparr>ms_mux := ?m1\<rparr>"
  have "mux_reach 1 BLOCK ?s1" using reach_step[OF reach_start step_register, of 1 BLOCK "lit ''s''"] by (simp add: mux_start_def)
  moreover have "mux_step ?s1 (demo_open_system x)"
    using step_emit[of "lit ''s''" STREAM_END x None ?s1 "demo_open_mux x"] by (simp add: demo_open_system_def demo_mux_defs)
  ultimately show ?thesis by (rule reach_step)
qed

lemma demo_run:
  "\<exists>s. mux_reach 1 BLOCK s \<and> \<not> ms_forced s \<and> ms_done s \<and> ms_sent s = [demo_item x] \<and> ms_out s = [demo_out x]
     \<and> ms_closing s = Some ([demo_item x], [])"
proof -
  let ?m3 = "(demo_open_mux x)\<lparr>mx_open := {}, mx_closed := True\<rparr>"
  let ?env = "\<lparr>ev_v = 1, ev_stream_id = lit ''s'', ev_stage = None, ev_seq = 1, ev_ts = 0, ev_data = x\<rparr>"
  let ?m4 = "?m3\<lparr>mx_queue := [], mx_allocators := [(lit ''s'', 1)]\<rparr>"
  let ?s3 = "(demo_open_system x)\<lparr>ms_mux := ?m3, ms_waiting := [None], ms_closing := Some ([demo_item x], [])\<rparr>"
  let ?s4 = "?s3\<lparr>ms_mux := ?m4, ms_out := [demo_out x]\<rparr>"
  let ?s5 = "?s4\<lparr>ms_done := True\<rparr>"
  have "mux_step (demo_open_system x) ?s3"
    using step_close_waits[of "lit ''s''" "demo_open_system x" ?m3 None] by (simp add: demo_open_system_def demo_mux_defs closed_by_def)
  moreover have "mux_step ?s3 ?s4"
    using step_yield[of ?s3 0 ?env STREAM_END ?m4]
    by (simp add: demo_open_system_def demo_mux_defs mux_next_def seq_next_def dget_def demo_out_def)
  moreover have "mux_step ?s4 ?s5"
    using step_stop[of ?s4 0 ?m4] by (simp add: demo_open_system_def mux_start_def mux_next_def)
  ultimately have "mux_reach 1 BLOCK ?s5" using demo_open by (meson reach_step)
  then show ?thesis by (intro exI[of _ ?s5]) (simp add: demo_open_system_def mux_start_def)
qed

theorem mux_delivers_witness:
  "\<exists>s :: unit mux_system. mux_reach 1 BLOCK s \<and> ms_done s \<and> map item_of (ms_out s) = [demo_item ()] \<and> seqs_of (lit ''s'') (ms_out s) = [1]"
proof -
  obtain s :: "unit mux_system" where s: "mux_reach 1 BLOCK s" "\<not> ms_forced s" "ms_done s" "ms_sent s = [demo_item ()]"
      "ms_out s = [demo_out ()]" "ms_closing s = Some ([demo_item ()], [])" using demo_run[of "()"] by blast
  note d = mux_delivers[OF s(1), of "lit ''s''"]
  have "map item_of (ms_out s) = [demo_item ()]" using conjunct2[OF d] s(2-4,6) by auto
  moreover have "length (seqs_of (lit ''s'') (ms_out s)) = 1" using s(5) by (simp add: seqs_of_def demo_out_def)
  then have "seqs_of (lit ''s'') (ms_out s) = [1..int 1]" using conjunct1[OF d] by metis
  ultimately show ?thesis using s(1,3) by (intro exI[of _ s] conjI) simp_all
qed

section \<open>Puts that wait at the close\<close>

text \<open>The consumer takes everything queued before a waiting put gets a turn.\<close>

lemma drain_steps:
  assumes "mx_queue (ms_mux s) = map Some its @ rest" "\<not> ms_done s"
  shows "\<exists>s'. mux_step\<^sup>*\<^sup>* s s' \<and> map item_of (ms_out s') = map item_of (ms_out s) @ its \<and> mx_queue (ms_mux s') = rest
    \<and> mx_closed (ms_mux s') = mx_closed (ms_mux s) \<and> ms_waiting s' = ms_waiting s \<and> ms_done s' = ms_done s \<and> ms_forced s' = ms_forced s"
  using assms
proof (induction its arbitrary: s)
  case Nil
  then show ?case by (intro exI[of _ s]) simp
next
  case (Cons it its)
  obtain env ty m where y: "mux_next 0 (ms_mux s) = Yield env ty m"
    using Cons.prems(1) by (simp add: mux_next_def seq_next_def Let_def)
  obtain it' q where m: "mx_queue (ms_mux s) = Some it' # q" "item_of (env, ty) = it'"
      "m = ms_mux s\<lparr>mx_queue := q, mx_allocators := mx_allocators m\<rparr>"
    using mux_next_yield[OF y] by metis
  have mm: "mx_closed m = mx_closed (ms_mux s)" "mx_queue m = q" by (subst m(3), simp)+
  let ?s = "s\<lparr>ms_mux := m, ms_out := ms_out s @ [(env, ty)]\<rparr>"
  have step: "mux_step s ?s" by (rule step_yield[OF Cons.prems(2) y])
  from Cons.IH[of ?s] Cons.prems m(1,2) mm obtain s' where "mux_step\<^sup>*\<^sup>* ?s s'" "map item_of (ms_out s') = map item_of (ms_out s) @ it # its"
    "mx_queue (ms_mux s') = rest" "mx_closed (ms_mux s') = mx_closed (ms_mux s)" "ms_waiting s' = ms_waiting s" "ms_done s' = ms_done s"
    "ms_forced s' = ms_forced s" by auto
  then show ?case using converse_rtranclp_into_rtranclp[of mux_step, OF step] by blast
qed

lemma done_stays: "mux_step\<^sup>*\<^sup>* s s' \<Longrightarrow> ms_done s \<Longrightarrow> ms_done s' \<and> ms_out s' = ms_out s"
proof (induction rule: rtranclp_induct)
  case (step s1 s2)
  from step(2) have "ms_done s1 \<Longrightarrow> ms_done s2 \<and> ms_out s2 = ms_out s1" by (induction rule: mux_step.induct) auto
  with step show ?case by simp
qed simp

lemma map_Some_somes: "None \<notin> set xs \<Longrightarrow> xs = map Some (somes xs)"
  by (induction xs rule: before_sentinel.induct) auto

text \<open>A put that waits when the last stream is closed can be lost.  From every reachable state in which the closed stream is
  the last one open and some event waits for room, the close and the turns of the consumer alone lead to the end of the loop:
  everything put before has been yielded, the event still waits, and nothing is ever yielded again.\<close>

theorem waiting_put_lost_at_close:
  assumes "mux_reach maxsize bp s" "\<not> ms_done s" "\<not> mx_closed (ms_mux s)" "mx_open (ms_mux s) \<subseteq> {sid}" "it \<in> set (somes (ms_waiting s))"
  shows "\<exists>s1 s2. mux_step s s1 \<and> mux_step\<^sup>*\<^sup>* s1 s2 \<and> \<not> ms_forced s2 \<and> ms_done s2 \<and> it \<in> set (somes (ms_waiting s2))
    \<and> map item_of (ms_out s2) = ms_sent s \<and> (\<forall>s3. mux_step\<^sup>*\<^sup>* s2 s3 \<longrightarrow> ms_out s3 = ms_out s2)"
proof -
  note I = reach_invariant[OF assms(1)]
  have nf: "\<not> ms_forced s" using I assms(3) by (auto simp: bounded_def)
  have l: "ms_sent s = map item_of (ms_out s) @ somes (mx_queue (ms_mux s))" "None \<notin> set (mx_queue (ms_mux s))"
    using I nf assms(3) by (simp_all add: lossless_def)
  note q = map_Some_somes[OF l(2)]
  let ?m = "ms_mux s\<lparr>mx_open := {}, mx_closed := True\<rparr>"
  have op: "mx_open (ms_mux s) - {sid} = {}" using assms(4) by auto
  have "\<exists>s1 rest. mux_step s s1 \<and> mx_queue (ms_mux s1) = map Some (somes (mx_queue (ms_mux s))) @ rest \<and> rest \<in> {[], [None]}
      \<and> mx_closed (ms_mux s1) \<and> ms_out s1 = ms_out s \<and> ms_done s1 = ms_done s \<and> ms_forced s1 = ms_forced s \<and> it \<in> set (somes (ms_waiting s1))"
  proof (cases "q_full ?m")
    case True
    then have "mux_close_stream sid (ms_mux s) = PutWaits ?m None" using assms(3) by (simp add: mux_close_stream_def await_put_def Let_def op del: Diff_eq_empty_iff)
    from step_close_waits[OF this] show ?thesis using q assms(5)
      by (intro exI[of _ "(closed_by ?m s)\<lparr>ms_waiting := ms_waiting s @ [None]\<rparr>"] exI[of _ "[]"]) simp
  next
    case False
    then have "mux_close_stream sid (ms_mux s) = Enqueued (q_put None ?m)" using assms(3) by (simp add: mux_close_stream_def await_put_def Let_def op del: Diff_eq_empty_iff)
    from step_close[OF this] show ?thesis using q assms(5)
      by (intro exI[of _ "closed_by (q_put None ?m) s"] exI[of _ "[None]"]) (simp add: q_put_def)
  qed
  then obtain s1 rest where s1: "mux_step s s1" "mx_queue (ms_mux s1) = map Some (somes (mx_queue (ms_mux s))) @ rest" "rest \<in> {[], [None]}"
    "mx_closed (ms_mux s1)" "ms_out s1 = ms_out s" "ms_done s1 = ms_done s" "ms_forced s1 = ms_forced s" "it \<in> set (somes (ms_waiting s1))" by blast
  from drain_steps[OF s1(2)] s1(6) assms(2) obtain s2 where s2: "mux_step\<^sup>*\<^sup>* s1 s2"
    "map item_of (ms_out s2) = map item_of (ms_out s1) @ somes (mx_queue (ms_mux s))" "mx_queue (ms_mux s2) = rest" "mx_closed (ms_mux s2)"
    "ms_waiting s2 = ms_waiting s1" "\<not> ms_done s2" "\<not> ms_forced s2" using s1(4,7) nf by auto
  obtain m where "mux_next 0 (ms_mux s2) = Stop m" using s2(3,4) s1(3) by (auto simp: mux_next_def)
  from step_stop[OF s2(6) this] have st: "mux_step s2 (s2\<lparr>ms_mux := m, ms_done := True\<rparr>)" .
  let ?e = "s2\<lparr>ms_mux := m, ms_done := True\<rparr>"
  have "mux_step\<^sup>*\<^sup>* s1 ?e" using s2(1) st by (rule rtranclp.rtrancl_into_rtrancl)
  moreover have "map item_of (ms_out ?e) = ms_sent s" using s2(2) s1(5) l(1) by simp
  moreover have "\<forall>s3. mux_step\<^sup>*\<^sup>* ?e s3 \<longrightarrow> ms_out s3 = ms_out ?e" using done_stays[of ?e] by fastforce
  moreover have "\<not> ms_forced ?e" "ms_done ?e" "it \<in> set (somes (ms_waiting ?e))" using s1(8) s2(5,7) by simp_all
  ultimately show ?thesis using s1(1) by blast
qed

lemma demo_waiting: "mux_reach 1 BLOCK ((demo_open_system x)\<lparr>ms_waiting := [Some (demo_item y)]\<rparr>)"
proof -
  have "mux_step (demo_open_system x) ((demo_open_system x)\<lparr>ms_waiting := [Some (demo_item y)]\<rparr>)"
    using step_emit_waits[of "lit ''s''" STREAM_END y None "demo_open_system x" "demo_open_mux x" "Some (demo_item y)"]
    by (simp add: demo_open_system_def demo_mux_defs)
  with demo_open show ?thesis by (rule reach_step)
qed

theorem waiting_put_lost_at_close_witness:
  "\<exists>s1 s2. mux_step ((demo_open_system False)\<lparr>ms_waiting := [Some (demo_item True)]\<rparr>) s1 \<and> mux_step\<^sup>*\<^sup>* s1 s2 \<and> ms_done s2
    \<and> demo_item True \<in> set (somes (ms_waiting s2)) \<and> map item_of (ms_out s2) = [demo_item False]"
proof -
  let ?s = "(demo_open_system False)\<lparr>ms_waiting := [Some (demo_item True)]\<rparr>"
  have s: "\<not> ms_done ?s" "\<not> mx_closed (ms_mux ?s)" "mx_open (ms_mux ?s) \<subseteq> {lit ''s''}" "demo_item True \<in> set (somes (ms_waiting ?s))"
    "ms_sent ?s = [demo_item False]" by (simp_all add: demo_open_system_def demo_mux_defs)
  from waiting_put_lost_at_close[OF demo_waiting s(1-4)] obtain s1 s2 where "mux_step ?s s1" "mux_step\<^sup>*\<^sup>* s1 s2" "ms_done s2"
    "demo_item True \<in> set (somes (ms_waiting s2))" "map item_of (ms_out s2) = ms_sent ?s" by (elim exE conjE)
  then show ?thesis unfolding s(5) by (intro exI conjI)
qed

text \<open>C28. Closing ends the consumer.  A forced close of a reachable, still open multiplexer needs no waiting: afterwards the
  consumer loop ends by itself within one turn per queued entry and one more, and it yields every event that was
  queued, except that the oldest one is given up when the queue was full.\<close>

theorem force_close_ends_consumer:
  assumes "mux_reach maxsize bp s" "\<not> mx_closed (ms_mux s)"
  shows "\<exists>evs m. mux_events clock (length (mx_queue (ms_mux s)) + 2) (mux_force_close (ms_mux s)) = Some (evs, m)
    \<and> map item_of evs = somes (if q_full (ms_mux s) then tl (mx_queue (ms_mux s)) else mx_queue (ms_mux s))"
proof -
  let ?q = "if q_full (ms_mux s) then tl (mx_queue (ms_mux s)) else mx_queue (ms_mux s)"
  note fc = force_close_queue[OF assms]
  have "None \<notin> set ?q" using fc(3) by (cases "mx_queue (ms_mux s)") auto
  then have tw: "takeWhile (\<lambda>x. x \<noteq> None) (mx_queue (mux_force_close (ms_mux s))) = ?q"
    unfolding fc(2) by (rule takeWhile_not_None)
  have "length (mx_queue (mux_force_close (ms_mux s))) < length (mx_queue (ms_mux s)) + 2" by (auto simp: fc(2))
  from mux_events_ends[OF fc(1) this, of clock] show ?thesis unfolding tw .
qed

theorem force_close_ends_consumer_witness:
  "mux_reach 1 BLOCK (demo_open_system ()) \<and> mx_queue (ms_mux (demo_open_system ())) = [Some (demo_item ())]
    \<and> (\<exists>evs m. mux_events (\<lambda>_. 0) 3 (mux_force_close (ms_mux (demo_open_system ()))) = Some (evs, m) \<and> evs = [])"
proof -
  have q: "mx_queue (ms_mux (demo_open_system ())) = [Some (demo_item ())]" "q_full (ms_mux (demo_open_system ()))" "\<not> mx_closed (ms_mux (demo_open_system ()))"
    by (simp_all add: demo_open_system_def demo_mux_defs)
  from force_close_ends_consumer[OF demo_open q(3), of "\<lambda>_. 0"] q(1,2) demo_open show ?thesis
    by (simp del: mux_events.simps add: numeral_3_eq_3)
qed

text \<open>C29. A runner with more substreams than queue slots never starts.  The \<^verbatim>\<open>stream.start\<close> events are put before the consumer
  loop begins: with the blocking policy the last of them waits for room that nobody makes as soon as there are more
  substreams than slots, and with the failing policy the start raises; otherwise every event is queued.\<close>

theorem start_needs_a_slot_per_stream:
  assumes "0 < maxsize"
  shows "((\<exists>m it. runner_start sids data (mux_init maxsize bp) = PutWaits m it) \<longleftrightarrow> bp = BLOCK \<and> maxsize < int (length sids))
    \<and> (runner_start sids data (mux_init maxsize bp) = PutRaised StreamBackpressure \<longleftrightarrow> bp = FAIL \<and> maxsize < int (length sids))
    \<and> ((\<exists>m. runner_start sids data (mux_init maxsize bp) = Enqueued m) \<longleftrightarrow> int (length sids) \<le> maxsize)"
proof -
  have "int (length (mx_queue (fold mux_register sids (mux_init maxsize bp)))) \<le> mx_maxsize (fold mux_register sids (mux_init maxsize bp))"
    using assms by (simp add: fold_register mux_init_def)
  from emit_each_result[OF _ _ this, of sids STREAM_START data] assms show ?thesis
    by (cases bp) (auto simp: fold_register runner_start_def mux_init_def)
qed

theorem start_needs_a_slot_per_stream_witness:
  "\<exists>m it. runner_start [lit ''a'', lit ''b''] () (mux_init 1 BLOCK) = PutWaits m it"
  using start_needs_a_slot_per_stream[of 1 "[lit ''a'', lit ''b'']" "()" BLOCK] by simp

end
