(* ===== verification/Events.thy ===== *)
theory Events
  imports SSE
begin

text \<open>
  Event payloads (\<^verbatim>\<open>stream/events/payloads.py\<close>): the data dict each \<^verbatim>\<open>make_*\<close> factory builds.  A pydantic model is
  the list of its fields with their values and defaults; \<^verbatim>\<open>model_dump(exclude_defaults=True)\<close> keeps the fields
  that differ from their default.
\<close>

datatype json = JNull | JBool bool | JInt int | JFloat real | JStr ustr | JList "json list" | JDict "(ustr \<times> json) list"

type_synonym jdict = "(ustr, json) dict"

lemma lit_eq [simp]: "lit s = lit t \<longleftrightarrow> s = t"
  by (simp add: lit_def inj_map_eq_map inj_def)

datatype delta_kind = CONTENT | THINKING | REFERENCES

fun delta_kind_value :: "delta_kind \<Rightarrow> string" where
  "delta_kind_value CONTENT = ''content''"
| "delta_kind_value THINKING = ''thinking''"
| "delta_kind_value REFERENCES = ''references''"

datatype placeholder_state = PENDING | RESOLVED | FAILED

fun placeholder_state_value :: "placeholder_state \<Rightarrow> string" where
  "placeholder_state_value PENDING = ''pending''"
| "placeholder_state_value RESOLVED = ''resolved''"
| "placeholder_state_value FAILED = ''failed''"

datatype error_code = SOURCE_ERROR | ENRICH_ERROR | TIMEOUT | CANCELLED_CODE | BACKPRESSURE | UPSTREAM_INTERRUPTED | INTERNAL

fun error_code_value :: "error_code \<Rightarrow> string" where
  "error_code_value SOURCE_ERROR = ''SOURCE_ERROR''"
| "error_code_value ENRICH_ERROR = ''ENRICH_ERROR''"
| "error_code_value TIMEOUT = ''TIMEOUT''"
| "error_code_value CANCELLED_CODE = ''CANCELLED''"
| "error_code_value BACKPRESSURE = ''BACKPRESSURE''"
| "error_code_value UPSTREAM_INTERRUPTED = ''UPSTREAM_INTERRUPTED''"
| "error_code_value INTERNAL = ''INTERNAL''"

definition opt_json :: "('a \<Rightarrow> json) \<Rightarrow> 'a option \<Rightarrow> json" where
  "opt_json f x = (case x of None \<Rightarrow> JNull | Some v \<Rightarrow> f v)"

definition drop_none :: "jdict \<Rightarrow> jdict" where
  "drop_none d = filter (\<lambda>(k, v). v \<noteq> JNull) d"

type_synonym model_fields = "(ustr \<times> json \<times> json option) list" \<comment> \<open>name, value, default\<close>

definition dump_exclude_defaults :: "model_fields \<Rightarrow> jdict" where
  "dump_exclude_defaults fs = map (\<lambda>(k, v, _). (k, v)) (filter (\<lambda>(k, v, dflt). dflt \<noteq> Some v) fs)"

text \<open>The shared last line of the factories: the dump without null values, united with the extension slot.\<close>

definition finish_payload :: "model_fields \<Rightarrow> jdict \<Rightarrow> jdict" where
  "finish_payload fs ext =
     (let d = drop_none (dump_exclude_defaults (fs @ [(lit ''ext'', JDict ext, Some (JDict []))]))
      in if ext \<noteq> [] then dset (lit ''ext'') (JDict ext) d else d)"

definition make_stream_start :: "ustr list \<Rightarrow> ustr \<Rightarrow> jdict \<Rightarrow> jdict \<Rightarrow> jdict" where
  "make_stream_start stages resume_token config_echo ext =
     finish_payload [(lit ''stages'', JList (map JStr stages), None), (lit ''resume_token'', JStr resume_token, None),
       (lit ''config_echo'', JDict config_echo, Some (JDict []))] ext"

definition make_delta :: "delta_kind \<Rightarrow> ustr option \<Rightarrow> jdict list option \<Rightarrow> jdict \<Rightarrow> jdict" where
  "make_delta kind txt refs ext =
     finish_payload [(lit ''kind'', JStr (lit (delta_kind_value kind)), None), (lit ''text'', opt_json JStr txt, Some JNull),
       (lit ''references'', opt_json (\<lambda>rs. JList (map JDict rs)) refs, Some JNull)] ext"

definition make_enrich_marker :: "ustr \<Rightarrow> ustr \<Rightarrow> jdict \<Rightarrow> jdict" where
  "make_enrich_marker pid context_text ext =
     finish_payload [(lit ''placeholder_id'', JStr pid, None), (lit ''context_text'', JStr context_text, None)] ext"

definition make_enrich_placeholder :: "ustr \<Rightarrow> ustr \<Rightarrow> int option \<Rightarrow> jdict \<Rightarrow> jdict" where
  "make_enrich_placeholder pid loading_url char_offset ext =
     finish_payload [(lit ''placeholder_id'', JStr pid, None), (lit ''loading_url'', JStr loading_url, None),
       (lit ''char_offset'', opt_json JInt char_offset, Some JNull)] ext"

definition make_enrich_resolved :: "ustr \<Rightarrow> ustr \<Rightarrow> placeholder_state \<Rightarrow> jdict \<Rightarrow> jdict" where
  "make_enrich_resolved pid url state ext =
     finish_payload [(lit ''placeholder_id'', JStr pid, None), (lit ''url'', JStr url, None),
       (lit ''state'', JStr (lit (placeholder_state_value state)), None)] ext"

definition stage_result_payload :: "ustr \<Rightarrow> ustr option \<Rightarrow> json" where
  "stage_result_payload content thinking =
     JDict (dump_exclude_defaults [(lit ''content'', JStr content, None), (lit ''thinking'', opt_json JStr thinking, Some JNull)])"

definition make_stage_end :: "ustr \<Rightarrow> ustr \<Rightarrow> ustr option \<Rightarrow> jdict option \<Rightarrow> jdict \<Rightarrow> jdict" where
  "make_stage_end name content thinking usage ext =
     finish_payload [(lit ''name'', JStr name, None), (lit ''result'', stage_result_payload content thinking, None),
       (lit ''usage'', opt_json JDict usage, Some JNull)] ext"

record manifest_placeholder =
  mp_placeholder_id :: ustr
  mp_task_ref :: ustr
  mp_state :: placeholder_state
  mp_stage :: "ustr option"
  mp_char_offset :: "int option"
  mp_fallback_url :: "ustr option"
  mp_url :: "ustr option"

definition manifest_placeholder_json :: "manifest_placeholder \<Rightarrow> json" where
  "manifest_placeholder_json p =
     JDict (dump_exclude_defaults [(lit ''placeholder_id'', JStr (mp_placeholder_id p), None), (lit ''task_ref'', JStr (mp_task_ref p), None),
       (lit ''state'', JStr (lit (placeholder_state_value (mp_state p))), None), (lit ''stage'', opt_json JStr (mp_stage p), Some JNull),
       (lit ''char_offset'', opt_json JInt (mp_char_offset p), Some JNull), (lit ''fallback_url'', opt_json JStr (mp_fallback_url p), Some JNull),
       (lit ''url'', opt_json JStr (mp_url p), Some JNull)])"

definition make_manifest ::
  "jdict \<Rightarrow> manifest_placeholder list \<Rightarrow> jdict option \<Rightarrow> jdict list \<Rightarrow> jdict \<Rightarrow> jdict" where
  "make_manifest stages placeholders usage errors ext =
     finish_payload [(lit ''stages'', JDict stages, None), (lit ''placeholders'', JList (map manifest_placeholder_json placeholders), None),
       (lit ''usage'', opt_json JDict usage, Some JNull), (lit ''errors'', JList (map JDict errors), Some (JList []))] ext"

definition make_stream_error :: "error_code \<Rightarrow> ustr \<Rightarrow> bool \<Rightarrow> ustr option \<Rightarrow> jdict \<Rightarrow> jdict" where
  "make_stream_error code message retryable stage ext =
     finish_payload [(lit ''code'', JStr (lit (error_code_value code)), None), (lit ''message'', JStr message, None),
       (lit ''retryable'', JBool retryable, Some (JBool False)), (lit ''stage'', opt_json JStr stage, Some JNull)] ext"

definition make_stream_cancelled :: "ustr \<Rightarrow> real \<Rightarrow> ustr option \<Rightarrow> jdict \<Rightarrow> jdict" where
  "make_stream_cancelled reason cancelled_at partial_content ext =
     finish_payload [(lit ''reason'', JStr reason, None), (lit ''cancelled_at'', JFloat cancelled_at, None),
       (lit ''partial_content'', opt_json JStr partial_content, Some JNull)] ext"

definition make_stream_end :: "jdict \<Rightarrow> jdict" where
  "make_stream_end ext = (if ext \<noteq> [] then [(lit ''ext'', JDict ext)] else [])"

section \<open>Laws of the factories\<close>

lemma dset_last: "k \<notin> set (dkeys d) \<Longrightarrow> dset k v (d @ [(k, v)]) = d @ [(k, v)]"
  by (induction d) auto

text \<open>A factory keeps exactly the non-null fields that differ from their default, in order, and the extension
  slot exactly when it is not empty.\<close>

lemma finish_payload_eq:
  assumes "lit ''ext'' \<notin> set (map fst fs)"
  shows "finish_payload fs ext =
    map (\<lambda>(k, v, _). (k, v)) (filter (\<lambda>(k, v, dflt). v \<noteq> JNull \<and> dflt \<noteq> Some v) fs)
      @ (if ext = [] then [] else [(lit ''ext'', JDict ext)])"
proof -
  have d: "drop_none (dump_exclude_defaults fs) = map (\<lambda>(k, v, _). (k, v)) (filter (\<lambda>(k, v, dflt). v \<noteq> JNull \<and> dflt \<noteq> Some v) fs)"
    by (induction fs) (auto simp: drop_none_def dump_exclude_defaults_def)
  have a: "drop_none (dump_exclude_defaults (xs @ ys)) = drop_none (dump_exclude_defaults xs) @ drop_none (dump_exclude_defaults ys)" for xs ys
    by (simp add: drop_none_def dump_exclude_defaults_def)
  have "lit ''ext'' \<notin> set (dkeys (drop_none (dump_exclude_defaults fs)))"
    using assms by (force simp: drop_none_def dump_exclude_defaults_def)
  then have "dset (lit ''ext'') v (drop_none (dump_exclude_defaults fs) @ [(lit ''ext'', v)]) = drop_none (dump_exclude_defaults fs) @ [(lit ''ext'', v)]" for v
    by (rule dset_last)
  then show ?thesis by (auto simp: finish_payload_def a d Let_def) (simp_all add: drop_none_def dump_exclude_defaults_def)
qed

lemmas payload_defs = make_stream_start_def make_delta_def make_enrich_marker_def make_enrich_placeholder_def make_enrich_resolved_def
  make_stage_end_def make_manifest_def make_stream_error_def make_stream_cancelled_def

lemma delta_fields:
  "map_of (make_delta kind txt refs ext) (lit ''kind'') = Some (JStr (lit (delta_kind_value kind)))"
  "map_of (make_delta kind txt refs ext) (lit ''text'') = map_option JStr txt"
  by (simp_all add: make_delta_def finish_payload_eq opt_json_def split: option.splits)

end
