(* ===== verification/Delivery.thy ===== *)
theory Delivery
  imports Mux Events
begin

text \<open>
  Delivery to the client: the cancellation token (\<^verbatim>\<open>stream/core/cancellation.py\<close>), the grace buffer and the
  disconnect monitor (\<^verbatim>\<open>stream/disconnect\<close>), and the parts of \<^verbatim>\<open>StreamRunner\<close> that stand between the multiplexer
  and the client: the consumer loop of \<^verbatim>\<open>run\<close>, \<^verbatim>\<open>cancel\<close> and the disconnect notifications
  (\<^verbatim>\<open>stream/runner/runner.py\<close>).  The event loop's choices are a sequence of inputs.
\<close>

section \<open>Cancellation token\<close>

record cancel_token =
  ct_set :: bool
  ct_reason :: "ustr option"
  ct_cancelled_at :: "real option"

definition new_token :: cancel_token where
  "new_token = \<lparr>ct_set = False, ct_reason = None, ct_cancelled_at = None\<rparr>"

definition token_cancel :: "ustr option \<Rightarrow> real \<Rightarrow> cancel_token \<Rightarrow> cancel_token" where
  "token_cancel reason now t =
     (if \<not> ct_set t then t\<lparr>ct_reason := reason, ct_cancelled_at := Some now, ct_set := True\<rparr> else t)"

definition throw_if_cancelled :: "cancel_token \<Rightarrow> exn + unit" where
  "throw_if_cancelled t = (if ct_set t then Inl (OtherErr ''StreamCancelledError'') else Inr ())"

section \<open>Grace buffer\<close>

type_synonym stream_event = "jdict envelope \<times> event_type"

record grace_buffer =
  gb_buf :: "stream_event list"
  gb_maxlen :: nat
  gb_gap :: bool

definition grace_init :: "nat \<Rightarrow> grace_buffer" where
  "grace_init maxsize = \<lparr>gb_buf = [], gb_maxlen = maxsize, gb_gap = False\<rparr>"

text \<open>\<^verbatim>\<open>deque(maxlen=n).append\<close> drops from the left what exceeds the length.\<close>

definition grace_put :: "stream_event \<Rightarrow> grace_buffer \<Rightarrow> grace_buffer" where
  "grace_put e g =
     (let g = (if length (gb_buf g) = gb_maxlen g then g\<lparr>gb_gap := True\<rparr> else g);
          b = gb_buf g @ [e]
      in g\<lparr>gb_buf := drop (length b - gb_maxlen g) b\<rparr>)"

definition grace_drain :: "grace_buffer \<Rightarrow> (stream_event list \<times> bool) \<times> grace_buffer" where
  "grace_drain g = ((gb_buf g, gb_gap g), g\<lparr>gb_buf := [], gb_gap := False\<rparr>)"

section \<open>Disconnect monitor and runner\<close>

datatype disconnect_policy = CANCEL | GRACE | CONTINUE

record monitor =
  mo_policy :: disconnect_policy
  mo_buffer :: grace_buffer
  mo_disconnected :: bool
  mo_timer :: bool \<comment> \<open>a timer task is stored\<close>
  mo_armed :: bool \<comment> \<open>and it still sleeps\<close>
  mo_cancelled :: bool

record runner =
  rn_mux :: "jdict mux"
  rn_monitor :: monitor
  rn_tokens :: "(ustr, cancel_token) dict"
  rn_partials :: "(ustr, ustr) dict"
  rn_cancelled_executors :: "ustr list"

definition should_buffer :: "monitor \<Rightarrow> bool" where
  "should_buffer mo \<longleftrightarrow> mo_disconnected mo \<and> mo_policy mo = GRACE \<and> \<not> mo_cancelled mo"

text \<open>\<^verbatim>\<open>_on_cancel\<close>: every executor task is cancelled, then the multiplexer is closed by force.\<close>

definition on_cancel :: "runner \<Rightarrow> runner" where
  "on_cancel r = r\<lparr>rn_cancelled_executors := dkeys (rn_tokens r), rn_mux := mux_force_close (rn_mux r)\<rparr>"

definition do_cancel :: "runner \<Rightarrow> runner" where
  "do_cancel r =
     (if mo_cancelled (rn_monitor r) then r
      else on_cancel (r\<lparr>rn_monitor := (rn_monitor r)\<lparr>mo_cancelled := True\<rparr>\<rparr>))"

definition notify_disconnect :: "runner \<Rightarrow> runner" where
  "notify_disconnect r =
     (if mo_disconnected (rn_monitor r) then r
      else let mo = (rn_monitor r)\<lparr>mo_disconnected := True\<rparr>
        in case mo_policy mo of
             CANCEL \<Rightarrow> do_cancel (r\<lparr>rn_monitor := mo\<rparr>)
           | GRACE \<Rightarrow> r\<lparr>rn_monitor := mo\<lparr>mo_timer := True, mo_armed := True\<rparr>\<rparr>
           | CONTINUE \<Rightarrow> r\<lparr>rn_monitor := mo\<rparr>)"

definition notify_reconnect :: "runner \<Rightarrow> (stream_event list \<times> bool) \<times> runner" where
  "notify_reconnect r =
     (let mo = rn_monitor r
      in if mo_policy mo \<noteq> GRACE \<or> mo_cancelled mo then (([], False), r)
         else let mo = mo\<lparr>mo_disconnected := False\<rparr>;
                  mo = (if mo_timer mo then mo\<lparr>mo_timer := False, mo_armed := False\<rparr> else mo);
                  (res, b) = grace_drain (mo_buffer mo)
              in (res, r\<lparr>rn_monitor := mo\<lparr>mo_buffer := b\<rparr>\<rparr>))"

text \<open>The timer task wakes up: only one that still sleeps does.\<close>

definition timer_fires :: "runner \<Rightarrow> runner" where
  "timer_fires r =
     (if mo_armed (rn_monitor r) then do_cancel (r\<lparr>rn_monitor := (rn_monitor r)\<lparr>mo_armed := False\<rparr>\<rparr>) else r)"

definition monitor_close :: "monitor \<Rightarrow> monitor" where
  "monitor_close mo = (if mo_timer mo then mo\<lparr>mo_timer := False, mo_armed := False\<rparr> else mo)"

text \<open>The body of the consumer loop of \<^verbatim>\<open>run\<close>: what it yields, if anything.\<close>

definition content_text :: "stream_event \<Rightarrow> ustr option" where
  "content_text e = (case e of (env, ty) \<Rightarrow>
     if ty = STREAM_DELTA \<and> map_of (ev_data env) (lit ''kind'') = Some (JStr (lit ''content''))
     then (case map_of (ev_data env) (lit ''text'') of Some (JStr t) \<Rightarrow> Some t | _ \<Rightarrow> Some []) else None)"

definition run_event :: "stream_event \<Rightarrow> runner \<Rightarrow> stream_event option \<times> runner" where
  "run_event e r =
     (let (env, ty) = e; sid = ev_stream_id env;
          r = (case content_text e of
                 None \<Rightarrow> r
               | Some t \<Rightarrow> r\<lparr>rn_partials := dset sid (dget (rn_partials r) sid [] @ t) (rn_partials r)\<rparr>)
      in if ct_set (dget (rn_tokens r) sid new_token) \<and> ty \<notin> {STREAM_CANCELLED, STREAM_MANIFEST, STREAM_END} then (None, r)
         else if should_buffer (rn_monitor r)
           then (None, r\<lparr>rn_monitor := (rn_monitor r)\<lparr>mo_buffer := grace_put e (mo_buffer (rn_monitor r))\<rparr>\<rparr>)
         else (Some e, r))"

text \<open>\<^verbatim>\<open>_emit_cancelled_event\<close>: never waits; a full queue drops the event.\<close>

definition emit_cancelled_event :: "ustr \<Rightarrow> real \<Rightarrow> runner \<Rightarrow> runner" where
  "emit_cancelled_event sid now r =
     (if mx_closed (rn_mux r) then r
      else let token = dget (rn_tokens r) sid new_token;
               data = make_stream_cancelled
                 (case ct_reason token of Some t \<Rightarrow> if t = [] then lit ''cancelled by user'' else t | None \<Rightarrow> lit ''cancelled by user'')
                 (case ct_cancelled_at token of Some t \<Rightarrow> if t = 0 then now else t | None \<Rightarrow> now)
                 (Some (dget (rn_partials r) sid [])) []
        in if q_full (rn_mux r) then r
           else r\<lparr>rn_mux := q_put (Some (new_item sid STREAM_CANCELLED data None)) (rn_mux r)\<rparr>)"

definition cancel_one :: "ustr \<Rightarrow> bool \<Rightarrow> real \<Rightarrow> ustr \<Rightarrow> (ustr, ustr) dict \<times> runner \<Rightarrow> (ustr, ustr) dict \<times> runner" where
  "cancel_one reason force now sid pr =
     (let (partials, r) = pr;
          partials = dset sid (dget (rn_partials r) sid []) partials;
          r = (case map_of (rn_tokens r) sid of
                 None \<Rightarrow> r | Some t \<Rightarrow> r\<lparr>rn_tokens := dset sid (token_cancel (Some reason) now t) (rn_tokens r)\<rparr>);
          r = emit_cancelled_event sid now r;
          r = (if force then r\<lparr>rn_cancelled_executors := rn_cancelled_executors r @ [sid]\<rparr> else r)
      in (partials, r))"

definition runner_cancel :: "ustr option \<Rightarrow> ustr option \<Rightarrow> bool \<Rightarrow> real \<Rightarrow> runner \<Rightarrow> (ustr, ustr) dict \<times> runner" where
  "runner_cancel stream_id reason force now r =
     (let reason = (case reason of Some t \<Rightarrow> if t = [] then lit ''cancelled by user'' else t | None \<Rightarrow> lit ''cancelled by user'');
          targets = (case stream_id of
                       Some sid \<Rightarrow> if map_of (rn_tokens r) sid = None then [] else [sid]
                     | None \<Rightarrow> dkeys (rn_tokens r))
      in fold (cancel_one reason force now) targets ([], r))"

text \<open>A runner when its consumer loop starts: the constructor, then one token and one registration per substream.  The
  buffer has its default size.\<close>

definition runner_init :: "int \<Rightarrow> backpressure_policy \<Rightarrow> disconnect_policy \<Rightarrow> ustr list \<Rightarrow> runner" where
  "runner_init queue_maxsize bp policy sids =
     \<lparr>rn_mux = fold mux_register sids (mux_init queue_maxsize bp),
      rn_monitor = \<lparr>mo_policy = policy, mo_buffer = grace_init 5000, mo_disconnected = False, mo_timer = False, mo_armed = False,
        mo_cancelled = False\<rparr>,
      rn_tokens = map (\<lambda>sid. (sid, new_token)) sids, rn_partials = [], rn_cancelled_executors = []\<rparr>"

section \<open>Traces\<close>

datatype rn_input = Consume stream_event | Disconnect | Reconnect | TimerFires | CancelCall "ustr option" "ustr option" bool real

text \<open>What reaches the client: what the loop yields, and what a reconnection drains.  The flag tells whether a
  reconnection reported a gap.\<close>

record delivery =
  dl_runner :: runner
  dl_client :: "stream_event list"
  dl_gap :: bool

fun rn_step :: "rn_input \<Rightarrow> delivery \<Rightarrow> delivery" where
  "rn_step (Consume e) d =
     (let (y, r) = run_event e (dl_runner d)
      in d\<lparr>dl_runner := r, dl_client := dl_client d @ (case y of None \<Rightarrow> [] | Some e' \<Rightarrow> [e'])\<rparr>)"
| "rn_step Disconnect d = d\<lparr>dl_runner := notify_disconnect (dl_runner d)\<rparr>"
| "rn_step Reconnect d =
     (let ((evs, gap), r) = notify_reconnect (dl_runner d)
      in d\<lparr>dl_runner := r, dl_client := dl_client d @ evs, dl_gap := dl_gap d \<or> gap\<rparr>)"
| "rn_step TimerFires d = d\<lparr>dl_runner := timer_fires (dl_runner d)\<rparr>"
| "rn_step (CancelCall sid reason force now) d = d\<lparr>dl_runner := snd (runner_cancel sid reason force now (dl_runner d))\<rparr>"

definition delivery_init :: "runner \<Rightarrow> delivery" where
  "delivery_init r = \<lparr>dl_runner = r, dl_client = [], dl_gap = False\<rparr>"

definition consumed :: "rn_input list \<Rightarrow> stream_event list" where
  "consumed is = concat (map (\<lambda>i. case i of Consume e \<Rightarrow> [e] | _ \<Rightarrow> []) is)"

section \<open>Grace period\<close>

lemma grace_put_keeps:
  assumes "length (gb_buf g) \<le> gb_maxlen g"
  shows "length (gb_buf (grace_put e g)) \<le> gb_maxlen (grace_put e g)" "subseq (gb_buf (grace_put e g)) (gb_buf g @ [e])"
    "\<not> gb_gap (grace_put e g) \<Longrightarrow> \<not> gb_gap g \<and> gb_buf (grace_put e g) = gb_buf g @ [e]"
proof -
  have "gb_buf (grace_put e g) = drop (Suc (length (gb_buf g)) - gb_maxlen g) (gb_buf g @ [e])"
    by (simp add: grace_put_def Let_def)
  then show "subseq (gb_buf (grace_put e g)) (gb_buf g @ [e])" by (metis suffix_drop suffix_imp_subseq)
qed (use assms in \<open>auto simp: grace_put_def Let_def split: if_splits\<close>)

text \<open>Up to a gap that was or will be reported, what the client has and what is buffered is what was consumed.\<close>

definition grace_inv :: "stream_event list \<Rightarrow> delivery \<Rightarrow> bool" where
  "grace_inv evs d \<longleftrightarrow> (let mo = rn_monitor (dl_runner d) in
     mo_policy mo = GRACE
     \<and> (\<forall>sid. \<not> ct_set (dget (rn_tokens (dl_runner d)) sid new_token))
     \<and> length (gb_buf (mo_buffer mo)) \<le> gb_maxlen (mo_buffer mo)
     \<and> (\<not> mo_disconnected mo \<longrightarrow> gb_buf (mo_buffer mo) = [] \<and> \<not> gb_gap (mo_buffer mo))
     \<and> subseq (dl_client d @ gb_buf (mo_buffer mo)) evs
     \<and> (\<not> dl_gap d \<and> \<not> gb_gap (mo_buffer mo) \<longrightarrow> dl_client d @ gb_buf (mo_buffer mo) = evs))"

lemma content_keeps [simp]:
  fixes r :: runner
  shows "rn_monitor (case x of None \<Rightarrow> r | Some t \<Rightarrow> r\<lparr>rn_partials := f t\<rparr>) = rn_monitor r"
    "rn_tokens (case x of None \<Rightarrow> r | Some t \<Rightarrow> r\<lparr>rn_partials := f t\<rparr>) = rn_tokens r"
    "rn_mux (case x of None \<Rightarrow> r | Some t \<Rightarrow> r\<lparr>rn_partials := f t\<rparr>) = rn_mux r"
  by (simp_all split: option.splits)

lemma run_event_open:
  assumes "\<not> ct_set (dget (rn_tokens r) (ev_stream_id (fst e)) new_token)"
  shows "fst (run_event e r) = (if should_buffer (rn_monitor r) then None else Some e)"
    "rn_monitor (snd (run_event e r)) =
      (if should_buffer (rn_monitor r) then (rn_monitor r)\<lparr>mo_buffer := grace_put e (mo_buffer (rn_monitor r))\<rparr> else rn_monitor r)"
    "rn_tokens (snd (run_event e r)) = rn_tokens r"
  using assms by (auto simp: run_event_def Let_def split: prod.splits)

lemma grace_consume:
  assumes "grace_inv evs d" "\<not> mo_cancelled (rn_monitor (dl_runner d))"
  shows "grace_inv (evs @ [e]) (rn_step (Consume e) d)"
proof -
  let ?r = "dl_runner d"
  have t: "\<not> ct_set (dget (rn_tokens ?r) (ev_stream_id (fst e)) new_token)" using assms(1) by (simp add: grace_inv_def Let_def)
  note re = run_event_open[OF t]
  show ?thesis
  proof (cases "mo_disconnected (rn_monitor ?r)")
    case True
    let ?g = "mo_buffer (rn_monitor ?r)"
    have b: "should_buffer (rn_monitor ?r)" using True assms by (simp add: should_buffer_def grace_inv_def Let_def)
    have len: "length (gb_buf ?g) \<le> gb_maxlen ?g" and sub: "subseq (dl_client d @ gb_buf ?g) evs"
      using assms(1) by (simp_all add: grace_inv_def Let_def)
    note gp = grace_put_keeps[OF len, of e]
    have "subseq (dl_client d @ gb_buf (grace_put e ?g)) ((dl_client d @ gb_buf ?g) @ [e])" using gp(2) by (simp add: subseq_append')
    moreover have "subseq ((dl_client d @ gb_buf ?g) @ [e]) (evs @ [e])" using sub by (simp only: subseq_append)
    ultimately have "subseq (dl_client d @ gb_buf (grace_put e ?g)) (evs @ [e])" by (rule subseq_order.order_trans)
    with assms(1) gp(1,3) True re b show ?thesis
      by (auto simp: grace_inv_def Let_def split: prod.splits)
  next
    case False
    then have "\<not> should_buffer (rn_monitor ?r)" by (simp add: should_buffer_def)
    with assms(1) re False show ?thesis
      by (auto simp: grace_inv_def Let_def subseq_append split: prod.splits simp flip: append_assoc)
  qed
qed

lemma grace_other:
  assumes "grace_inv evs d" "\<not> mo_cancelled (rn_monitor (dl_runner (rn_step i d)))" "\<not> mo_cancelled (rn_monitor (dl_runner d))"
    "i \<in> {Disconnect, Reconnect, TimerFires}"
  shows "grace_inv evs (rn_step i d)"
  using assms
  by (auto simp: grace_inv_def notify_disconnect_def notify_reconnect_def timer_fires_def do_cancel_def on_cancel_def
      grace_drain_def Let_def split: if_splits)

lemma cancel_one_result:
  "fst (cancel_one reason force now sid pr) = dset sid (dget (rn_partials (snd pr)) sid []) (fst pr)"
  "rn_monitor (snd (cancel_one reason force now sid pr)) = rn_monitor (snd pr)"
  "rn_partials (snd (cancel_one reason force now sid pr)) = rn_partials (snd pr)"
  "rn_tokens (snd (cancel_one reason force now sid pr)) =
    (case map_of (rn_tokens (snd pr)) sid of
       None \<Rightarrow> rn_tokens (snd pr) | Some t \<Rightarrow> dset sid (token_cancel (Some reason) now t) (rn_tokens (snd pr)))"
  by (cases pr; auto simp: cancel_one_def emit_cancelled_event_def Let_def split: option.splits)+

lemma fold_cancel_keeps:
  "rn_monitor (snd (fold (cancel_one reason force now) sids pr)) = rn_monitor (snd pr)"
  "rn_partials (snd (fold (cancel_one reason force now) sids pr)) = rn_partials (snd pr)"
  by (induction sids arbitrary: pr) (simp_all add: cancel_one_result)

lemma runner_cancel_keeps:
  "rn_monitor (snd (runner_cancel sid reason force now r)) = rn_monitor r"
  "rn_partials (snd (runner_cancel sid reason force now r)) = rn_partials r"
  by (simp_all add: runner_cancel_def fold_cancel_keeps Let_def)

lemma run_event_monitor:
  "rn_tokens (snd (run_event e r)) = rn_tokens r"
  "rn_monitor (snd (run_event e r)) \<in>
    {rn_monitor r, (rn_monitor r)\<lparr>mo_buffer := grace_put e (mo_buffer (rn_monitor r))\<rparr>}"
  by (auto simp: run_event_def Let_def split: prod.splits)

lemma still_cancelled: "mo_cancelled (rn_monitor (dl_runner d)) \<Longrightarrow> mo_cancelled (rn_monitor (dl_runner (rn_step i d)))"
proof (cases i)
  case (Consume e)
  then show "mo_cancelled (rn_monitor (dl_runner d)) \<Longrightarrow> ?thesis"
    using run_event_monitor(2)[of e "dl_runner d"] by (auto split: prod.splits)
qed (auto simp: notify_disconnect_def notify_reconnect_def timer_fires_def do_cancel_def runner_cancel_keeps Let_def
      split: disconnect_policy.splits prod.splits)

definition no_cancel_call :: "rn_input \<Rightarrow> bool" where
  "no_cancel_call i = (case i of CancelCall _ _ _ _ \<Rightarrow> False | _ \<Rightarrow> True)"

lemma grace_trace:
  assumes "grace_inv evs d" "\<forall>i \<in> set is. no_cancel_call i" "\<not> mo_cancelled (rn_monitor (dl_runner (fold rn_step is d)))"
  shows "grace_inv (evs @ consumed is) (fold rn_step is d)"
  using assms
proof (induction "is" arbitrary: evs d)
  case (Cons i "is")
  have nc: "\<not> mo_cancelled (rn_monitor (dl_runner (rn_step i d)))"
  proof
    assume "mo_cancelled (rn_monitor (dl_runner (rn_step i d)))"
    then have "mo_cancelled (rn_monitor (dl_runner (fold rn_step js (rn_step i d))))" for js
      by (induction js rule: rev_induct) (auto simp: still_cancelled)
    with Cons.prems(3) show False by simp
  qed
  then have nd: "\<not> mo_cancelled (rn_monitor (dl_runner d))" using still_cancelled by blast
  have "grace_inv (evs @ consumed [i]) (rn_step i d)"
  proof (cases i)
    case (Consume e)
    then show ?thesis using grace_consume[OF Cons.prems(1) nd, of e] by (simp add: consumed_def)
  qed (use grace_other[OF Cons.prems(1) nc nd] Cons.prems(2) in \<open>auto simp: consumed_def no_cancel_call_def\<close>)
  from Cons.IH[OF this] Cons.prems show ?case by (simp add: consumed_def)
qed (simp add: consumed_def)

section \<open>Cancellation\<close>

definition terminal_event :: "event_type \<Rightarrow> bool" where
  "terminal_event ty \<longleftrightarrow> ty \<in> {STREAM_CANCELLED, STREAM_MANIFEST, STREAM_END}"

lemma token_stays:
  "ct_set (dget (rn_tokens (dl_runner d)) sid new_token) \<Longrightarrow> ct_set (dget (rn_tokens (dl_runner (rn_step i d))) sid new_token)"
proof (cases i)
  case (CancelCall sid' reason force now)
  have one: "ct_set (dget (rn_tokens (snd pr)) sid new_token) \<Longrightarrow> ct_set (dget (rn_tokens (snd (cancel_one rs force now s pr))) sid new_token)"
    for rs s pr by (auto simp: cancel_one_result dget_def dict_simps token_cancel_def split: option.splits)
  have "ct_set (dget (rn_tokens (snd pr)) sid new_token) \<Longrightarrow> ct_set (dget (rn_tokens (snd (fold (cancel_one rs force now) sids pr))) sid new_token)"
    for rs sids pr using one by (induction sids arbitrary: pr) simp_all
  then show "ct_set (dget (rn_tokens (dl_runner d)) sid new_token) \<Longrightarrow> ?thesis"
    using CancelCall by (simp add: runner_cancel_def Let_def)
next
  case (Consume e)
  then show "ct_set (dget (rn_tokens (dl_runner d)) sid new_token) \<Longrightarrow> ?thesis"
    by (simp add: run_event_monitor split: prod.splits) (metis run_event_monitor(1) snd_conv)
qed (auto simp: notify_disconnect_def notify_reconnect_def timer_fires_def do_cancel_def on_cancel_def Let_def
      split: disconnect_policy.splits prod.splits)

text \<open>Events of a cancelled stream that are in the buffer or with the client, beyond those it had, are terminal.\<close>

definition muted :: "ustr \<Rightarrow> stream_event set \<Rightarrow> delivery \<Rightarrow> bool" where
  "muted sid old d \<longleftrightarrow> ct_set (dget (rn_tokens (dl_runner d)) sid new_token)
     \<and> (\<forall>e \<in> set (dl_client d) \<union> set (gb_buf (mo_buffer (rn_monitor (dl_runner d)))).
          ev_stream_id (fst e) = sid \<longrightarrow> terminal_event (snd e) \<or> e \<in> old)"

lemma grace_put_members: "set (gb_buf (grace_put e g)) \<subseteq> insert e (set (gb_buf g))"
  using set_drop_subset[of "Suc (length (gb_buf g)) - gb_maxlen g" "gb_buf g @ [e]"]
  by (auto simp: grace_put_def Let_def split: if_splits)

lemma run_event_muted:
  assumes "ct_set (dget (rn_tokens r) sid new_token)" "ev_stream_id (fst e) = sid" "\<not> terminal_event (snd e)"
  shows "fst (run_event e r) = None" "rn_monitor (snd (run_event e r)) = rn_monitor r"
  using assms by (auto simp: run_event_def terminal_event_def Let_def split: prod.splits)

lemma muted_consume: "muted sid old d \<Longrightarrow> muted sid old (rn_step (Consume e) d)"
proof -
  assume m: "muted sid old d"
  let ?r = "dl_runner d"
  have t: "ct_set (dget (rn_tokens ?r) sid new_token)" using m by (simp add: muted_def)
  have y: "fst (run_event e ?r) = None \<or> fst (run_event e ?r) = Some e"
    by (auto simp: run_event_def Let_def split: prod.splits)
  have tok: "ct_set (dget (rn_tokens (dl_runner (rn_step (Consume e) d))) sid new_token)" using t by (rule token_stays)
  have new: "terminal_event (snd e)"
    if "ev_stream_id (fst e) = sid" "fst (run_event e ?r) = Some e \<or> rn_monitor (snd (run_event e ?r)) \<noteq> rn_monitor ?r"
    using run_event_muted[OF t that(1)] that(2) by fastforce
  show ?thesis
  proof (cases "run_event e ?r")
    case (Pair o' r')
    have mon: "rn_monitor r' = rn_monitor ?r \<or> rn_monitor r' = (rn_monitor ?r)\<lparr>mo_buffer := grace_put e (mo_buffer (rn_monitor ?r))\<rparr>"
      using run_event_monitor(2)[of e ?r] Pair by auto
    from mon show ?thesis
    proof
      assume "rn_monitor r' = rn_monitor ?r"
      with m tok y new Pair show ?thesis by (auto simp: muted_def split: option.splits)
    next
      assume g: "rn_monitor r' = (rn_monitor ?r)\<lparr>mo_buffer := grace_put e (mo_buffer (rn_monitor ?r))\<rparr>"
      show ?thesis
      proof (cases "rn_monitor r' = rn_monitor ?r")
        case True
        with m tok y new Pair show ?thesis by (auto simp: muted_def split: option.splits)
      next
        case False
        then have "ev_stream_id (fst e) = sid \<Longrightarrow> terminal_event (snd e)" using new Pair by simp
        with m tok y g Pair grace_put_members[of e "mo_buffer (rn_monitor ?r)"] show ?thesis
          by (auto simp: muted_def split: option.splits)
      qed
    qed
  qed
qed

lemma muted_step: "muted sid old d \<Longrightarrow> muted sid old (rn_step i d)"
proof (cases i)
  case (CancelCall sid' reason force now)
  assume "muted sid old d"
  then show ?thesis using token_stays[of d sid i] CancelCall by (auto simp: muted_def runner_cancel_keeps)
next
  case (Consume e)
  then show "muted sid old d \<Longrightarrow> ?thesis" using muted_consume by simp
qed (auto simp: muted_def notify_disconnect_def notify_reconnect_def timer_fires_def do_cancel_def on_cancel_def grace_drain_def Let_def
      split: disconnect_policy.splits prod.splits if_splits)

lemma muted_trace: "muted sid old d \<Longrightarrow> muted sid old (fold rn_step is d)"
  by (induction "is" arbitrary: d) (simp_all add: muted_step)

text \<open>The partial content of a stream is the text of the content deltas consumed for it, delivered or not.\<close>

definition text_for :: "ustr \<Rightarrow> stream_event list \<Rightarrow> ustr" where
  "text_for sid evs = concat (map (\<lambda>e. if ev_stream_id (fst e) = sid then (case content_text e of None \<Rightarrow> [] | Some t \<Rightarrow> t) else []) evs)"

lemma run_event_partials:
  "dget (rn_partials (snd (run_event e r))) sid [] = dget (rn_partials r) sid [] @ text_for sid [e]"
proof -
  obtain env ty where e: "e = (env, ty)" by fastforce
  have "rn_partials (snd (run_event e r)) = (case content_text e of None \<Rightarrow> rn_partials r
      | Some t \<Rightarrow> dset (ev_stream_id env) (dget (rn_partials r) (ev_stream_id env) [] @ t) (rn_partials r))"
    by (cases "content_text e") (simp_all add: run_event_def e Let_def)
  then show ?thesis by (cases "content_text e") (auto simp: text_for_def e dget_def dict_simps)
qed

lemma step_partials:
  "dget (rn_partials (dl_runner (rn_step i d))) sid [] = dget (rn_partials (dl_runner d)) sid [] @ text_for sid (consumed [i])"
proof (cases i)
  case (Consume e)
  then show ?thesis using run_event_partials[of e "dl_runner d" sid] by (auto simp: consumed_def split: prod.splits)
qed (auto simp: consumed_def text_for_def runner_cancel_keeps notify_disconnect_def notify_reconnect_def timer_fires_def do_cancel_def
      on_cancel_def Let_def split: disconnect_policy.splits prod.splits)

lemma trace_partials:
  "dget (rn_partials (dl_runner (fold rn_step is d))) sid [] = dget (rn_partials (dl_runner d)) sid [] @ text_for sid (consumed is)"
proof (induction "is" arbitrary: d)
  case (Cons i "is")
  then show ?case using step_partials[of i d sid] by (simp add: consumed_def text_for_def)
qed (simp add: consumed_def text_for_def)

section \<open>Properties\<close>

lemma grace_inv_init: "grace_inv [] (delivery_init (runner_init n bp GRACE sids))"
proof -
  have "\<not> ct_set (dget (map (\<lambda>sid. (sid, new_token)) sids) sid new_token)" for sid
    by (induction sids) (auto simp: dget_def new_token_def)
  then show ?thesis by (simp add: grace_inv_def delivery_init_def runner_init_def grace_init_def Let_def)
qed

lemma grace_delivery:
  assumes "\<forall>i \<in> set is. no_cancel_call i" "d = fold rn_step is (delivery_init (runner_init n bp GRACE sids))"
    "\<not> mo_cancelled (rn_monitor (dl_runner d))"
  shows "grace_inv (consumed is) d"
  using grace_trace[OF grace_inv_init assms(1)] assms(2,3) by simp

text \<open>C30. The grace period loses no event silently.  Under the grace policy, over any sequence of consumed events, disconnections,
  reconnections and timer expiries that does not end in cancellation, what the client received followed by what is buffered is
  a subsequence of what was consumed, and exactly what was consumed unless a gap was reported or is flagged in the
  buffer; while the client is connected nothing is left in the buffer.\<close>

theorem grace_period_lossless:
  assumes "\<forall>i \<in> set is. no_cancel_call i" "d = fold rn_step is (delivery_init (runner_init n bp GRACE sids))"
    "\<not> mo_cancelled (rn_monitor (dl_runner d))"
  shows "subseq (dl_client d @ gb_buf (mo_buffer (rn_monitor (dl_runner d)))) (consumed is)
    \<and> (\<not> dl_gap d \<and> \<not> gb_gap (mo_buffer (rn_monitor (dl_runner d))) \<longrightarrow>
        dl_client d @ gb_buf (mo_buffer (rn_monitor (dl_runner d))) = consumed is)
    \<and> (\<not> mo_disconnected (rn_monitor (dl_runner d)) \<longrightarrow>
        gb_buf (mo_buffer (rn_monitor (dl_runner d))) = [] \<and> (\<not> dl_gap d \<longrightarrow> dl_client d = consumed is))"
  using grace_delivery[OF assms] by (auto simp: grace_inv_def Let_def)

definition demo_event :: "ustr \<Rightarrow> int \<Rightarrow> string \<Rightarrow> stream_event" where
  "demo_event sid n t = (\<lparr>ev_v = 1, ev_stream_id = sid, ev_stage = None, ev_seq = n, ev_ts = 0,
     ev_data = make_delta CONTENT (Some (lit t)) None []\<rparr>, STREAM_DELTA)"

lemmas demo_delivery_defs = delivery_init_def runner_init_def grace_init_def grace_put_def grace_drain_def run_event_def
  notify_disconnect_def notify_reconnect_def should_buffer_def demo_event_def dget_def new_token_def consumed_def Let_def

theorem grace_period_lossless_witness:
  "dl_client (fold rn_step [Consume (demo_event [] 1 ''a''), Disconnect, Consume (demo_event [] 2 ''b''), Reconnect, Consume (demo_event [] 3 ''c'')]
     (delivery_init (runner_init 10 BLOCK GRACE [[]]))) = [demo_event [] 1 ''a'', demo_event [] 2 ''b'', demo_event [] 3 ''c'']"
proof -
  let ?is = "[Consume (demo_event [] 1 ''a''), Disconnect, Consume (demo_event [] 2 ''b''), Reconnect, Consume (demo_event [] 3 ''c'')]"
  let ?d = "fold rn_step ?is (delivery_init (runner_init 10 BLOCK GRACE [[]]))"
  have m: "\<not> mo_cancelled (rn_monitor (dl_runner ?d))" "\<not> mo_disconnected (rn_monitor (dl_runner ?d))" "\<not> dl_gap ?d"
    by (simp_all add: demo_delivery_defs)
  have "\<forall>i \<in> set ?is. no_cancel_call i" by (simp add: no_cancel_call_def)
  from grace_period_lossless[OF this refl m(1)] m(2,3) have "dl_client ?d = consumed ?is" by blast
  then show ?thesis by (simp add: consumed_def)
qed

text \<open>C31. A cancelled stream falls silent.  From the moment \<^verbatim>\<open>cancel\<close> is called for a registered stream, whatever is consumed and
  however clients come and go, every event of that stream that reaches the client is a cancelled, manifest or end event,
  or one that was already delivered or buffered before the call.\<close>

theorem cancelled_stream_is_silent:
  assumes "map_of (rn_tokens (dl_runner d)) sid = Some t"
    and "d' = fold rn_step (CancelCall (Some sid) reason force now # is) d"
    and "e \<in> set (dl_client d')" and "ev_stream_id (fst e) = sid"
  shows "snd e \<in> {STREAM_CANCELLED, STREAM_MANIFEST, STREAM_END} \<or> e \<in> set (dl_client d)
    \<or> e \<in> set (gb_buf (mo_buffer (rn_monitor (dl_runner d))))"
proof -
  let ?d1 = "rn_step (CancelCall (Some sid) reason force now) d"
  have "ct_set (dget (rn_tokens (dl_runner ?d1)) sid new_token)"
    using assms(1) by (simp add: runner_cancel_def cancel_one_result dget_def dict_simps token_cancel_def Let_def)
  then have "muted sid (set (dl_client d) \<union> set (gb_buf (mo_buffer (rn_monitor (dl_runner d))))) ?d1"
    by (simp add: muted_def runner_cancel_keeps)
  from muted_trace[OF this, of "is"] assms(2-4) show ?thesis by (auto simp: muted_def terminal_event_def)
qed

theorem cancelled_stream_is_silent_witness:
  "\<exists>d'. d' = fold rn_step [CancelCall (Some []) None False 7, Consume (demo_event [] 1 ''a''), Consume (fst (demo_event [] 2 ''b''), STREAM_END)]
     (delivery_init (runner_init 10 BLOCK CONTINUE [[]])) \<and> (fst (demo_event [] 2 ''b''), STREAM_END) \<in> set (dl_client d')
     \<and> demo_event [] 1 ''a'' \<notin> set (dl_client d')"
proof -
  let ?d = "delivery_init (runner_init 10 BLOCK CONTINUE [[]])"
  let ?is = "[Consume (demo_event [] 1 ''a''), Consume (fst (demo_event [] 2 ''b''), STREAM_END)]"
  define d' where d': "d' = fold rn_step (CancelCall (Some []) None False 7 # ?is) ?d"
  have t: "map_of (rn_tokens (dl_runner ?d)) [] = Some new_token" by (simp add: delivery_init_def runner_init_def)
  have "demo_event [] 1 ''a'' \<notin> set (dl_client d')"
    using cancelled_stream_is_silent[OF t d', of "demo_event [] 1 ''a''"]
    by (auto simp: demo_event_def delivery_init_def runner_init_def grace_init_def)
  moreover have "(fst (demo_event [] 2 ''b''), STREAM_END) \<in> set (dl_client d')"
    by (simp add: d' runner_cancel_def cancel_one_def emit_cancelled_event_def content_text_def token_cancel_def q_full_def q_put_def
        mux_init_def mux_register_def demo_delivery_defs)
  ultimately show ?thesis using d' by blast
qed

text \<open>Cancelling a stream reports its partial content and never waits.  For a stream with a token, \<^verbatim>\<open>cancel\<close> returns the text of all content
  deltas consumed for it so far, whatever happened before; the token is set with the reason of the first call; the queue gains the cancelled event, carrying that
  text, exactly when it is open and has room.  For an unknown stream nothing happens.\<close>

theorem cancel_reports_partial_content:
  assumes "r = dl_runner (fold rn_step inputs (delivery_init (runner_init n bp policy sids)))"
  shows "(case map_of (rn_tokens r) sid of
      None \<Rightarrow> runner_cancel (Some sid) reason force now r = ([], r)
    | Some t \<Rightarrow>
        let (partials, r') = runner_cancel (Some sid) reason force now r;
            t' = dget (rn_tokens r') sid new_token
        in partials = [(sid, text_for sid (consumed inputs))]
           \<and> ct_set t' \<and> (ct_set t \<longrightarrow> t' = t)
           \<and> mx_queue (rn_mux r') = mx_queue (rn_mux r) @
               (if mx_closed (rn_mux r) \<or> q_full (rn_mux r) then []
                else [Some (new_item sid STREAM_CANCELLED
                  (make_stream_cancelled
                    (case ct_reason t' of Some x \<Rightarrow> if x = [] then lit ''cancelled by user'' else x | None \<Rightarrow> lit ''cancelled by user'')
                    (case ct_cancelled_at t' of Some x \<Rightarrow> if x = 0 then now else x | None \<Rightarrow> now)
                    (Some (text_for sid (consumed inputs))) []) None)]))"
proof (cases "map_of (rn_tokens r) sid")
  case None
  then show ?thesis by (simp add: runner_cancel_def Let_def)
next
  case (Some t)
  have p: "dget (rn_partials r) sid [] = text_for sid (consumed inputs)"
    using trace_partials[of inputs "delivery_init (runner_init n bp policy sids)" sid] assms
    by (simp add: delivery_init_def runner_init_def dget_def)
  show ?thesis
    using Some p
    by (auto simp: runner_cancel_def cancel_one_def emit_cancelled_event_def token_cancel_def dget_def dict_simps q_put_def q_full_def Let_def)
qed

theorem cancel_reports_partial_content_witness:
  "fst (runner_cancel (Some []) None False 7
     (dl_runner (fold rn_step [Consume (demo_event [] 1 ''a''), Consume (demo_event [] 2 ''b'')] (delivery_init (runner_init 10 BLOCK GRACE [[]])))))
   = [([], lit ''ab'')]"
proof -
  let ?is = "[Consume (demo_event [] 1 ''a''), Consume (demo_event [] 2 ''b'')]"
  let ?r = "dl_runner (fold rn_step ?is (delivery_init (runner_init 10 BLOCK GRACE [[]])))"
  have t: "map_of (rn_tokens ?r) [] = Some new_token" by (simp add: demo_delivery_defs)
  have x: "text_for [] (consumed ?is) = lit ''ab''"
    by (simp add: text_for_def consumed_def content_text_def demo_event_def delta_fields) (simp add: lit_def)
  from cancel_reports_partial_content[where r = ?r and inputs = ?is and n = 10 and bp = BLOCK and policy = GRACE and sids = "[[]]" and sid = "[]"
      and reason = None and force = False and now = 7] t x show ?thesis
    by (simp add: split_beta Let_def)
qed

end
