(* ===== verification/Enrich.thy ===== *)
theory Enrich
  imports Mux Events
begin

text \<open>
  Rich media placeholders: the registry (\<^verbatim>\<open>stream/enrich/placeholder.py\<close>), the dispatcher with its settle window
  (\<^verbatim>\<open>stream/enrich/manager.py\<close>) and the manifest (\<^verbatim>\<open>stream/finalizer/manifest.py\<close>).  The enricher is not part of the
  repository's streaming core: its outcome is an input of the steps.  The dispatch tasks and the settle window run
  concurrently; they interleave in the step relation \<^verbatim>\<open>enrich_step\<close> at the points where the code awaits.
\<close>

section \<open>Registry\<close>

record placeholder_record =
  ph_placeholder_id :: ustr
  ph_stream_id :: ustr
  ph_stage :: "ustr option"
  ph_context_text :: ustr
  ph_loading_url :: ustr
  ph_task_ref :: ustr
  ph_state :: placeholder_state
  ph_url :: "ustr option"
  ph_fallback_url :: "ustr option"
  ph_char_offset :: int
  ph_meta :: jdict
  ph_created_at :: real
  ph_resolved_at :: "real option"
  ph_error :: "ustr option"

definition elapsed :: "placeholder_record \<Rightarrow> real option" where
  "elapsed r = map_option (\<lambda>t. t - ph_created_at r) (ph_resolved_at r)"

record placeholder_registry =
  rg_records :: "(ustr, placeholder_record) dict"
  rg_events :: "(ustr, bool) dict"

definition registry_register :: "placeholder_record \<Rightarrow> placeholder_registry \<Rightarrow> placeholder_registry" where
  "registry_register r g =
     g\<lparr>rg_records := dset (ph_placeholder_id r) r (rg_records g), rg_events := dset (ph_placeholder_id r) False (rg_events g)\<rparr>"

definition registry_pending :: "placeholder_registry \<Rightarrow> placeholder_record list" where
  "registry_pending g = filter (\<lambda>r. ph_state r = PENDING) (map snd (rg_records g))"

definition set_event :: "ustr \<Rightarrow> placeholder_registry \<Rightarrow> placeholder_registry" where
  "set_event pid g = (if map_of (rg_events g) pid = None then g else g\<lparr>rg_events := dset pid True (rg_events g)\<rparr>)"

definition mark_resolved :: "ustr \<Rightarrow> ustr \<Rightarrow> jdict \<Rightarrow> real \<Rightarrow> placeholder_registry \<Rightarrow> placeholder_record option \<times> placeholder_registry" where
  "mark_resolved pid url meta now g =
     (case map_of (rg_records g) pid of
        None \<Rightarrow> (None, g)
      | Some r \<Rightarrow>
          if ph_state r \<noteq> PENDING then (Some r, g)
          else let r = r\<lparr>ph_state := RESOLVED, ph_url := Some url\<rparr>;
                   r = (if meta \<noteq> [] then r\<lparr>ph_meta := fold (\<lambda>(k, v). dset k v) meta (ph_meta r)\<rparr> else r);
                   r = r\<lparr>ph_resolved_at := Some now\<rparr>
               in (Some r, set_event pid (g\<lparr>rg_records := dset pid r (rg_records g)\<rparr>)))"

definition mark_failed :: "ustr \<Rightarrow> ustr \<Rightarrow> ustr option \<Rightarrow> real \<Rightarrow> placeholder_registry \<Rightarrow> placeholder_record option \<times> placeholder_registry" where
  "mark_failed pid error fallback_url now g =
     (case map_of (rg_records g) pid of
        None \<Rightarrow> (None, g)
      | Some r \<Rightarrow>
          if ph_state r \<noteq> PENDING then (Some r, g)
          else let r = r\<lparr>ph_state := FAILED, ph_error := Some error\<rparr>;
                   r = (case fallback_url of None \<Rightarrow> r | Some u \<Rightarrow> r\<lparr>ph_fallback_url := Some u\<rparr>);
                   r = r\<lparr>ph_resolved_at := Some now\<rparr>
               in (Some r, set_event pid (g\<lparr>rg_records := dset pid r (rg_records g)\<rparr>)))"

section \<open>Manager\<close>

datatype enrich_mode = LOCAL | TASKFLOW | AUTO

record enrich_config =
  ec_mode :: enrich_mode
  ec_eager :: bool
  ec_loading_url :: ustr

datatype dispatch_phase = Resolving | Emitting ustr \<comment> \<open>the eager event, suspended in \<^verbatim>\<open>mux.emit\<close>\<close>

datatype settle_phase = SettleIdle | SettleLoop "ustr list" | SettleEmitting ustr "ustr list" | Settled

record enrich_state =
  en_registry :: placeholder_registry
  en_tasks :: "(ustr, dispatch_phase) dict"
  en_emitted :: "ustr set"
  en_settle :: settle_phase
  en_log :: "jdict queued_item list" \<comment> \<open>events handed to the multiplexer\<close>

definition enrich_init :: enrich_state where
  "enrich_init = \<lparr>en_registry = \<lparr>rg_records = [], rg_events = []\<rparr>, en_tasks = [], en_emitted = {}, en_settle = SettleIdle, en_log = []\<rparr>"

definition make_task_ref :: "enrich_config \<Rightarrow> ustr \<Rightarrow> ustr" where
  "make_task_ref cfg pid = (if ec_mode cfg = TASKFLOW then lit ''tf:enrich-'' @ pid else lit ''local:'' @ pid)"

definition enrich_on_hit :: "enrich_config \<Rightarrow> ustr \<Rightarrow> ustr \<Rightarrow> ustr \<Rightarrow> ustr \<Rightarrow> int \<Rightarrow> real \<Rightarrow> enrich_state \<Rightarrow> enrich_state" where
  "enrich_on_hit cfg pid sid stage context_text char_offset now s =
     s\<lparr>en_log := en_log s @
         [new_item sid ENRICH_MARKER (make_enrich_marker pid context_text []) (Some stage),
          new_item sid ENRICH_PLACEHOLDER (make_enrich_placeholder pid (ec_loading_url cfg) (Some char_offset) []) (Some stage)],
       en_registry := registry_register
         \<lparr>ph_placeholder_id = pid, ph_stream_id = sid, ph_stage = Some stage, ph_context_text = context_text, ph_loading_url = ec_loading_url cfg,
          ph_task_ref = make_task_ref cfg pid, ph_state = PENDING, ph_url = None, ph_fallback_url = None, ph_char_offset = char_offset,
          ph_meta = [], ph_created_at = now, ph_resolved_at = None, ph_error = None\<rparr> (en_registry s),
       en_tasks := dset pid Resolving (en_tasks s)\<rparr>"

text \<open>How the enricher's call ends.\<close>

datatype enricher_outcome = ResultResolved ustr jdict | ResultFailed | EnricherRaised ustr | EnricherCancelled

definition fail_record :: "enrich_config \<Rightarrow> ustr \<Rightarrow> ustr \<Rightarrow> real \<Rightarrow> enrich_state \<Rightarrow> enrich_state" where
  "fail_record cfg pid error now s =
     s\<lparr>en_registry := snd (mark_failed pid error (Some (ec_loading_url cfg)) now (en_registry s))\<rparr>"

definition pop_task :: "ustr \<Rightarrow> enrich_state \<Rightarrow> enrich_state" where
  "pop_task pid s = s\<lparr>en_tasks := ddel pid (en_tasks s)\<rparr>"

text \<open>\<^verbatim>\<open>_dispatch_local\<close> up to its end or up to the eager event.\<close>

definition dispatch_outcome :: "enrich_config \<Rightarrow> ustr \<Rightarrow> enricher_outcome \<Rightarrow> real \<Rightarrow> enrich_state \<Rightarrow> enrich_state" where
  "dispatch_outcome cfg pid outcome now s =
     (case outcome of
        ResultResolved url meta \<Rightarrow>
          (let s = s\<lparr>en_registry := snd (mark_resolved pid url meta now (en_registry s))\<rparr>
           in if ec_eager cfg \<and> url \<noteq> [] then s\<lparr>en_tasks := dset pid (Emitting url) (en_tasks s)\<rparr> else pop_task pid s)
      | ResultFailed \<Rightarrow> pop_task pid (fail_record cfg pid (lit ''enricher returned failed'') now s)
      | EnricherRaised e \<Rightarrow> pop_task pid (fail_record cfg pid e now s)
      | EnricherCancelled \<Rightarrow> pop_task pid (fail_record cfg pid (lit ''cancelled by user'') now s))"

definition resolved_item :: "placeholder_record \<Rightarrow> ustr \<Rightarrow> jdict queued_item" where
  "resolved_item r url =
     new_item (ph_stream_id r) ENRICH_RESOLVED (make_enrich_resolved (ph_placeholder_id r) url RESOLVED []) (ph_stage r)"

definition emit_resolved :: "ustr \<Rightarrow> ustr \<Rightarrow> enrich_state \<Rightarrow> enrich_state" where
  "emit_resolved pid url s =
     (case map_of (rg_records (en_registry s)) pid of
        None \<Rightarrow> s
      | Some r \<Rightarrow> s\<lparr>en_log := en_log s @ [resolved_item r url], en_emitted := insert pid (en_emitted s)\<rparr>)"

text \<open>\<^verbatim>\<open>settle\<close>: a snapshot of the pending placeholders; each is waited for while time remains; at the end the local mode
  fails what is still pending.\<close>

definition settle_start :: "real \<Rightarrow> enrich_state \<Rightarrow> enrich_state" where
  "settle_start timeout s =
     (if timeout \<le> 0 then s\<lparr>en_settle := Settled\<rparr>
      else s\<lparr>en_settle := SettleLoop (map ph_placeholder_id (registry_pending (en_registry s)))\<rparr>)"

definition settle_checked :: "ustr \<Rightarrow> ustr list \<Rightarrow> enrich_state \<Rightarrow> enrich_state" where
  "settle_checked pid rest s =
     (case map_of (rg_records (en_registry s)) pid of
        Some r \<Rightarrow>
          if ph_state r = RESOLVED \<and> ph_url r \<noteq> None \<and> ph_url r \<noteq> Some [] \<and> pid \<notin> en_emitted s
          then s\<lparr>en_settle := SettleEmitting pid rest\<rparr> else s\<lparr>en_settle := SettleLoop rest\<rparr>
      | None \<Rightarrow> s\<lparr>en_settle := SettleLoop rest\<rparr>)"

definition settle_message :: ustr where
  "settle_message = lit ''settle timeout (no delegation channel in local mode)''"

definition settle_finish :: "enrich_config \<Rightarrow> real \<Rightarrow> enrich_state \<Rightarrow> enrich_state" where
  "settle_finish cfg now s =
     (if ec_mode cfg \<noteq> TASKFLOW
      then fold (\<lambda>r. fail_record cfg (ph_placeholder_id r) settle_message now)
             (registry_pending (en_registry s)) (s\<lparr>en_settle := Settled\<rparr>)
      else s\<lparr>en_settle := Settled\<rparr>)"

section \<open>Interleavings\<close>

text \<open>An emission on a full queue suspends its task; where the queue is never full (\<^verbatim>\<open>blocking\<close> false) the task runs on to its
  next await, so other tasks see the emission together with what precedes it.  Markers are found only before the settle
  window opens.\<close>

definition settled_emission :: "ustr \<Rightarrow> ustr list \<Rightarrow> enrich_state \<Rightarrow> enrich_state" where
  "settled_emission pid rest s =
     (case map_of (rg_records (en_registry s)) pid of
        Some r \<Rightarrow> (emit_resolved pid (the (ph_url r)) s)\<lparr>en_settle := SettleLoop rest\<rparr>
      | None \<Rightarrow> s)"

inductive enrich_step :: "enrich_config \<Rightarrow> real \<Rightarrow> bool \<Rightarrow> enrich_state \<Rightarrow> enrich_state \<Rightarrow> bool" for cfg timeout blocking where
  hit: "en_settle s = SettleIdle \<Longrightarrow> map_of (rg_records (en_registry s)) pid = None \<Longrightarrow>
    enrich_step cfg timeout blocking s (enrich_on_hit cfg pid sid stage context_text char_offset now s)"
| outcome_waits: "map_of (en_tasks s) pid = Some Resolving \<Longrightarrow> blocking \<or> map_of (en_tasks (dispatch_outcome cfg pid outcome now s)) pid = None \<Longrightarrow>
    enrich_step cfg timeout blocking s (dispatch_outcome cfg pid outcome now s)"
| outcome_emits: "map_of (en_tasks s) pid = Some Resolving \<Longrightarrow> map_of (en_tasks (dispatch_outcome cfg pid outcome now s)) pid = Some (Emitting url) \<Longrightarrow>
    enrich_step cfg timeout blocking s (pop_task pid (emit_resolved pid url (dispatch_outcome cfg pid outcome now s)))"
| emit_resumes: "map_of (en_tasks s) pid = Some (Emitting url) \<Longrightarrow>
    enrich_step cfg timeout blocking s (pop_task pid (emit_resolved pid url s))"
| emit_raises: "map_of (en_tasks s) pid = Some (Emitting url) \<Longrightarrow>
    enrich_step cfg timeout blocking s (pop_task pid (fail_record cfg pid error now s))"
| settle_opens: "en_settle s = SettleIdle \<Longrightarrow> enrich_step cfg timeout blocking s (settle_start timeout s)"
| settle_waited: "en_settle s = SettleLoop (pid # rest) \<Longrightarrow> blocking \<or> en_settle (settle_checked pid rest s) = SettleLoop rest \<Longrightarrow>
    enrich_step cfg timeout blocking s (settle_checked pid rest s)"
| settle_emits: "en_settle s = SettleLoop (pid # rest) \<Longrightarrow> en_settle (settle_checked pid rest s) = SettleEmitting pid rest \<Longrightarrow>
    enrich_step cfg timeout blocking s (settled_emission pid rest s)"
| settle_resumes: "en_settle s = SettleEmitting pid rest \<Longrightarrow> enrich_step cfg timeout blocking s (settled_emission pid rest s)"
| settle_ends: "en_settle s = SettleLoop rest \<Longrightarrow> enrich_step cfg timeout blocking s (settle_finish cfg now s)"

inductive enrich_reach :: "enrich_config \<Rightarrow> real \<Rightarrow> bool \<Rightarrow> enrich_state \<Rightarrow> bool" for cfg timeout blocking where
  enrich_start: "enrich_reach cfg timeout blocking enrich_init"
| enrich_more: "enrich_reach cfg timeout blocking s \<Longrightarrow> enrich_step cfg timeout blocking s s' \<Longrightarrow> enrich_reach cfg timeout blocking s'"

section \<open>Manifest\<close>

definition manifest_entry :: "placeholder_record \<Rightarrow> manifest_placeholder" where
  "manifest_entry r =
     \<lparr>mp_placeholder_id = ph_placeholder_id r, mp_task_ref = ph_task_ref r, mp_state = ph_state r, mp_stage = ph_stage r,
      mp_char_offset = Some (ph_char_offset r),
      mp_fallback_url = (case ph_fallback_url r of
          Some u \<Rightarrow> if u \<noteq> [] then Some u else if ph_state r = FAILED then Some (ph_loading_url r) else None
        | None \<Rightarrow> if ph_state r = FAILED then Some (ph_loading_url r) else None),
      mp_url = (if ph_state r = RESOLVED then ph_url r else None)\<rparr>"

record stream_result =
  sr_stages :: "(ustr, ustr \<times> ustr) dict" \<comment> \<open>content and thinking of each stage\<close>
  sr_errors :: "jdict list"

definition stage_payload :: "ustr \<times> ustr \<Rightarrow> json" where
  "stage_payload ct = (case ct of (content, thinking) \<Rightarrow> stage_result_payload content (if thinking = [] then None else Some thinking))"

text \<open>The names of the stages are text, the keys of the payload too.\<close>

definition stages_payload :: "(ustr, stream_result) dict \<Rightarrow> (ustr, json) dict" where
  "stages_payload results =
     (if length results = 1 then map (\<lambda>(name, o'). (name, stage_payload o')) (sr_stages (snd (hd results)))
      else fold (\<lambda>(k, v) d. dset k v d)
             (concat (map (\<lambda>(sid, sr). map (\<lambda>(name, o'). (sid @ lit '':'' @ name, stage_payload o')) (sr_stages sr)) results)) [])"

text \<open>The finalizer hooks and the result store are supplied by the application.  A hook that raises is skipped, and so is a
  store that fails.\<close>

type_synonym finalizer_hook = "(ustr, stream_result) dict \<Rightarrow> placeholder_registry \<Rightarrow> exn + jdict"

definition hooks_ext :: "finalizer_hook list \<Rightarrow> (ustr, stream_result) dict \<Rightarrow> placeholder_registry \<Rightarrow> jdict" where
  "hooks_ext hooks results g =
     fold (\<lambda>hook ext. case hook results g of Inl _ \<Rightarrow> ext | Inr part \<Rightarrow> fold (\<lambda>(k, v). dset k v) part ext) hooks []"

definition manifest_payload ::
  "finalizer_hook list \<Rightarrow> (ustr, stream_result) dict \<Rightarrow> placeholder_registry \<Rightarrow> jdict option \<Rightarrow> jdict" where
  "manifest_payload hooks results g usage =
     make_manifest (stages_payload results) (map (manifest_entry \<circ> snd) (rg_records g)) usage
       (concat (map (sr_errors \<circ> snd) results)) (hooks_ext hooks results g)"

definition manifest_build ::
  "(ustr \<Rightarrow> jdict \<Rightarrow> int \<Rightarrow> ('w, unit) py) \<Rightarrow> int \<Rightarrow> finalizer_hook list \<Rightarrow> (ustr, stream_result) dict \<Rightarrow> placeholder_registry \<Rightarrow>
   jdict option \<Rightarrow> ('w, jdict) py" where
  "manifest_build save ttl hooks results g usage =
     (let manifest = manifest_payload hooks results g usage
      in py_seq (py_for (dkeys results) (\<lambda>sid. py_except (save sid manifest ttl) is_Exception (\<lambda>_. py_return ())))
           (py_return manifest))"

section \<open>Records only advance\<close>

definition advance :: "placeholder_record \<Rightarrow> placeholder_record \<Rightarrow> bool" where
  "advance r r' \<longleftrightarrow> r' = r \<or> ph_state r = PENDING
     \<and> ph_placeholder_id r' = ph_placeholder_id r \<and> ph_loading_url r' = ph_loading_url r
     \<and> (ph_state r' = RESOLVED \<and> ph_url r' \<noteq> None \<or> ph_state r' = FAILED \<and> ph_fallback_url r' = Some (ph_loading_url r))"

definition registry_advance :: "placeholder_registry \<Rightarrow> placeholder_registry \<Rightarrow> bool" where
  "registry_advance g g' \<longleftrightarrow> (\<forall>p. rel_option advance (map_of (rg_records g) p) (map_of (rg_records g') p))"

lemma advance_refl [simp]: "advance r r"
  by (simp add: advance_def)

lemma advance_trans: "advance r r' \<Longrightarrow> advance r' r'' \<Longrightarrow> advance r r''"
  unfolding advance_def by auto

lemma registry_advance_refl [simp]: "registry_advance g g"
  by (simp add: registry_advance_def option.rel_refl)

lemma registry_advance_trans: "registry_advance g g' \<Longrightarrow> registry_advance g' g'' \<Longrightarrow> registry_advance g g''"
proof -
  assume a: "registry_advance g g'" and b: "registry_advance g' g''"
  have t: "rel_option advance x y \<Longrightarrow> rel_option advance y z \<Longrightarrow> rel_option advance x z" for x y z
    by (cases x; cases y; cases z) (auto intro: advance_trans)
  show ?thesis unfolding registry_advance_def
    by (rule allI) (rule t[OF a[unfolded registry_advance_def, rule_format] b[unfolded registry_advance_def, rule_format]])
qed

lemma set_event_records [simp]: "rg_records (set_event pid g) = rg_records g"
  by (simp add: set_event_def)

lemma mark_resolved_advance: "registry_advance g (snd (mark_resolved pid url meta now g))"
  by (auto simp: registry_advance_def mark_resolved_def advance_def dict_simps option.rel_refl Let_def split: option.splits)

lemma mark_failed_records:
  "rg_records (snd (mark_failed pid error (Some u) now g)) =
    (case map_of (rg_records g) pid of
       Some r \<Rightarrow> if ph_state r = PENDING then dset pid (r\<lparr>ph_state := FAILED, ph_error := Some error, ph_fallback_url := Some u, ph_resolved_at := Some now\<rparr>) (rg_records g)
         else rg_records g
     | None \<Rightarrow> rg_records g)"
  by (auto simp: mark_failed_def Let_def split: option.splits)

definition loading_ok :: "enrich_config \<Rightarrow> placeholder_registry \<Rightarrow> bool" where
  "loading_ok cfg g \<longleftrightarrow> (\<forall>p r. map_of (rg_records g) p = Some r \<longrightarrow> ph_loading_url r = ec_loading_url cfg \<and> ph_placeholder_id r = p)"

lemma loading_ok_advance: "loading_ok cfg g \<Longrightarrow> registry_advance g g' \<Longrightarrow> loading_ok cfg g'"
proof -
  assume ok: "loading_ok cfg g" and adv: "registry_advance g g'"
  show ?thesis unfolding loading_ok_def
  proof (intro allI impI)
    fix p r' assume r': "map_of (rg_records g') p = Some r'"
    have "rel_option advance (map_of (rg_records g) p) (Some r')" using adv r' by (metis registry_advance_def)
    then obtain r where "map_of (rg_records g) p = Some r" "advance r r'" by (auto simp: option_rel_Some2)
    with ok show "ph_loading_url r' = ec_loading_url cfg \<and> ph_placeholder_id r' = p" by (auto simp: loading_ok_def advance_def)
  qed
qed

lemma fail_record_advance: "loading_ok cfg (en_registry s) \<Longrightarrow> registry_advance (en_registry s) (en_registry (fail_record cfg pid error now s))"
  by (auto simp: registry_advance_def fail_record_def mark_failed_records advance_def loading_ok_def dict_simps option.rel_refl split: option.splits)

lemma dispatch_outcome_advance:
  "loading_ok cfg (en_registry s) \<Longrightarrow> registry_advance (en_registry s) (en_registry (dispatch_outcome cfg pid outcome now s))"
  by (auto simp: dispatch_outcome_def pop_task_def mark_resolved_advance fail_record_advance Let_def split: enricher_outcome.splits)

lemma emit_resolved_registry [simp]: "en_registry (emit_resolved pid url s) = en_registry s" "en_tasks (emit_resolved pid url s) = en_tasks s"
    "en_settle (emit_resolved pid url s) = en_settle s"
  by (simp_all add: emit_resolved_def split: option.splits)

lemma pop_task_simps [simp]: "en_registry (pop_task pid s) = en_registry s" "en_tasks (pop_task pid s) = ddel pid (en_tasks s)"
    "en_settle (pop_task pid s) = en_settle s" "en_log (pop_task pid s) = en_log s" "en_emitted (pop_task pid s) = en_emitted s"
  by (simp_all add: pop_task_def)

lemma settle_registry [simp]:
  "en_registry (settle_start timeout s) = en_registry s" "en_registry (settle_checked pid rest s) = en_registry s"
  "en_registry (settled_emission pid rest s) = en_registry s"
  by (simp_all add: settle_start_def settle_checked_def settled_emission_def split: option.splits)

lemma fold_fail_advance:
  "loading_ok cfg (en_registry s) \<Longrightarrow> registry_advance (en_registry s) (en_registry (fold (\<lambda>r. fail_record cfg (ph_placeholder_id r) e now) rs s))"
proof (induction rs arbitrary: s)
  case (Cons r rs)
  have a: "registry_advance (en_registry s) (en_registry (fail_record cfg (ph_placeholder_id r) e now s))"
    using Cons.prems by (rule fail_record_advance)
  from Cons.IH[OF loading_ok_advance[OF Cons.prems a]] registry_advance_trans[OF a] show ?case by simp
qed simp

lemma settle_finish_advance: "loading_ok cfg (en_registry s) \<Longrightarrow> registry_advance (en_registry s) (en_registry (settle_finish cfg now s))"
  using fold_fail_advance[of cfg "s\<lparr>en_settle := Settled\<rparr>" settle_message now
      "registry_pending (en_registry s)"]
  by (cases "ec_mode cfg = TASKFLOW") (simp_all add: settle_finish_def)

text \<open>Every step either adds a fresh pending record or advances the records.\<close>

definition registry_grows :: "enrich_config \<Rightarrow> enrich_state \<Rightarrow> enrich_state \<Rightarrow> bool" where
  "registry_grows cfg s s' \<longleftrightarrow> registry_advance (en_registry s) (en_registry s')
     \<or> en_settle s = SettleIdle \<and> en_settle s' = SettleIdle \<and> (\<exists>pid r. map_of (rg_records (en_registry s)) pid = None
         \<and> rg_records (en_registry s') = dset pid r (rg_records (en_registry s))
         \<and> ph_state r = PENDING \<and> ph_placeholder_id r = pid \<and> ph_loading_url r = ec_loading_url cfg \<and> ph_url r = None)"

lemma step_grows: "enrich_step cfg timeout blocking s s' \<Longrightarrow> loading_ok cfg (en_registry s) \<Longrightarrow> registry_grows cfg s s'"
proof (induction rule: enrich_step.induct)
  case (hit s pid sid stage context_text char_offset now)
  then show ?case unfolding registry_grows_def
    by (intro disjI2 conjI exI[of _ pid] exI) (auto simp: enrich_on_hit_def registry_register_def)
qed (auto simp: registry_grows_def dispatch_outcome_advance fail_record_advance settle_finish_advance)

lemma reach_loading_ok: "enrich_reach cfg timeout blocking s \<Longrightarrow> loading_ok cfg (en_registry s)"
proof (induction rule: enrich_reach.induct)
  case (enrich_more s s')
  from step_grows[OF enrich_more(2,3)] show ?case unfolding registry_grows_def
  proof
    assume "registry_advance (en_registry s) (en_registry s')"
    with enrich_more(3) show ?thesis by (rule loading_ok_advance)
  next
    assume "en_settle s = SettleIdle \<and> en_settle s' = SettleIdle \<and> (\<exists>pid r. map_of (rg_records (en_registry s)) pid = None
         \<and> rg_records (en_registry s') = dset pid r (rg_records (en_registry s))
         \<and> ph_state r = PENDING \<and> ph_placeholder_id r = pid \<and> ph_loading_url r = ec_loading_url cfg \<and> ph_url r = None)"
    with enrich_more(3) show ?thesis by (auto simp: loading_ok_def dict_simps split: if_splits)
  qed
qed (simp add: loading_ok_def enrich_init_def)

lemma terminal_kept:
  assumes "registry_grows cfg s s'" "map_of (rg_records (en_registry s)) pid = Some r" "ph_state r \<noteq> PENDING"
  shows "map_of (rg_records (en_registry s')) pid = Some r"
  using assms(1) unfolding registry_grows_def
proof
  assume "registry_advance (en_registry s) (en_registry s')"
  then have "rel_option advance (Some r) (map_of (rg_records (en_registry s')) pid)"
    using assms(2) unfolding registry_advance_def by metis
  with assms(3) show ?thesis by (auto simp: option_rel_Some1 advance_def)
qed (use assms(2) in \<open>auto simp: dict_simps\<close>)

text \<open>The settle window of the local mode leaves nothing pending.\<close>

definition none_pending :: "placeholder_registry \<Rightarrow> bool" where
  "none_pending g \<longleftrightarrow> (\<forall>p r. map_of (rg_records g) p = Some r \<longrightarrow> ph_state r \<noteq> PENDING)"

lemma none_pending_advance: "registry_advance g g' \<Longrightarrow> none_pending g \<Longrightarrow> none_pending g'"
proof -
  assume adv: "registry_advance g g'" and np: "none_pending g"
  show ?thesis unfolding none_pending_def
  proof (intro allI impI)
    fix p r' assume r': "map_of (rg_records g') p = Some r'"
    have "rel_option advance (map_of (rg_records g) p) (Some r')" using adv r' by (metis registry_advance_def)
    then obtain r where "map_of (rg_records g) p = Some r" "advance r r'" by (auto simp: option_rel_Some2)
    with np show "ph_state r' \<noteq> PENDING" by (auto simp: none_pending_def advance_def)
  qed
qed

lemma fail_record_state:
  "map_of (rg_records (en_registry (fail_record cfg pid e now s))) p = Some r \<Longrightarrow> ph_state r = PENDING \<Longrightarrow>
    p \<noteq> pid \<and> map_of (rg_records (en_registry s)) p = Some r"
  by (auto simp: fail_record_def mark_failed_records dict_simps split: option.splits if_splits)

lemma fold_fail_pending:
  "map_of (rg_records (en_registry (fold (\<lambda>r. fail_record cfg (ph_placeholder_id r) e now) rs s))) p = Some r \<Longrightarrow> ph_state r = PENDING \<Longrightarrow>
    p \<notin> set (map ph_placeholder_id rs) \<and> map_of (rg_records (en_registry s)) p = Some r"
proof (induction rs arbitrary: s)
  case (Cons q rs)
  from Cons.IH[of "fail_record cfg (ph_placeholder_id q) e now s"] Cons.prems fail_record_state[where p = p and s = s and r = r]
  show ?case by auto
qed simp

lemma settle_finish_pending:
  assumes "loading_ok cfg (en_registry s)" "ec_mode cfg \<noteq> TASKFLOW"
  shows "none_pending (en_registry (settle_finish cfg now s))"
  unfolding none_pending_def
proof (intro allI impI notI)
  fix p r
  assume a: "map_of (rg_records (en_registry (settle_finish cfg now s))) p = Some r" "ph_state r = PENDING"
  from a assms(2) have "p \<notin> set (map ph_placeholder_id (registry_pending (en_registry s)))" "map_of (rg_records (en_registry s)) p = Some r"
    using fold_fail_pending[of cfg settle_message now "registry_pending (en_registry s)"
        "s\<lparr>en_settle := Settled\<rparr>" p r]
    by (simp_all add: settle_finish_def)
  moreover have "r \<in> set (registry_pending (en_registry s))"
    using map_of_SomeD[OF calculation(2)] a(2) by (force simp: registry_pending_def)
  ultimately show False using assms(1) by (auto simp: loading_ok_def)
qed

lemma settle_phases:
  "en_settle (enrich_on_hit cfg pid sid stage ctx off now s) = en_settle s"
  "en_settle (dispatch_outcome cfg pid outcome now s) = en_settle s" "en_settle (fail_record cfg pid e now s) = en_settle s"
  "en_settle (settle_checked pid rest s) \<noteq> Settled" "en_settle s \<noteq> Settled \<Longrightarrow> en_settle (settled_emission pid rest s) \<noteq> Settled"
  "0 < timeout \<Longrightarrow> en_settle (settle_start timeout s) \<noteq> Settled"
  by (auto simp: enrich_on_hit_def dispatch_outcome_def fail_record_def pop_task_def settle_checked_def settled_emission_def settle_start_def Let_def
      split: enricher_outcome.splits option.splits)

lemma settled_step:
  assumes "enrich_step cfg timeout blocking s s'" "loading_ok cfg (en_registry s)" "0 < timeout" "ec_mode cfg \<noteq> TASKFLOW"
    "en_settle s = Settled \<longrightarrow> none_pending (en_registry s)"
  shows "en_settle s' = Settled \<longrightarrow> none_pending (en_registry s')"
proof (cases "en_settle s = Settled")
  case True
  with step_grows[OF assms(1,2)] have "registry_advance (en_registry s) (en_registry s')" by (auto simp: registry_grows_def)
  with True assms(5) none_pending_advance show ?thesis by blast
next
  case False
  from assms(1) show ?thesis
  proof cases
    case (settle_ends rest now)
    then show ?thesis using settle_finish_pending assms(2,4) by simp
  qed (use False assms(3) settle_phases in \<open>auto simp: emit_resolved_registry\<close>)
qed

lemma reach_settled:
  "enrich_reach cfg timeout blocking s \<Longrightarrow> 0 < timeout \<Longrightarrow> ec_mode cfg \<noteq> TASKFLOW \<Longrightarrow> en_settle s = Settled \<longrightarrow> none_pending (en_registry s)"
proof (induction rule: enrich_reach.induct)
  case (enrich_more s s')
  then show ?case using settled_step reach_loading_ok by blast
qed (simp add: enrich_init_def)

text \<open>Outside the pending state a record has what its state promises.\<close>

definition promises_ok :: "placeholder_registry \<Rightarrow> bool" where
  "promises_ok g \<longleftrightarrow> (\<forall>p r. map_of (rg_records g) p = Some r \<longrightarrow>
     (ph_state r = RESOLVED \<longrightarrow> ph_url r \<noteq> None) \<and> (ph_state r = FAILED \<longrightarrow> ph_fallback_url r = Some (ph_loading_url r)))"

lemma reach_promises: "enrich_reach cfg timeout blocking s \<Longrightarrow> promises_ok (en_registry s)"
proof (induction rule: enrich_reach.induct)
  case (enrich_more s s')
  from step_grows[OF enrich_more(2) reach_loading_ok[OF enrich_more(1)]] show ?case unfolding registry_grows_def
  proof
    assume adv: "registry_advance (en_registry s) (en_registry s')"
    show ?thesis unfolding promises_ok_def
    proof (intro allI impI)
      fix p r' assume r': "map_of (rg_records (en_registry s')) p = Some r'"
      have "rel_option advance (map_of (rg_records (en_registry s)) p) (Some r')" using adv r' by (metis registry_advance_def)
      then obtain r where "map_of (rg_records (en_registry s)) p = Some r" "advance r r'" by (auto simp: option_rel_Some2)
      with enrich_more(3) show "(ph_state r' = RESOLVED \<longrightarrow> ph_url r' \<noteq> None) \<and> (ph_state r' = FAILED \<longrightarrow> ph_fallback_url r' = Some (ph_loading_url r'))"
        by (auto simp: promises_ok_def advance_def)
    qed
  qed (use enrich_more(3) in \<open>auto simp: promises_ok_def dict_simps split: if_splits\<close>)
qed (simp add: promises_ok_def enrich_init_def)

lemma distinct_fail: "distinct (dkeys (rg_records (en_registry s))) \<Longrightarrow> distinct (dkeys (rg_records (en_registry (fail_record cfg pid e now s))))"
  by (auto simp: fail_record_def mark_failed_records distinct_dset split: option.splits)

lemma distinct_fold_fail:
  "distinct (dkeys (rg_records (en_registry s))) \<Longrightarrow>
    distinct (dkeys (rg_records (en_registry (fold (\<lambda>r. fail_record cfg (ph_placeholder_id r) e now) rs s))))"
  by (induction rs arbitrary: s) (simp_all add: distinct_fail del: distinct_map)

lemma distinct_dispatch:
  "distinct (dkeys (rg_records (en_registry s))) \<Longrightarrow> distinct (dkeys (rg_records (en_registry (dispatch_outcome cfg pid outcome now s))))"
proof (cases outcome)
  case (ResultResolved url meta)
  have "distinct (dkeys (rg_records g)) \<Longrightarrow> distinct (dkeys (rg_records (snd (mark_resolved pid url meta now g))))" for g
    by (auto simp: mark_resolved_def distinct_dset Let_def split: option.splits)
  then show "distinct (dkeys (rg_records (en_registry s))) \<Longrightarrow> ?thesis"
    by (simp add: dispatch_outcome_def ResultResolved Let_def)
qed (simp_all add: dispatch_outcome_def distinct_fail)

lemma reach_distinct: "enrich_reach cfg timeout blocking s \<Longrightarrow> distinct (dkeys (rg_records (en_registry s)))"
proof (induction rule: enrich_reach.induct)
  case (enrich_more s s')
  from enrich_more(2) show ?case
  proof cases
    case (settle_ends rest now)
    then show ?thesis using enrich_more(3) distinct_fold_fail[of "s\<lparr>en_settle := Settled\<rparr>" cfg settle_message now "registry_pending (en_registry s)"]
      by (simp add: settle_finish_def del: distinct_map)
  qed (use enrich_more(3) in \<open>simp_all add: distinct_dispatch distinct_fail distinct_dset enrich_on_hit_def registry_register_def del: distinct_map\<close>)
qed (simp add: enrich_init_def)

section \<open>Resolved events\<close>

definition resolved_count :: "ustr \<Rightarrow> jdict queued_item list \<Rightarrow> nat" where
  "resolved_count pid xs =
     length (filter (\<lambda>it. qi_event_type it = ENRICH_RESOLVED \<and> map_of (qi_data it) (lit ''placeholder_id'') = Some (JStr pid)) xs)"

lemma resolved_count_simps [simp]:
  "resolved_count pid [] = 0" "resolved_count pid (xs @ ys) = resolved_count pid xs + resolved_count pid ys"
  "resolved_count pid [resolved_item r url] = (if ph_placeholder_id r = pid then 1 else 0)"
  by (simp_all add: resolved_count_def resolved_item_def new_item_def make_enrich_resolved_def finish_payload_eq)

text \<open>Where no emission suspends, a placeholder whose task still runs has no event, and one that has an event is remembered.\<close>

definition once_inv :: "enrich_state \<Rightarrow> bool" where
  "once_inv s \<longleftrightarrow> (\<forall>pid url. map_of (en_tasks s) pid \<noteq> Some (Emitting url)) \<and> (\<forall>pid rest. en_settle s \<noteq> SettleEmitting pid rest)
     \<and> (\<forall>pid. resolved_count pid (en_log s) \<le> (if pid \<in> en_emitted s then 1 else 0))
     \<and> (\<forall>pid. map_of (en_tasks s) pid = Some Resolving \<longrightarrow> pid \<notin> en_emitted s
          \<and> (\<exists>r. map_of (rg_records (en_registry s)) pid = Some r \<and> ph_state r \<noteq> RESOLVED))
     \<and> (\<forall>pid. pid \<in> en_emitted s \<longrightarrow> map_of (rg_records (en_registry s)) pid \<noteq> None)"

lemma dispatch_other:
  "p \<noteq> pid \<Longrightarrow> map_of (rg_records (en_registry (dispatch_outcome cfg pid outcome now s))) p = map_of (rg_records (en_registry s)) p"
  "p \<noteq> pid \<Longrightarrow> map_of (en_tasks (dispatch_outcome cfg pid outcome now s)) p = map_of (en_tasks s) p"
  "en_log (dispatch_outcome cfg pid outcome now s) = en_log s" "en_emitted (dispatch_outcome cfg pid outcome now s) = en_emitted s"
  by (auto simp: dispatch_outcome_def fail_record_def mark_failed_records mark_resolved_def dict_simps Let_def
      split: enricher_outcome.splits option.splits)

lemma dispatch_known:
  "map_of (rg_records (en_registry (dispatch_outcome cfg pid outcome now s))) p = None \<longleftrightarrow> map_of (rg_records (en_registry s)) p = None"
  by (auto simp: dispatch_outcome_def fail_record_def mark_failed_records mark_resolved_def dict_simps Let_def
      split: enricher_outcome.splits option.splits)

lemma fold_fail_keeps:
  "en_log (fold (\<lambda>r. fail_record cfg (ph_placeholder_id r) e now) rs s) = en_log s"
  "en_emitted (fold (\<lambda>r. fail_record cfg (ph_placeholder_id r) e now) rs s) = en_emitted s"
  "en_tasks (fold (\<lambda>r. fail_record cfg (ph_placeholder_id r) e now) rs s) = en_tasks s"
  "en_settle (fold (\<lambda>r. fail_record cfg (ph_placeholder_id r) e now) rs s) = en_settle s"
  by (induction rs arbitrary: s) (simp_all add: fail_record_def)

lemma fail_record_resolved:
  "map_of (rg_records (en_registry s)) p = Some r \<Longrightarrow> ph_state r \<noteq> RESOLVED \<Longrightarrow>
    \<exists>r'. map_of (rg_records (en_registry (fail_record cfg pid e now s))) p = Some r' \<and> ph_state r' \<noteq> RESOLVED"
  by (auto simp: fail_record_def mark_failed_records dict_simps split: option.splits)

lemma fold_fail_resolved:
  "map_of (rg_records (en_registry s)) p = Some r \<Longrightarrow> ph_state r \<noteq> RESOLVED \<Longrightarrow>
    \<exists>r'. map_of (rg_records (en_registry (fold (\<lambda>r. fail_record cfg (ph_placeholder_id r) e now) rs s))) p = Some r' \<and> ph_state r' \<noteq> RESOLVED"
proof (induction rs arbitrary: s r)
  case (Cons q rs)
  from fail_record_resolved[OF Cons.prems, of cfg "ph_placeholder_id q" e now] Cons.IH show ?case by auto
qed auto

lemma once_emit:
  assumes "once_inv s" "pid \<notin> en_emitted s" "map_of (rg_records (en_registry s)) pid = Some r" "ph_placeholder_id r = pid"
    "map_of (en_tasks s) pid \<noteq> Some Resolving"
  shows "once_inv (emit_resolved pid url s)"
proof -
  have "resolved_count pid (en_log s) = 0" using assms(1,2) by (auto simp: once_inv_def split: if_splits dest: spec[of _ pid])
  with assms show ?thesis by (auto simp: once_inv_def emit_resolved_def split: if_splits)
qed

lemma once_settle: "once_inv s \<Longrightarrow> (\<forall>p rest. ph \<noteq> SettleEmitting p rest) \<Longrightarrow> once_inv (s\<lparr>en_settle := ph\<rparr>)"
  by (simp add: once_inv_def)

lemma once_hit:
  assumes "once_inv s" "map_of (rg_records (en_registry s)) pid = None"
  shows "once_inv (enrich_on_hit cfg pid sid stage context_text char_offset now s)"
proof -
  have c: "resolved_count p [new_item sid ENRICH_MARKER d st, new_item sid ENRICH_PLACEHOLDER d' st'] = 0" for p d d' st st'
    by (simp add: resolved_count_def new_item_def)
  have "pid \<notin> en_emitted s" using assms by (auto simp: once_inv_def)
  with assms c show ?thesis
    by (auto simp: once_inv_def enrich_on_hit_def registry_register_def dict_simps)
qed

lemma once_popped:
  assumes "once_inv s" "map_of (en_tasks s) pid = Some Resolving"
  shows "once_inv (pop_task pid (dispatch_outcome cfg pid outcome now s))"
    "pid \<notin> en_emitted (dispatch_outcome cfg pid outcome now s)"
    "\<exists>r. map_of (rg_records (en_registry (dispatch_outcome cfg pid outcome now s))) pid = Some r"
proof -
  let ?s = "dispatch_outcome cfg pid outcome now s"
  have k: "map_of (rg_records (en_registry s)) pid \<noteq> None" "pid \<notin> en_emitted s" using assms by (auto simp: once_inv_def)
  show "pid \<notin> en_emitted ?s" using k by (simp add: dispatch_other)
  show "\<exists>r. map_of (rg_records (en_registry ?s)) pid = Some r" using k dispatch_known[of cfg pid outcome now s pid] by auto
  show "once_inv (pop_task pid ?s)"
    using assms(1) by (auto simp: once_inv_def dict_simps dispatch_other dispatch_known settle_phases)
qed

lemma ddel_none: "k \<notin> fst ` set d \<Longrightarrow> ddel k d = d"
  by (induction d) auto

lemma once_fold_fail:
  assumes "once_inv s" "loading_ok cfg (en_registry s)"
  shows "once_inv (fold (\<lambda>r. fail_record cfg (ph_placeholder_id r) e now) rs s)"
proof -
  let ?f = "fold (\<lambda>r. fail_record cfg (ph_placeholder_id r) e now) rs s"
  have adv: "registry_advance (en_registry s) (en_registry ?f)" using assms(2) by (rule fold_fail_advance)
  have known: "map_of (rg_records (en_registry ?f)) p = None \<longleftrightarrow> map_of (rg_records (en_registry s)) p = None" for p
    using adv[unfolded registry_advance_def, rule_format, of p]
    by (cases "map_of (rg_records (en_registry s)) p"; cases "map_of (rg_records (en_registry ?f)) p") simp_all
  have "\<exists>r. map_of (rg_records (en_registry ?f)) p = Some r \<and> ph_state r \<noteq> RESOLVED" if task: "map_of (en_tasks s) p = Some Resolving" for p
  proof -
    obtain r where "map_of (rg_records (en_registry s)) p = Some r" "ph_state r \<noteq> RESOLVED"
      using assms(1) task unfolding once_inv_def by blast
    then show ?thesis by (rule fold_fail_resolved)
  qed
  then show ?thesis using assms(1) unfolding once_inv_def fold_fail_keeps known by blast
qed

lemma once_step:
  assumes "enrich_step cfg timeout False s s'" "once_inv s" "loading_ok cfg (en_registry s)"
  shows "once_inv s'"
  using assms(1)
proof cases
  case (hit pid sid stage context_text char_offset now)
  then show ?thesis using once_hit assms(2) by simp
next
  case (outcome_waits pid outcome now)
  let ?s = "dispatch_outcome cfg pid outcome now s"
  have "en_tasks ?s = ddel pid (en_tasks ?s)"
    using outcome_waits(3) by (simp add: map_of_eq_None_iff ddel_none)
  then have "pop_task pid ?s = ?s" by (simp add: pop_task_def)
  with once_popped(1)[OF assms(2) outcome_waits(2)] outcome_waits(1) show ?thesis by metis
next
  case (outcome_emits pid outcome now url)
  let ?s = "dispatch_outcome cfg pid outcome now s"
  note o = once_popped[OF assms(2) outcome_emits(2), of cfg outcome now]
  obtain r where r: "map_of (rg_records (en_registry ?s)) pid = Some r" using o(3) by blast
  have "loading_ok cfg (en_registry ?s)" using loading_ok_advance[OF assms(3) dispatch_outcome_advance[OF assms(3)]] .
  then have "ph_placeholder_id r = pid" using r by (simp add: loading_ok_def)
  then have "once_inv (emit_resolved pid url (pop_task pid ?s))" using once_emit[OF o(1), of pid r] o(2) r by (simp add: dict_simps)
  moreover have "emit_resolved pid url (pop_task pid ?s) = pop_task pid (emit_resolved pid url ?s)"
    by (simp add: emit_resolved_def pop_task_def split: option.splits)
  ultimately show ?thesis using outcome_emits(1) by simp
next
  case (settle_waited pid rest)
  then have "s' = s\<lparr>en_settle := SettleLoop rest\<rparr>" by (auto simp: settle_checked_def split: option.splits if_splits)
  then show ?thesis using assms(2) once_settle by simp
next
  case (settle_emits pid rest)
  then obtain r where r: "map_of (rg_records (en_registry s)) pid = Some r" "ph_state r = RESOLVED" "pid \<notin> en_emitted s"
    by (auto simp: settle_checked_def split: option.splits if_splits)
  have "ph_placeholder_id r = pid" using assms(3) r(1) by (simp add: loading_ok_def)
  moreover have "map_of (en_tasks s) pid \<noteq> Some Resolving" using assms(2) r(1,2) by (auto simp: once_inv_def)
  ultimately have "once_inv (emit_resolved pid (the (ph_url r)) s)" using once_emit assms(2) r by blast
  then show ?thesis using settle_emits(1) r(1) once_settle by (simp add: settled_emission_def)
next
  case (settle_ends rest now)
  have o: "once_inv (s\<lparr>en_settle := Settled\<rparr>)" using assms(2) by (rule once_settle) simp
  have "loading_ok cfg (en_registry (s\<lparr>en_settle := Settled\<rparr>))" using assms(3) by simp
  from once_fold_fail[OF o this, of settle_message now "registry_pending (en_registry s)"] o settle_ends(1) show ?thesis
    by (simp add: settle_finish_def)
qed (use assms(2) in \<open>auto simp: once_inv_def settle_start_def\<close>)

lemma reach_once: "enrich_reach cfg timeout False s \<Longrightarrow> once_inv s"
proof (induction rule: enrich_reach.induct)
  case (enrich_more s s')
  then show ?case using once_step reach_loading_ok by blast
qed (simp add: once_inv_def enrich_init_def)

lemma once_count: "once_inv s \<Longrightarrow> resolved_count pid (en_log s) \<le> 1"
proof -
  assume "once_inv s"
  then have "resolved_count pid (en_log s) \<le> (if pid \<in> en_emitted s then 1 else 0)" by (simp add: once_inv_def)
  then show ?thesis by (simp split: if_splits)
qed

text \<open>A task that still waits for its enricher has not resolved its record, whether emissions suspend or not.\<close>

definition running_inv :: "enrich_state \<Rightarrow> bool" where
  "running_inv s \<longleftrightarrow> (\<forall>pid. map_of (en_tasks s) pid = Some Resolving \<longrightarrow>
     (\<exists>r. map_of (rg_records (en_registry s)) pid = Some r \<and> ph_state r \<noteq> RESOLVED))"

lemma dispatch_ends: "map_of (en_tasks (dispatch_outcome cfg pid outcome now s)) pid \<noteq> Some Resolving"
  by (auto simp: dispatch_outcome_def pop_task_def dict_simps Let_def split: enricher_outcome.splits)

lemma running_dispatch: "running_inv s \<Longrightarrow> running_inv (dispatch_outcome cfg pid outcome now s)"
  unfolding running_inv_def by (metis dispatch_ends dispatch_other(1,2))

lemma running_pop: "running_inv s \<Longrightarrow> running_inv (pop_task pid s)"
  by (auto simp: running_inv_def dict_simps)

lemma running_fail: "running_inv s \<Longrightarrow> running_inv (fail_record cfg pid e now s)"
  unfolding running_inv_def using fail_record_resolved by (auto simp: fail_record_def)

lemma running_fold_fail: "running_inv s \<Longrightarrow> running_inv (fold (\<lambda>r. fail_record cfg (ph_placeholder_id r) e now) rs s)"
  by (induction rs arbitrary: s) (simp_all add: running_fail)

lemma running_same: "running_inv s \<Longrightarrow> en_registry s' = en_registry s \<Longrightarrow> en_tasks s' = en_tasks s \<Longrightarrow> running_inv s'"
  by (simp add: running_inv_def)

lemma settle_tasks:
  "en_tasks (settle_start timeout s) = en_tasks s" "en_tasks (settle_checked pid rest s) = en_tasks s"
  "en_tasks (settled_emission pid rest s) = en_tasks s"
  by (simp_all add: settle_start_def settle_checked_def settled_emission_def split: option.splits)

lemma reach_running: "enrich_reach cfg timeout blocking s \<Longrightarrow> running_inv s"
proof (induction rule: enrich_reach.induct)
  case enrich_start
  then show ?case by (simp add: running_inv_def enrich_init_def)
next
  case (enrich_more s s')
  from enrich_more(2) show ?case
  proof cases
    case (hit pid sid stage context_text char_offset now)
    then show ?thesis using enrich_more(3) by (auto simp: running_inv_def enrich_on_hit_def registry_register_def dict_simps)
  next
    case (settle_ends rest now)
    then show ?thesis
      using running_fold_fail[of "s\<lparr>en_settle := Settled\<rparr>" cfg settle_message now "registry_pending (en_registry s)"] enrich_more(3)
      by (simp add: settle_finish_def running_inv_def)
  qed (use enrich_more(3) in \<open>auto intro!: running_pop running_fail running_dispatch intro: running_same simp: settle_tasks running_same[OF running_dispatch]\<close>)
qed

section \<open>Properties\<close>

text \<open>C32. The local mode's manifest is final.  Once the settle window has closed with a positive timeout and without a task-flow backend,
  in every interleaving of markers, enricher outcomes and the window itself, each placeholder of the manifest is either resolved with
  its address or failed with the loading image as fallback; none is pending.\<close>

theorem local_manifest_is_final:
  assumes "enrich_reach cfg timeout blocking s" "0 < timeout" "ec_mode cfg \<noteq> TASKFLOW" "en_settle s = Settled"
    and "p \<in> set (map (manifest_entry \<circ> snd) (rg_records (en_registry s)))"
  shows "mp_state p = RESOLVED \<and> mp_url p \<noteq> None \<or> mp_state p = FAILED \<and> mp_url p = None \<and> mp_fallback_url p = Some (ec_loading_url cfg)"
proof -
  obtain k r where p: "(k, r) \<in> set (rg_records (en_registry s))" "p = manifest_entry r" using assms(5) by auto
  have m: "map_of (rg_records (en_registry s)) k = Some r" using reach_distinct[OF assms(1)] p(1) by simp
  have "ph_state r \<noteq> PENDING" using reach_settled[OF assms(1-3)] assms(4) m by (auto simp: none_pending_def)
  moreover have "ph_loading_url r = ec_loading_url cfg" using reach_loading_ok[OF assms(1)] m by (simp add: loading_ok_def)
  moreover have "(ph_state r = RESOLVED \<longrightarrow> ph_url r \<noteq> None) \<and> (ph_state r = FAILED \<longrightarrow> ph_fallback_url r = Some (ph_loading_url r))"
    using reach_promises[OF assms(1)] m by (simp add: promises_ok_def)
  ultimately show ?thesis by (cases "ph_state r") (auto simp: p(2) manifest_entry_def)
qed

definition demo_enrich :: enrich_config where
  "demo_enrich = \<lparr>ec_mode = LOCAL, ec_eager = True, ec_loading_url = lit ''loading''\<rparr>"

definition demo_hit :: enrich_state where
  "demo_hit = enrich_on_hit demo_enrich (lit ''p'') (lit ''s'') (lit ''main'') (lit ''cat'') 3 0 enrich_init"

definition demo_settled :: enrich_state where
  "demo_settled = settle_finish demo_enrich 9 (settle_start 5 demo_hit)"

lemma demo_hit_reach: "enrich_reach demo_enrich timeout blocking demo_hit"
  unfolding demo_hit_def by (rule enrich_more[OF enrich_start hit]) (simp_all add: enrich_init_def)

lemmas demo_enrich_defs = demo_hit_def demo_settled_def enrich_on_hit_def registry_register_def demo_enrich_def enrich_init_def settle_start_def
  settle_finish_def fail_record_def mark_failed_def mark_resolved_def set_event_def registry_pending_def Let_def

lemma demo_settled_reach: "enrich_reach demo_enrich 5 blocking demo_settled"
proof -
  have s: "en_settle (settle_start 5 demo_hit) = SettleLoop [lit ''p'']" by (simp add: demo_enrich_defs)
  have "enrich_reach demo_enrich 5 blocking (settle_start 5 demo_hit)"
    by (rule enrich_more[OF demo_hit_reach settle_opens]) (simp add: demo_enrich_defs)
  from enrich_more[OF this settle_ends[OF s]] show ?thesis by (simp add: demo_settled_def)
qed

theorem local_manifest_is_final_witness:
  "\<exists>p. p \<in> set (map (manifest_entry \<circ> snd) (rg_records (en_registry demo_settled))) \<and> mp_fallback_url p = Some (lit ''loading'')"
proof -
  let ?p = "manifest_entry (snd (hd (rg_records (en_registry demo_settled))))"
  have p: "?p \<in> set (map (manifest_entry \<circ> snd) (rg_records (en_registry demo_settled)))" by (simp add: demo_enrich_defs)
  have "mp_url ?p = None" "en_settle demo_settled = Settled" "ec_mode demo_enrich \<noteq> TASKFLOW" "ec_loading_url demo_enrich = lit ''loading''"
    by (simp_all add: demo_enrich_defs manifest_entry_def)
  with local_manifest_is_final[OF demo_settled_reach _ _ _ p] have "mp_fallback_url ?p = Some (lit ''loading'')" by auto
  with p show ?thesis by blast
qed

text \<open>C33. A placeholder's terminal record never changes, and where the queue never fills at most one resolved event is emitted for it: whatever
  the other tasks do afterwards, a resolved or failed record stays as it is; and with no suspended emission no placeholder is announced twice.\<close>

theorem placeholder_settles_once:
  assumes "enrich_reach cfg timeout blocking s" "rtranclp (enrich_step cfg timeout blocking) s s'"
    and "map_of (rg_records (en_registry s)) pid = Some r" "ph_state r \<noteq> PENDING"
  shows "map_of (rg_records (en_registry s')) pid = Some r \<and> (\<not> blocking \<longrightarrow> resolved_count pid (en_log s') \<le> 1)"
  using assms(2)
proof (induction rule: rtranclp_induct)
  case base
  have "resolved_count pid (en_log s) \<le> 1" if "\<not> blocking"
    using once_count[OF reach_once] assms(1) that by simp
  with assms(3) show ?case by blast
next
  case (step t u)
  have rt: "enrich_reach cfg timeout blocking t" using step(1) assms(1) by (induction rule: rtranclp_induct) (auto intro: enrich_more)
  have "map_of (rg_records (en_registry u)) pid = Some r"
    using terminal_kept[OF step_grows[OF step(2) reach_loading_ok[OF rt]]] step(3) assms(4) by blast
  moreover have "resolved_count pid (en_log u) \<le> 1" if "\<not> blocking"
    using once_count[OF reach_once] enrich_more[OF rt step(2)] that by simp
  ultimately show ?case by blast
qed

theorem placeholder_settles_once_witness:
  "map_of (rg_records (en_registry demo_settled)) (lit ''p'') = Some (snd (hd (rg_records (en_registry demo_settled))))
    \<and> resolved_count (lit ''p'') (en_log demo_settled) \<le> 1"
proof -
  have r: "map_of (rg_records (en_registry demo_settled)) (lit ''p'') = Some (snd (hd (rg_records (en_registry demo_settled))))"
    "ph_state (snd (hd (rg_records (en_registry demo_settled)))) \<noteq> PENDING" by (simp_all add: demo_enrich_defs)
  from placeholder_settles_once[OF demo_settled_reach[of False] rtranclp.rtrancl_refl r] show ?thesis by simp
qed

text \<open>C34. A late result contradicts the manifest.  With eager emission and without a task-flow backend, whenever a dispatch task is still
  waiting for its enricher when the settle window (of positive length) has closed, and the enricher then answers with an address:
  the record stays failed, so the manifest built from the registry says failed without an address before and after the answer, and
  yet the task hands the multiplexer an event that announces the placeholder as resolved with that address.\<close>

theorem late_result_contradicts_manifest:
  assumes "enrich_reach cfg timeout blocking s" "0 < timeout" "ec_mode cfg \<noteq> TASKFLOW" "ec_eager cfg" "en_settle s = Settled"
    and "map_of (en_tasks s) pid = Some Resolving" "url \<noteq> []"
  shows "\<exists>r s'. enrich_step cfg timeout blocking s s'
    \<and> s' = pop_task pid (emit_resolved pid url (dispatch_outcome cfg pid (ResultResolved url meta) now s))
    \<and> rg_records (en_registry s') = rg_records (en_registry s) \<and> map_of (rg_records (en_registry s')) pid = Some r
    \<and> mp_state (manifest_entry r) = FAILED \<and> mp_url (manifest_entry r) = None
    \<and> en_log s' = en_log s @ [resolved_item r url] \<and> resolved_count pid (en_log s') = Suc (resolved_count pid (en_log s))"
proof -
  obtain r where r: "map_of (rg_records (en_registry s)) pid = Some r" "ph_state r \<noteq> RESOLVED"
    using reach_running[OF assms(1)] assms(6) by (auto simp: running_inv_def)
  then have st: "ph_state r = FAILED"
    using reach_settled[OF assms(1-3)] assms(5) by (cases "ph_state r") (auto simp: none_pending_def)
  have pid: "ph_placeholder_id r = pid" using reach_loading_ok[OF assms(1)] r(1) by (simp add: loading_ok_def)
  let ?o = "dispatch_outcome cfg pid (ResultResolved url meta) now s"
  have o: "?o = s\<lparr>en_tasks := dset pid (Emitting url) (en_tasks s)\<rparr>"
    using assms(4,7) r(1) st by (simp add: dispatch_outcome_def mark_resolved_def)
  have step: "enrich_step cfg timeout blocking s (pop_task pid (emit_resolved pid url ?o))"
    by (rule outcome_emits[OF assms(6)]) (simp add: o dict_simps)
  show ?thesis
    by (rule exI[of _ r], rule exI[of _ "pop_task pid (emit_resolved pid url ?o)"])
      (use step r(1) st pid in \<open>simp add: o emit_resolved_def manifest_entry_def\<close>)
qed

theorem late_result_contradicts_manifest_witness:
  "\<exists>r s'. enrich_step demo_enrich 5 False demo_settled s'
    \<and> s' = pop_task (lit ''p'') (emit_resolved (lit ''p'') (lit ''u'') (dispatch_outcome demo_enrich (lit ''p'') (ResultResolved (lit ''u'') []) 10 demo_settled))
    \<and> rg_records (en_registry s') = rg_records (en_registry demo_settled) \<and> map_of (rg_records (en_registry s')) (lit ''p'') = Some r
    \<and> mp_state (manifest_entry r) = FAILED \<and> mp_url (manifest_entry r) = None
    \<and> en_log s' = en_log demo_settled @ [resolved_item r (lit ''u'')]
    \<and> resolved_count (lit ''p'') (en_log s') = Suc (resolved_count (lit ''p'') (en_log demo_settled))"
proof -
  have "map_of (en_tasks demo_settled) (lit ''p'') = Some Resolving" "lit ''u'' \<noteq> []" "ec_mode demo_enrich \<noteq> TASKFLOW" "ec_eager demo_enrich"
    "en_settle demo_settled = Settled" "(0 :: real) < 5"
    by (simp_all add: demo_enrich_defs lit_def)
  from late_result_contradicts_manifest[OF demo_settled_reach this(6,3-5,1,2), where blocking = False and meta = "[]" and now = 10]
  show ?thesis .
qed

text \<open>With a full queue the eager event and the settle window can both announce the same placeholder.\<close>

theorem resolved_event_can_repeat:
  "\<exists>s. enrich_reach demo_enrich 5 True s \<and> resolved_count (lit ''p'') (en_log s) = 2"
proof -
  let ?p = "lit ''p''"
  let ?s1 = "settle_start 5 demo_hit"
  let ?s2 = "dispatch_outcome demo_enrich ?p (ResultResolved (lit ''u'') []) 1 ?s1"
  let ?s3 = "settle_checked ?p [] ?s2"
  let ?s4 = "settled_emission ?p [] ?s3"
  let ?s5 = "pop_task ?p (emit_resolved ?p (lit ''u'') ?s4)"
  note defs = demo_enrich_defs dispatch_outcome_def settle_checked_def settled_emission_def emit_resolved_def lit_def
  have "enrich_reach demo_enrich 5 True ?s1"
    by (rule enrich_more[OF demo_hit_reach settle_opens]) (simp add: demo_enrich_defs)
  then have "enrich_reach demo_enrich 5 True ?s2"
    by (rule enrich_more) (rule outcome_waits, simp_all add: demo_enrich_defs)
  then have "enrich_reach demo_enrich 5 True ?s3"
    by (rule enrich_more) (rule settle_waited, simp_all add: demo_enrich_defs dispatch_outcome_def)
  then have "enrich_reach demo_enrich 5 True ?s4"
    by (rule enrich_more) (rule settle_resumes, simp add: defs)
  then have "enrich_reach demo_enrich 5 True ?s5"
    by (rule enrich_more) (rule emit_resumes, simp add: defs)
  moreover have "resolved_count ?p (en_log ?s5) = 2"
    by (simp add: defs) (simp add: resolved_count_def resolved_item_def new_item_def make_enrich_resolved_def finish_payload_eq lit_def)
  ultimately show ?thesis by blast
qed

text \<open>A settle window of length zero returns before the local mode fails what is pending.\<close>

theorem zero_timeout_leaves_pending:
  "\<exists>s p. enrich_reach demo_enrich 0 False s \<and> en_settle s = Settled \<and> p \<in> set (map (manifest_entry \<circ> snd) (rg_records (en_registry s)))
    \<and> mp_state p = PENDING"
proof -
  have "enrich_reach demo_enrich 0 False (settle_start 0 demo_hit)"
    by (rule enrich_more[OF demo_hit_reach settle_opens]) (simp add: demo_enrich_defs)
  then show ?thesis by (intro exI[of _ "settle_start 0 demo_hit"]) (simp add: demo_enrich_defs manifest_entry_def)
qed

end
