(* ===== verification/Snapshot.thy ===== *)
theory Snapshot
  imports Redis_Service "HOL-Library.Product_Lexorder" "HOL-Library.List_Lexorder" "HOL-Library.Char_ord"
begin

text \<open>
  The snapshot domain of the protocol package: the record \<^verbatim>\<open>TaskSnapshot\<close>, the mechanism tables and
  \<^verbatim>\<open>fold_snapshot_rows\<close>, and the in-memory adapter part that implements the writer and the reader.

  Serialisation is pydantic's: \<^verbatim>\<open>model_dump\<close> and \<^verbatim>\<open>model_validate\<close> are the fields of a parameter, and
  the locale \<^verbatim>\<open>pydantic_model\<close> states what the code relies on.  A payload is a dictionary of field values;
  an instant is an integer number of microseconds, and its JSON form is the text \<^verbatim>\<open>stamp t\<close>.
\<close>

section \<open>Models\<close>

type_synonym instant = int

record task_pointer =
  tp_backend :: string
  tp_key :: string
  tp_metadata :: "jdict option"

record task_snapshot =
  sn_task_id :: string
  sn_step :: string
  sn_execution_id :: string
  sn_parent_task_id :: "string option"
  sn_status :: string
  sn_input_pointer :: "task_pointer option"
  sn_output_pointer :: "task_pointer option"
  sn_error :: "string option"
  sn_cost :: "(string, real) dict option"
  sn_model :: "string option"
  sn_created_at :: instant
  sn_updated_at :: instant
  sn_expire_at :: "instant option"

text \<open>The value of a field in a payload.  A nested pointer stands for the dictionary it serialises to.\<close>

datatype sval = VNull | VStr string | VTime instant | VPointer task_pointer | VCost "(string, real) dict"

type_synonym payload = "(string, sval) dict"

definition opt_val :: "('a \<Rightarrow> sval) \<Rightarrow> 'a option \<Rightarrow> sval" where
  "opt_val f x = (case x of None \<Rightarrow> VNull | Some y \<Rightarrow> f y)"

definition snap_fields :: "task_snapshot \<Rightarrow> payload" where
  "snap_fields s =
     [(''task_id'', VStr (sn_task_id s)), (''step'', VStr (sn_step s)), (''execution_id'', VStr (sn_execution_id s)),
      (''parent_task_id'', opt_val VStr (sn_parent_task_id s)), (''status'', VStr (sn_status s)),
      (''input_pointer'', opt_val VPointer (sn_input_pointer s)), (''output_pointer'', opt_val VPointer (sn_output_pointer s)),
      (''error'', opt_val VStr (sn_error s)), (''cost'', opt_val VCost (sn_cost s)), (''model'', opt_val VStr (sn_model s)),
      (''created_at'', VTime (sn_created_at s)), (''updated_at'', VTime (sn_updated_at s)),
      (''expire_at'', opt_val VTime (sn_expire_at s))]"

type_synonym snap_key = "string \<times> string \<times> string"

definition key_of :: "task_snapshot \<Rightarrow> snap_key" where
  "key_of s = (sn_task_id s, sn_step s, sn_execution_id s)"

record pydantic =
  pd_dump :: "bool \<Rightarrow> bool \<Rightarrow> task_snapshot \<Rightarrow> payload" \<comment> \<open>\<^verbatim>\<open>model_dump(exclude_none, mode="json")\<close>\<close>
  pd_validate :: "payload \<Rightarrow> exn + task_snapshot" \<comment> \<open>\<^verbatim>\<open>TaskSnapshot.model_validate\<close>\<close>

definition model_dump :: "pydantic \<Rightarrow> task_snapshot \<Rightarrow> payload" where
  "model_dump P s = pd_dump P False False s"

definition snap_to_payload :: "pydantic \<Rightarrow> task_snapshot \<Rightarrow> payload" where
  "snap_to_payload P s = pd_dump P True True s"

section \<open>Mechanism tables\<close>

definition SORT_FIELDS :: "(string, string list) dict" where
  "SORT_FIELDS = [(''audit'', [''created_at'', ''event_id'']), (''snapshot'', [''created_at'', ''updated_at'', ''expire_at''])]"

definition GROUP_BY_FIELDS :: "(string, string list) dict" where
  "GROUP_BY_FIELDS = [(''snapshot'', [''status'', ''model''])]"

definition IDEMPOTENCY_EXCLUDED_FIELDS :: "string list" where
  "IDEMPOTENCY_EXCLUDED_FIELDS = [''created_at'', ''updated_at'', ''registered_at'']"

definition SNAPSHOT_MERGE_FIELDS :: "string list" where
  "SNAPSHOT_MERGE_FIELDS = [''parent_task_id'', ''input_pointer'', ''output_pointer'', ''error'', ''cost'', ''model'', ''expire_at'']"

text \<open>Equality of two Python dictionaries: the same keys with equal values, in any order.  It is recursive: the values may be
  dictionaries again, and a truth value equals the number it stands for.\<close>

definition dict_eq :: "('v \<Rightarrow> 'w \<Rightarrow> bool) \<Rightarrow> ('k, 'v) dict \<Rightarrow> ('k, 'w) dict \<Rightarrow> bool" where
  "dict_eq veq a b \<longleftrightarrow> list_all (\<lambda>k. rel_option veq (map_of a k) (map_of b k)) (dkeys a @ dkeys b)"

lemma dict_eq_iff: "dict_eq veq a b \<longleftrightarrow> (\<forall>k. rel_option veq (map_of a k) (map_of b k))"
proof
  assume a: "dict_eq veq a b"
  show "\<forall>k. rel_option veq (map_of a k) (map_of b k)"
  proof
    fix k show "rel_option veq (map_of a k) (map_of b k)"
    proof (cases "k \<in> set (dkeys a @ dkeys b)")
      case False
      then have "map_of a k = None" "map_of b k = None" by (simp_all add: map_of_eq_None_iff)
      then show ?thesis by simp
    qed (use a in \<open>simp add: dict_eq_def list_all_iff\<close>)
  qed
qed (simp add: dict_eq_def list_all_iff)

lemma dict_eq_cong [fundef_cong]:
  assumes "a = a'" "b = b'" "\<And>k v w. (k, v) \<in> set a' \<Longrightarrow> (k, w) \<in> set b' \<Longrightarrow> f v w = g v w"
  shows "dict_eq f a b = dict_eq g a' b'"
proof -
  have "rel_option f (map_of a' k) (map_of b' k) = rel_option g (map_of a' k) (map_of b' k)" for k
    using assms(3)[of k] by (cases "map_of a' k"; cases "map_of b' k") (auto dest: map_of_SomeD)
  then show ?thesis by (simp add: assms(1,2) dict_eq_iff)
qed

fun json_eq :: "json \<Rightarrow> json \<Rightarrow> bool" where
  "json_eq JNull JNull = True"
| "json_eq (JBool a) (JBool b) = (a = b)"
| "json_eq (JBool a) (JNum y) = (y = of_bool a)"
| "json_eq (JNum x) (JBool b) = (x = of_bool b)"
| "json_eq (JNum x) (JNum y) = (x = y)"
| "json_eq (JStr a) (JStr b) = (a = b)"
| "json_eq (JArr xs) (JArr ys) = list_all2 json_eq xs ys"
| "json_eq (JObj a) (JObj b) = dict_eq json_eq a b"
| "json_eq _ _ = False"

definition pointer_eq :: "task_pointer \<Rightarrow> task_pointer \<Rightarrow> bool" where
  "pointer_eq a b \<longleftrightarrow> tp_backend a = tp_backend b \<and> tp_key a = tp_key b
     \<and> rel_option (dict_eq json_eq) (tp_metadata a) (tp_metadata b)"

fun sval_eq :: "sval \<Rightarrow> sval \<Rightarrow> bool" where
  "sval_eq VNull VNull = True"
| "sval_eq (VStr a) (VStr b) = (a = b)"
| "sval_eq (VTime a) (VTime b) = (a = b)"
| "sval_eq (VPointer a) (VPointer b) = pointer_eq a b"
| "sval_eq (VCost a) (VCost b) = dict_eq (=) a b"
| "sval_eq _ _ = False"

definition idempotent_payload_equal :: "payload \<Rightarrow> payload \<Rightarrow> bool" where
  "idempotent_payload_equal a b =
     (let strip_clocks = filter (\<lambda>(k, v). k \<notin> set IDEMPOTENCY_EXCLUDED_FIELDS)
      in dict_eq sval_eq (strip_clocks a) (strip_clocks b))"

definition merge_field :: "payload \<Rightarrow> string \<Rightarrow> payload \<Rightarrow> payload" where
  "merge_field row field rec =
     (case map_of row field of None \<Rightarrow> rec | Some v \<Rightarrow> if v = VNull then rec else dset field v rec)"

text \<open>One row into an existing record; the iteration order over the merge fields is not observable.\<close>

definition merge_row :: "payload \<Rightarrow> payload \<Rightarrow> payload" where
  "merge_row rec row =
     (let rec = fold (merge_field row) SNAPSHOT_MERGE_FIELDS rec;
          rec = (case map_of row ''status'' of
                   None \<Rightarrow> rec | Some v \<Rightarrow> if v = VNull \<or> v = VStr '''' then rec else dset ''status'' v rec)
      in merge_field row ''updated_at'' rec)"

fun fold_rows :: "payload option \<Rightarrow> payload list \<Rightarrow> payload option" where
  "fold_rows rec [] = rec"
| "fold_rows None (row # rows) = fold_rows (Some (filter (\<lambda>(k, v). v \<noteq> VNull) row)) rows"
| "fold_rows (Some rec) (row # rows) = fold_rows (Some (merge_row rec row)) rows"

definition fold_snapshot_rows :: "payload list \<Rightarrow> payload option" where
  "fold_snapshot_rows rows = fold_rows None rows"

section \<open>The in-memory part: writer\<close>

record mem_snaps =
  ms_snaps :: "(snap_key, task_snapshot) dict"
  ms_terminal :: "snap_key set"

definition mem_snaps_init :: mem_snaps where
  "mem_snaps_init = \<lparr>ms_snaps = [], ms_terminal = {}\<rparr>"

definition mem_put :: "snap_key \<Rightarrow> task_snapshot \<Rightarrow> (mem_snaps, unit) py" where
  "mem_put key s = py_modify (\<lambda>m. m\<lparr>ms_snaps := dset key s (ms_snaps m)\<rparr>)"

definition mem_save :: "pydantic \<Rightarrow> task_snapshot \<Rightarrow> (mem_snaps, unit) py" where
  "mem_save P s =
     (let key = key_of s
      in py_bind (py_get (\<lambda>m. (map_of (ms_snaps m) key, key \<in> ms_terminal m))) (\<lambda>(existing, terminal).
        case existing of
          None \<Rightarrow> mem_put key s
        | Some x \<Rightarrow>
            if terminal \<and> sn_status s \<noteq> '''' \<and> sn_status s \<noteq> sn_status x then py_raise TerminalStateViolation
            else case fold_snapshot_rows [model_dump P x, model_dump P s] of
                   None \<Rightarrow> py_raise ValueErr
                 | Some rec \<Rightarrow>
                     (case pd_validate P rec of Inl e \<Rightarrow> py_raise e | Inr y \<Rightarrow> mem_put key y)))"

definition mem_save_terminal :: "pydantic \<Rightarrow> task_snapshot \<Rightarrow> (mem_snaps, unit) py" where
  "mem_save_terminal P s =
     (let key = key_of s
      in py_bind (py_get (\<lambda>m. (map_of (ms_snaps m) key, key \<in> ms_terminal m))) (\<lambda>(existing, terminal).
        case (existing, terminal) of
          (Some x, True) \<Rightarrow>
            if \<not> idempotent_payload_equal (model_dump P x) (model_dump P s) then py_raise TerminalStateViolation
            else py_return ()
        | _ \<Rightarrow> py_seq (mem_put key s) (py_modify (\<lambda>m. m\<lparr>ms_terminal := insert key (ms_terminal m)\<rparr>))))"

section \<open>The in-memory part: reader\<close>

record page =
  pg_limit :: nat
  pg_offset :: nat

record sort_spec =
  so_field :: string
  so_desc :: bool

record time_range =
  tr_start :: "instant option"
  tr_end :: "instant option"

definition page_default :: page where
  "page_default = \<lparr>pg_limit = 100, pg_offset = 0\<rparr>"

definition sort_default :: sort_spec where
  "sort_default = \<lparr>so_field = ''created_at'', so_desc = True\<rparr>"

definition page_slice :: "page option \<Rightarrow> 'a list \<Rightarrow> 'a list" where
  "page_slice page xs =
     (let p = (case page of None \<Rightarrow> page_default | Some p \<Rightarrow> p) in take (pg_limit p) (drop (pg_offset p) xs))"

text \<open>\<^verbatim>\<open>list.sort(key=..., reverse=...)\<close> is stable in both directions.\<close>

definition py_sort :: "('a \<Rightarrow> 'k::linorder) \<Rightarrow> bool \<Rightarrow> 'a list \<Rightarrow> 'a list" where
  "py_sort key reverse xs = (if reverse then rev (sort_key key (rev xs)) else sort_key key xs)"

definition validate_sort :: "sort_spec option \<Rightarrow> exn + sort_spec" where
  "validate_sort sorting =
     (let so = (case sorting of None \<Rightarrow> sort_default | Some so \<Rightarrow> so)
      in if so_field so \<in> set (dget SORT_FIELDS ''snapshot'' []) then Inr so else Inl InvalidQuery)"

text \<open>\<^verbatim>\<open>datetime.max\<close>, in microseconds from the epoch.\<close>

definition datetime_max :: instant where
  "datetime_max = 253402300799999999"

text \<open>The sort key; the keys of the fields that are never absent carry a constant first component.\<close>

definition mem_sort_key :: "string \<Rightarrow> task_snapshot \<Rightarrow> bool \<times> instant" where
  "mem_sort_key field s =
     (if field = ''expire_at'' then (sn_expire_at s = None, case sn_expire_at s of None \<Rightarrow> datetime_max | Some t \<Rightarrow> t)
      else (False, if field = ''updated_at'' then sn_updated_at s else sn_created_at s))"

definition mem_alive :: "instant \<Rightarrow> task_snapshot \<Rightarrow> bool" where
  "mem_alive now s = (case sn_expire_at s of None \<Rightarrow> True | Some t \<Rightarrow> now < t)"

definition mem_get :: "instant \<Rightarrow> mem_snaps \<Rightarrow> string \<Rightarrow> string \<Rightarrow> string option \<Rightarrow> task_snapshot option" where
  "mem_get now m tid stp eid =
     (let rows = [s. ((t, st, e), s) \<leftarrow> ms_snaps m, t = tid \<and> st = stp \<and> (eid = None \<or> eid = Some e) \<and> mem_alive now s]
      in if rows = [] then None else Some (last (py_sort sn_created_at False rows)))"

definition mem_list_versions ::
  "instant \<Rightarrow> mem_snaps \<Rightarrow> string \<Rightarrow> string \<Rightarrow> page option \<Rightarrow> sort_spec option \<Rightarrow> exn + task_snapshot list" where
  "mem_list_versions now m tid stp page sorting =
     (let rows = [s. ((t, st, e), s) \<leftarrow> ms_snaps m, t = tid \<and> st = stp \<and> mem_alive now s]
      in case validate_sort sorting of
           Inl e \<Rightarrow> Inl e
         | Inr so \<Rightarrow> Inr (page_slice page (py_sort (mem_sort_key (so_field so)) (so_desc so) rows)))"

text \<open>The three traversals are the same code in both adapter parts, over records in one and over payloads in
  the other; they take the accessors as arguments.\<close>

definition keep_latest :: "('a \<Rightarrow> 'k) \<Rightarrow> ('a \<Rightarrow> 'c::linorder) \<Rightarrow> 'a \<Rightarrow> ('k, 'a) dict \<Rightarrow> ('k, 'a) dict" where
  "keep_latest key created s latest =
     (case map_of latest (key s) of
        None \<Rightarrow> dset (key s) s latest
      | Some cur \<Rightarrow> if created cur \<le> created s then dset (key s) s latest else latest)"

definition latest_per_node :: "('a \<Rightarrow> 'k) \<Rightarrow> ('a \<Rightarrow> 'c::linorder) \<Rightarrow> 'a list \<Rightarrow> 'a list" where
  "latest_per_node node created xs = map snd (fold (keep_latest node created) xs [])"

definition MAX_TRAVERSAL_DEPTH :: nat where
  "MAX_TRAVERSAL_DEPTH = 32"

definition children_in :: "('a \<Rightarrow> string) \<Rightarrow> ('a \<Rightarrow> string option) \<Rightarrow> 'a list \<Rightarrow> string \<Rightarrow> string list" where
  "children_in tid parent alive t = map tid (filter (\<lambda>s. parent s = Some t) alive)"

function walks :: "('a \<Rightarrow> string) \<Rightarrow> ('a \<Rightarrow> string option) \<Rightarrow> 'a list \<Rightarrow> int \<Rightarrow> string list \<Rightarrow> int \<Rightarrow>
    string list \<times> 'a list \<Rightarrow> string list \<times> 'a list" where
  "walks tid parent alive limit [] depth st = st"
| "walks tid parent alive limit (t # ts) depth st =
     walks tid parent alive limit ts depth
       (if depth > limit \<or> t \<in> set (fst st) then st
        else walks tid parent alive limit (children_in tid parent alive t) (depth + 1)
               (fst st @ [t], snd st @ filter (\<lambda>s. tid s = t) alive))"
  by pat_completeness auto
termination
  by (relation "measures [\<lambda>(tid, parent, alive, limit, ts, depth, st). nat (limit + 1 - depth),
        \<lambda>(tid, parent, alive, limit, ts, depth, st). length ts]") auto

definition tree_rows :: "('a \<Rightarrow> string) \<Rightarrow> ('a \<Rightarrow> string option) \<Rightarrow> 'a list \<Rightarrow> string \<Rightarrow> int option \<Rightarrow> 'a list" where
  "tree_rows tid parent alive start max_depth =
     (let limit = (case max_depth of None \<Rightarrow> int MAX_TRAVERSAL_DEPTH | Some d \<Rightarrow> d)
      in snd (walks tid parent alive limit [start] 0 ([], [])))"

definition mem_get_tree :: "instant \<Rightarrow> mem_snaps \<Rightarrow> string \<Rightarrow> int option \<Rightarrow> bool \<Rightarrow> task_snapshot list" where
  "mem_get_tree now m start max_depth latest_only =
     (let alive = filter (mem_alive now) (map snd (ms_snaps m));
          out = tree_rows sn_task_id sn_parent_task_id alive start max_depth
      in if latest_only then latest_per_node (\<lambda>s. (sn_task_id s, sn_step s)) sn_created_at out else out)"

definition mem_list_children :: "instant \<Rightarrow> mem_snaps \<Rightarrow> string \<Rightarrow> bool \<Rightarrow> task_snapshot list" where
  "mem_list_children now m pid latest_only =
     (let rows = filter (\<lambda>s. sn_parent_task_id s = Some pid \<and> mem_alive now s) (map snd (ms_snaps m))
      in if latest_only then latest_per_node (\<lambda>s. (sn_task_id s, sn_step s)) sn_created_at rows else rows)"

definition latest_by_id :: "('a \<Rightarrow> string) \<Rightarrow> ('a \<Rightarrow> 'c::linorder) \<Rightarrow> 'a list \<Rightarrow> (string, 'a) dict" where
  "latest_by_id tid created xs = fold (keep_latest tid created) xs []"

text \<open>The upward loop; its first argument is the number of levels left.\<close>

primrec up :: "nat \<Rightarrow> ('a \<Rightarrow> string option) \<Rightarrow> (string, 'a) dict \<Rightarrow> 'a \<Rightarrow> string set \<Rightarrow> 'a list \<Rightarrow> 'a list" where
  "up 0 parent by_id current visited chain = chain"
| "up (Suc n) parent by_id current visited chain =
     (case parent current of
        None \<Rightarrow> chain
      | Some p \<Rightarrow>
          if p \<in> visited then chain
          else case map_of by_id p of
                 None \<Rightarrow> chain
               | Some x \<Rightarrow> up n parent by_id x (insert p visited) (chain @ [x]))"

definition ancestor_rows ::
  "('a \<Rightarrow> string) \<Rightarrow> ('a \<Rightarrow> string option) \<Rightarrow> ('a \<Rightarrow> 'c::linorder) \<Rightarrow> 'a list \<Rightarrow> string \<Rightarrow> bool \<Rightarrow> 'a list" where
  "ancestor_rows tid parent created alive t include_self =
     (let by_id = latest_by_id tid created alive
      in case map_of by_id t of
           None \<Rightarrow> []
         | Some current \<Rightarrow>
             rev (up MAX_TRAVERSAL_DEPTH parent by_id current (if include_self then {t} else {})
                    (if include_self then [current] else [])))"

definition mem_get_ancestors :: "instant \<Rightarrow> mem_snaps \<Rightarrow> string \<Rightarrow> bool \<Rightarrow> task_snapshot list" where
  "mem_get_ancestors now m t include_self =
     ancestor_rows sn_task_id sn_parent_task_id sn_created_at (filter (mem_alive now) (map snd (ms_snaps m))) t include_self"

definition in_range :: "time_range option \<Rightarrow> instant \<Rightarrow> bool" where
  "in_range r t =
     (case r of None \<Rightarrow> True
      | Some tr \<Rightarrow> (case tr_start tr of None \<Rightarrow> True | Some a \<Rightarrow> a \<le> t) \<and> (case tr_end tr of None \<Rightarrow> True | Some b \<Rightarrow> t < b))"

definition mem_query ::
  "instant \<Rightarrow> mem_snaps \<Rightarrow> string option \<Rightarrow> string option \<Rightarrow> time_range option \<Rightarrow> page option \<Rightarrow> sort_spec option \<Rightarrow>
     exn + task_snapshot list" where
  "mem_query now m status pid trange page sorting =
     (let rows = latest_per_node (\<lambda>s. (sn_task_id s, sn_step s)) sn_created_at (filter (mem_alive now) (map snd (ms_snaps m)));
          rows = (case status of None \<Rightarrow> rows | Some st \<Rightarrow> filter (\<lambda>s. sn_status s = st) rows);
          rows = (case pid of None \<Rightarrow> rows | Some p \<Rightarrow> filter (\<lambda>s. sn_parent_task_id s = Some p) rows);
          rows = filter (\<lambda>s. in_range trange (sn_created_at s)) rows
      in case validate_sort sorting of
           Inl e \<Rightarrow> Inl e
         | Inr so \<Rightarrow> Inr (page_slice page (py_sort (mem_sort_key (so_field so)) (so_desc so) rows)))"

type_synonym rollup = "(string, nat \<times> (string, real) dict) dict"

definition add_cost :: "(string, real) dict \<Rightarrow> (string, real) dict \<Rightarrow> (string, real) dict" where
  "add_cost cost acc = fold (\<lambda>(k, v) acc. dset k (dget acc k 0 + v) acc) cost acc"

definition rollup_rows :: "('a \<Rightarrow> string) \<Rightarrow> ('a \<Rightarrow> (string, real) dict option) \<Rightarrow> 'a list \<Rightarrow> rollup" where
  "rollup_rows label cost rows =
     fold (\<lambda>s out. let (n, c) = dget out (label s) (0, [])
                   in dset (label s) (n + 1, add_cost (case cost s of None \<Rightarrow> [] | Some d \<Rightarrow> d) c) out) rows []"

definition mem_label :: "string \<Rightarrow> task_snapshot \<Rightarrow> string" where
  "mem_label group_by s =
     (if group_by = ''status'' then sn_status s else case sn_model s of None \<Rightarrow> ''None'' | Some x \<Rightarrow> x)"

definition mem_aggregate ::
  "instant \<Rightarrow> mem_snaps \<Rightarrow> string \<Rightarrow> string option \<Rightarrow> time_range option \<Rightarrow> exn + rollup" where
  "mem_aggregate now m group_by pid trange =
     (if group_by \<notin> set (dget GROUP_BY_FIELDS ''snapshot'' []) then Inl InvalidQuery
      else let rows = latest_per_node (\<lambda>s. (sn_task_id s, sn_step s)) sn_created_at (filter (mem_alive now) (map snd (ms_snaps m)));
               rows = (case pid of None \<Rightarrow> rows | Some p \<Rightarrow> filter (\<lambda>s. sn_parent_task_id s = Some p) rows);
               rows = filter (\<lambda>s. in_range trange (sn_created_at s)) rows
           in Inr (rollup_rows (mem_label group_by) sn_cost rows))"

section \<open>The contract\<close>

text \<open>The merge rule of the writer's contract on records: fields present in the incoming snapshot overwrite, absent
  ones are kept, an empty status is no status, the creation instant is the first one.\<close>

definition or_else :: "'a option \<Rightarrow> 'a option \<Rightarrow> 'a option" where
  "or_else new old = (case new of None \<Rightarrow> old | Some x \<Rightarrow> Some x)"

definition snap_merge :: "task_snapshot \<Rightarrow> task_snapshot \<Rightarrow> task_snapshot" where
  "snap_merge a b = a\<lparr>
     sn_parent_task_id := or_else (sn_parent_task_id b) (sn_parent_task_id a),
     sn_status := (if sn_status b = '''' then sn_status a else sn_status b),
     sn_input_pointer := or_else (sn_input_pointer b) (sn_input_pointer a),
     sn_output_pointer := or_else (sn_output_pointer b) (sn_output_pointer a),
     sn_error := or_else (sn_error b) (sn_error a),
     sn_cost := or_else (sn_cost b) (sn_cost a),
     sn_model := or_else (sn_model b) (sn_model a),
     sn_updated_at := sn_updated_at b,
     sn_expire_at := or_else (sn_expire_at b) (sn_expire_at a)\<rparr>"

text \<open>Identical business content: all fields but the clocks, dictionaries compared as such.\<close>

definition same_business :: "task_snapshot \<Rightarrow> task_snapshot \<Rightarrow> bool" where
  "same_business a b \<longleftrightarrow> key_of a = key_of b \<and> sn_parent_task_id a = sn_parent_task_id b \<and> sn_status a = sn_status b
     \<and> rel_option pointer_eq (sn_input_pointer a) (sn_input_pointer b) \<and> rel_option pointer_eq (sn_output_pointer a) (sn_output_pointer b)
     \<and> sn_error a = sn_error b \<and> rel_option (dict_eq (=)) (sn_cost a) (sn_cost b) \<and> sn_model a = sn_model b
     \<and> sn_expire_at a = sn_expire_at b"

definition spec_upsert :: "task_snapshot \<Rightarrow> mem_snaps \<Rightarrow> mem_snaps" where
  "spec_upsert s m = m\<lparr>ms_snaps := dset (key_of s)
     (case map_of (ms_snaps m) (key_of s) of None \<Rightarrow> s | Some x \<Rightarrow> snap_merge x s) (ms_snaps m)\<rparr>"

definition spec_save :: "task_snapshot \<Rightarrow> (mem_snaps, unit) py" where
  "spec_save s m =
     (case map_of (ms_snaps m) (key_of s) of
        Some x \<Rightarrow>
          if key_of s \<in> ms_terminal m \<and> sn_status s \<noteq> '''' \<and> sn_status s \<noteq> sn_status x
          then (Inl TerminalStateViolation, m) else (Inr (), spec_upsert s m)
      | None \<Rightarrow> (Inr (), spec_upsert s m))"

definition spec_save_terminal :: "task_snapshot \<Rightarrow> (mem_snaps, unit) py" where
  "spec_save_terminal s m =
     (if key_of s \<in> ms_terminal m \<and> map_of (ms_snaps m) (key_of s) \<noteq> None
      then (if same_business (the (map_of (ms_snaps m) (key_of s))) s then Inr () else Inl TerminalStateViolation, m)
      else (Inr (), (spec_upsert s m)\<lparr>ms_terminal := insert (key_of s) (ms_terminal m)\<rparr>))"

datatype snap_op = Save task_snapshot | SaveTerminal task_snapshot

fun op_snap :: "snap_op \<Rightarrow> task_snapshot" where
  "op_snap (Save s) = s"
| "op_snap (SaveTerminal s) = s"

text \<open>A sequence of writes: the outcome of each and the state at the end.  A refused write does not stop the caller.\<close>

fun run_ops :: "(task_snapshot \<Rightarrow> ('s, unit) py) \<Rightarrow> (task_snapshot \<Rightarrow> ('s, unit) py) \<Rightarrow> snap_op list \<Rightarrow> 's \<Rightarrow>
    (exn + unit) list \<times> 's" where
  "run_ops save terminal [] st = ([], st)"
| "run_ops save terminal (x # ops) st =
     (let (r, st') = (case x of Save s \<Rightarrow> save s st | SaveTerminal s \<Rightarrow> terminal s st);
          (rs, st'') = run_ops save terminal ops st'
      in (r # rs, st''))"

section \<open>Serialisation\<close>

text \<open>A payload, in one of the two modes, read with \<^verbatim>\<open>dict.get\<close>: an absent field and a null one are the same.\<close>

fun json_of :: "(instant \<Rightarrow> string) \<Rightarrow> sval \<Rightarrow> sval" where
  "json_of stamp (VTime t) = VStr (stamp t)"
| "json_of stamp v = v"

definition got :: "payload \<Rightarrow> string \<Rightarrow> sval" where
  "got d k = (case map_of d k of None \<Rightarrow> VNull | Some v \<Rightarrow> v)"

definition field_names :: "string list" where
  "field_names = [''task_id'', ''step'', ''execution_id'', ''parent_task_id'', ''status'', ''input_pointer'', ''output_pointer'',
     ''error'', ''cost'', ''model'', ''created_at'', ''updated_at'', ''expire_at'']"

definition well_keyed :: "payload \<Rightarrow> bool" where
  "well_keyed d \<longleftrightarrow> distinct (dkeys d) \<and> set (dkeys d) \<subseteq> set field_names"

definition encodes :: "(sval \<Rightarrow> sval) \<Rightarrow> payload \<Rightarrow> task_snapshot \<Rightarrow> bool" where
  "encodes enc d s \<longleftrightarrow> well_keyed d \<and> list_all (\<lambda>(k, v). got d k = enc v) (snap_fields s)"

text \<open>What the code relies on in pydantic: a dump lists the declared fields in order; the compact JSON dump leaves out
  the null ones and writes instants as text; validation reads either form back, null and absent being the default.\<close>

locale pydantic_model =
  fixes P :: pydantic and stamp :: "instant \<Rightarrow> string"
  assumes dump_python: "pd_dump P False False s = snap_fields s"
    and dump_json: "pd_dump P True True s = map (\<lambda>(k, v). (k, json_of stamp v)) (filter (\<lambda>(k, v). v \<noteq> VNull) (snap_fields s))"
    and validate_python: "encodes (\<lambda>v. v) d s \<Longrightarrow> pd_validate P d = Inr s"
    and validate_json: "encodes (json_of stamp) d s \<Longrightarrow> pd_validate P d = Inr s"

lemma got_dset: "got (dset k v d) k' = (if k' = k then v else got d k')"
  by (simp add: got_def dict_simps)

lemma got_nonnull: "VNull \<notin> snd ` set d \<Longrightarrow> map_of d k = (if got d k = VNull then None else Some (got d k))"
  by (force simp: got_def split: option.splits dest!: map_of_SomeD)

lemma got_filter_nonnull: "distinct (dkeys d) \<Longrightarrow> got (filter (\<lambda>(k, v). v \<noteq> VNull) d) k = got d k"
proof (induction d)
  case (Cons p d)
  obtain k' v where p: "p = (k', v)" by force
  have "v = VNull \<Longrightarrow> map_of (filter (\<lambda>(k, v). v \<noteq> VNull) d) k' = None"
    using Cons.prems by (auto simp: p map_of_eq_None_iff)
  then show ?case using Cons by (auto simp: p got_def)
qed simp

lemma merge_field_eq: "merge_field row f rec = (if got row f = VNull then rec else dset f (got row f) rec)"
  by (auto simp: merge_field_def got_def split: option.splits)

lemma got_merge_field: "got (merge_field row f rec) k = (if k = f \<and> got row k \<noteq> VNull then got row k else got rec k)"
  by (auto simp: merge_field_eq got_dset)

lemma got_merge_fields:
  "got (fold (merge_field row) fs rec) k = (if k \<in> set fs \<and> got row k \<noteq> VNull then got row k else got rec k)"
  by (induction fs arbitrary: rec) (auto simp: got_merge_field)

lemma merge_row_eq:
  "merge_row rec row =
     (let rec = fold (merge_field row) SNAPSHOT_MERGE_FIELDS rec;
          rec = (if got row ''status'' = VNull \<or> got row ''status'' = VStr '''' then rec else dset ''status'' (got row ''status'') rec)
      in merge_field row ''updated_at'' rec)"
  by (simp add: merge_row_def got_def Let_def split: option.splits)

lemma got_merge_row:
  "got (merge_row rec row) k =
     (if k \<in> set SNAPSHOT_MERGE_FIELDS \<union> {''updated_at''} \<and> got row k \<noteq> VNull then got row k
      else if k = ''status'' \<and> got row k \<noteq> VNull \<and> got row k \<noteq> VStr '''' then got row k
      else got rec k)"
  by (auto simp: merge_row_eq Let_def got_merge_field got_merge_fields got_dset SNAPSHOT_MERGE_FIELDS_def)

text \<open>Folding rows merges the records they encode, in either mode.\<close>

definition good_enc :: "(sval \<Rightarrow> sval) \<Rightarrow> bool" where
  "good_enc enc \<longleftrightarrow> enc VNull = VNull \<and> (\<forall>t. enc (VTime t) \<noteq> VNull) \<and> (\<forall>s. enc (VStr s) = VStr s)
     \<and> (\<forall>p. enc (VPointer p) = VPointer p) \<and> (\<forall>c. enc (VCost c) = VCost c)"

lemma good_enc_modes [simp]: "good_enc (\<lambda>v. v)" "good_enc (json_of stamp)"
  by (simp_all add: good_enc_def)

lemma well_keyed_dset: "f \<in> set field_names \<Longrightarrow> well_keyed d \<Longrightarrow> well_keyed (dset f v d)"
  by (simp add: well_keyed_def distinct_dset dom_update)

lemma well_keyed_merge_field: "f \<in> set field_names \<Longrightarrow> well_keyed rec \<Longrightarrow> well_keyed (merge_field row f rec)"
  by (simp add: merge_field_eq well_keyed_dset)

lemma well_keyed_merge_fields:
  "set fs \<subseteq> set field_names \<Longrightarrow> well_keyed rec \<Longrightarrow> well_keyed (fold (merge_field row) fs rec)"
  by (induction fs arbitrary: rec) (simp_all add: well_keyed_merge_field)

lemma well_keyed_merge_row: "well_keyed rec \<Longrightarrow> well_keyed (merge_row rec row)"
  unfolding merge_row_eq Let_def
  by (auto intro!: well_keyed_merge_field well_keyed_dset well_keyed_merge_fields simp: field_names_def SNAPSHOT_MERGE_FIELDS_def)

lemma opt_val_or_else:
  "opt_val VStr (or_else b a) = (if opt_val VStr b = VNull then opt_val VStr a else opt_val VStr b)"
  "opt_val VPointer (or_else c d) = (if opt_val VPointer c = VNull then opt_val VPointer d else opt_val VPointer c)"
  "opt_val VCost (or_else e f) = (if opt_val VCost e = VNull then opt_val VCost f else opt_val VCost e)"
  "opt_val VTime (or_else g h) = (if opt_val VTime g = VNull then opt_val VTime h else opt_val VTime g)"
  by (simp_all add: opt_val_def or_else_def split: option.splits)

lemma good_enc_null: "good_enc enc \<Longrightarrow> enc v = VNull \<longleftrightarrow> v = VNull"
  by (cases v) (simp_all add: good_enc_def)

lemma good_enc_str: "good_enc enc \<Longrightarrow> enc (VStr s) = VStr s"
  by (simp add: good_enc_def)

lemma encodes_merge_row:
  assumes "good_enc enc" "encodes enc a x" "encodes enc b y" "key_of x = key_of y"
  shows "encodes enc (merge_row a b) (snap_merge x y)"
proof -
  have "list_all (\<lambda>(k, v). got (merge_row a b) k = enc v) (snap_fields (snap_merge x y))"
    using assms unfolding encodes_def
    by (simp add: snap_fields_def got_merge_row SNAPSHOT_MERGE_FIELDS_def snap_merge_def opt_val_or_else good_enc_null good_enc_str
        key_of_def)
  then show ?thesis using assms(2) well_keyed_merge_row[of a b] by (simp add: encodes_def)
qed

lemma encodes_snap_fields: "good_enc enc \<Longrightarrow> encodes enc (map (\<lambda>(k, v). (k, enc v)) (snap_fields s)) s"
  by (simp add: encodes_def snap_fields_def got_def field_names_def well_keyed_def)

lemma encodes_filter: "encodes enc d s \<Longrightarrow> encodes enc (filter (\<lambda>(k, v). v \<noteq> VNull) d) s"
  by (auto simp: encodes_def well_keyed_def got_filter_nonnull intro: distinct_map_filter)

section \<open>A reference serialiser\<close>

text \<open>An instant as a sign and as many strokes as its magnitude, a text that can be read back and whose order is the order of
  the instants from the epoch on.\<close>

definition ref_stamp :: "instant \<Rightarrow> string" where
  "ref_stamp t = (if 0 \<le> t then CHR ''+'' # replicate (nat t) CHR ''0'' else CHR ''-'' # replicate (nat (- t)) CHR ''0'')"

definition ref_unstamp :: "string \<Rightarrow> instant" where
  "ref_unstamp s = (if hd s = CHR ''+'' then int (length s) - 1 else 1 - int (length s))"

lemma ref_unstamp_stamp [simp]: "ref_unstamp (ref_stamp t) = t"
  by (simp add: ref_unstamp_def ref_stamp_def)

fun v_str :: "sval \<Rightarrow> string" where
  "v_str (VStr s) = s" | "v_str v = ''''"
fun v_str_opt :: "sval \<Rightarrow> string option" where
  "v_str_opt (VStr s) = Some s" | "v_str_opt v = None"
fun v_ptr_opt :: "sval \<Rightarrow> task_pointer option" where
  "v_ptr_opt (VPointer p) = Some p" | "v_ptr_opt v = None"
fun v_cost_opt :: "sval \<Rightarrow> (string, real) dict option" where
  "v_cost_opt (VCost c) = Some c" | "v_cost_opt v = None"
fun v_time_opt :: "sval \<Rightarrow> instant option" where
  "v_time_opt (VTime t) = Some t" | "v_time_opt (VStr s) = Some (ref_unstamp s)" | "v_time_opt v = None"

lemma v_opt_val [simp]:
  "v_str_opt (opt_val VStr a) = a" "v_ptr_opt (opt_val VPointer b) = b" "v_cost_opt (opt_val VCost c) = c"
  "v_time_opt (opt_val VTime t) = t"
  "json_of st (opt_val VStr a) = opt_val VStr a" "json_of st (opt_val VPointer b) = opt_val VPointer b"
  "json_of st (opt_val VCost c) = opt_val VCost c" "v_time_opt (json_of ref_stamp (opt_val VTime t)) = t"
  by (simp_all add: opt_val_def split: option.splits)

definition ref_validate :: "payload \<Rightarrow> exn + task_snapshot" where
  "ref_validate d =
     (if got d ''task_id'' = VNull \<or> got d ''step'' = VNull \<or> got d ''execution_id'' = VNull then Inl ValueErr
      else Inr \<lparr>sn_task_id = v_str (got d ''task_id''), sn_step = v_str (got d ''step''),
        sn_execution_id = v_str (got d ''execution_id''), sn_parent_task_id = v_str_opt (got d ''parent_task_id''),
        sn_status = v_str (got d ''status''), sn_input_pointer = v_ptr_opt (got d ''input_pointer''),
        sn_output_pointer = v_ptr_opt (got d ''output_pointer''), sn_error = v_str_opt (got d ''error''),
        sn_cost = v_cost_opt (got d ''cost''), sn_model = v_str_opt (got d ''model''),
        sn_created_at = (case v_time_opt (got d ''created_at'') of None \<Rightarrow> 0 | Some t \<Rightarrow> t),
        sn_updated_at = (case v_time_opt (got d ''updated_at'') of None \<Rightarrow> 0 | Some t \<Rightarrow> t),
        sn_expire_at = v_time_opt (got d ''expire_at'')\<rparr>)"

definition ref_pydantic :: pydantic where
  "ref_pydantic = \<lparr>
     pd_dump = (\<lambda>exclude_none json s.
       let d = (if exclude_none then filter (\<lambda>(k, v). v \<noteq> VNull) (snap_fields s) else snap_fields s)
       in if json then map (\<lambda>(k, v). (k, json_of ref_stamp v)) d else d),
     pd_validate = ref_validate\<rparr>"

interpretation ref: pydantic_model ref_pydantic ref_stamp
proof
  show "pd_validate ref_pydantic d = Inr s" if "encodes (\<lambda>v. v) d s" for d s
    using that by (simp add: encodes_def snap_fields_def ref_pydantic_def ref_validate_def)
  show "pd_validate ref_pydantic d = Inr s" if "encodes (json_of ref_stamp) d s" for d s
    using that by (simp add: encodes_def snap_fields_def ref_pydantic_def ref_validate_def)
qed (simp_all add: ref_pydantic_def Let_def)

section \<open>The writers follow the contract\<close>

lemma map_of_filter_key: "map_of (filter (\<lambda>(k, v). Q k) d) k = (if Q k then map_of d k else None)"
  by (induction d) auto

lemma idempotent_iff:
  "idempotent_payload_equal a b \<longleftrightarrow> (\<forall>k. k \<notin> set IDEMPOTENCY_EXCLUDED_FIELDS \<longrightarrow> rel_option sval_eq (map_of a k) (map_of b k))"
  by (auto simp: idempotent_payload_equal_def dict_eq_iff map_of_filter_key)

lemma sval_eq_VNull [simp]: "sval_eq VNull v \<longleftrightarrow> v = VNull" "sval_eq v VNull \<longleftrightarrow> v = VNull"
  by (cases v; simp)+

lemma sval_eq_opt_val:
  "sval_eq (opt_val VStr a) (opt_val VStr b) \<longleftrightarrow> a = b" "sval_eq (opt_val VPointer c) (opt_val VPointer d) \<longleftrightarrow> rel_option pointer_eq c d"
  "sval_eq (opt_val VCost e) (opt_val VCost f) \<longleftrightarrow> rel_option (dict_eq (=)) e f" "sval_eq (opt_val VTime g) (opt_val VTime h) \<longleftrightarrow> g = h"
proof -
  show "sval_eq (opt_val VStr a) (opt_val VStr b) \<longleftrightarrow> a = b" by (cases a; cases b) (simp_all add: opt_val_def)
  show "sval_eq (opt_val VPointer c) (opt_val VPointer d) \<longleftrightarrow> rel_option pointer_eq c d" by (cases c; cases d) (simp_all add: opt_val_def)
  show "sval_eq (opt_val VCost e) (opt_val VCost f) \<longleftrightarrow> rel_option (dict_eq (=)) e f" by (cases e; cases f) (simp_all add: opt_val_def)
  show "sval_eq (opt_val VTime g) (opt_val VTime h) \<longleftrightarrow> g = h" by (cases g; cases h) (simp_all add: opt_val_def)
qed

lemma same_business_iff:
  "same_business x y \<longleftrightarrow> (\<forall>k. k \<notin> set IDEMPOTENCY_EXCLUDED_FIELDS \<longrightarrow> sval_eq (got (snap_fields x) k) (got (snap_fields y) k))"
proof
  assume "same_business x y"
  then show "\<forall>k. k \<notin> set IDEMPOTENCY_EXCLUDED_FIELDS \<longrightarrow> sval_eq (got (snap_fields x) k) (got (snap_fields y) k)"
    by (simp add: same_business_def key_of_def got_def snap_fields_def IDEMPOTENCY_EXCLUDED_FIELDS_def sval_eq_opt_val)
next
  assume H: "\<forall>k. k \<notin> set IDEMPOTENCY_EXCLUDED_FIELDS \<longrightarrow> sval_eq (got (snap_fields x) k) (got (snap_fields y) k)"
  have "list_all (\<lambda>k. k \<notin> set IDEMPOTENCY_EXCLUDED_FIELDS \<longrightarrow> sval_eq (got (snap_fields x) k) (got (snap_fields y) k)) field_names"
    using H by (simp add: list_all_iff)
  then show "same_business x y"
    by (simp add: same_business_def key_of_def got_def snap_fields_def IDEMPOTENCY_EXCLUDED_FIELDS_def field_names_def sval_eq_opt_val)
qed

end
