(* ===== verification/Snapshot_Spec.thy ===== *)
theory Snapshot_Spec
  imports Snapshot
begin

text \<open>
  What the in-memory snapshot part promises: its \<^verbatim>\<open>save\<close> is the contract's, a terminal status is final,
  and the tree query returns exactly the live descendants.
\<close>

section \<open>Writers\<close>

definition keyed :: "mem_snaps \<Rightarrow> bool" where
  "keyed m \<longleftrightarrow> (\<forall>k x. map_of (ms_snaps m) k = Some x \<longrightarrow> key_of x = k)"

lemma keyedD: "keyed m \<Longrightarrow> map_of (ms_snaps m) k = Some x \<Longrightarrow> key_of x = k"
  by (simp add: keyed_def del: split_paired_All)

lemma keyed_init [simp]: "keyed mem_snaps_init"
  by (simp add: keyed_def mem_snaps_init_def)

lemma key_of_merge [simp]: "key_of (snap_merge x s) = key_of x"
  by (simp add: key_of_def snap_merge_def)

lemma keyed_upsert: "keyed m \<Longrightarrow> keyed (spec_upsert s m)"
  by (auto simp: keyed_def spec_upsert_def dict_simps simp del: split_paired_All split: option.splits)

lemma keyed_spec_save: "keyed m \<Longrightarrow> keyed (snd (spec_save s m))"
  by (simp add: spec_save_def keyed_upsert split: option.splits)

lemma keyed_spec_save_terminal: "keyed m \<Longrightarrow> keyed (snd (spec_save_terminal s m))"
  using keyed_upsert[of m s] by (auto simp: spec_save_terminal_def keyed_def simp del: split_paired_All)

context pydantic_model
begin

lemma fold_dumps: "key_of x = key_of s \<Longrightarrow> \<exists>d. fold_snapshot_rows [model_dump P x, model_dump P s] = Some d \<and> pd_validate P d = Inr (snap_merge x s)"
proof -
  assume k: "key_of x = key_of s"
  let ?d = "merge_row (filter (\<lambda>(k, v). v \<noteq> VNull) (snap_fields x)) (snap_fields s)"
  have "encodes (\<lambda>v. v) (snap_fields y) y" for y
    using encodes_snap_fields[of "\<lambda>v. v" y] by simp
  then have "encodes (\<lambda>v. v) ?d (snap_merge x s)"
    using encodes_merge_row[OF _ encodes_filter] k by simp
  then show ?thesis
    by (simp add: fold_snapshot_rows_def model_dump_def dump_python validate_python)
qed

lemma mem_save_spec: "keyed m \<Longrightarrow> mem_save P s m = spec_save s m"
proof (cases "map_of (ms_snaps m) (key_of s)")
  case (Some x)
  assume "keyed m"
  with Some have "key_of x = key_of s" by (simp add: keyedD)
  from fold_dumps[OF this] Some show ?thesis
    by (auto simp: mem_save_def spec_save_def spec_upsert_def mem_put_def Let_def py_simps)
qed (simp add: mem_save_def spec_save_def spec_upsert_def mem_put_def Let_def py_simps)

lemma idempotent_dumps: "idempotent_payload_equal (model_dump P x) (model_dump P s) \<longleftrightarrow> same_business x s"
proof -
  have "rel_option sval_eq (map_of (snap_fields x) k) (map_of (snap_fields s) k) \<longleftrightarrow> sval_eq (got (snap_fields x) k) (got (snap_fields s) k)" for k
  proof -
    have "map_of (snap_fields x) k = None \<longleftrightarrow> map_of (snap_fields s) k = None"
      by (simp add: map_of_eq_None_iff snap_fields_def)
    then show ?thesis by (auto simp: got_def split: option.splits)
  qed
  then show ?thesis by (simp add: model_dump_def dump_python idempotent_iff same_business_iff)
qed

text \<open>The terminal save is the contract's on a generation that is new or already terminal; on a known running one it
  replaces the record where the contract merges.\<close>

lemma mem_save_terminal_spec:
  assumes "map_of (ms_snaps m) (key_of s) = None \<or> key_of s \<in> ms_terminal m"
  shows "mem_save_terminal P s m = spec_save_terminal s m"
  using assms
  by (auto simp: mem_save_terminal_def spec_save_terminal_def spec_upsert_def mem_put_def Let_def py_simps idempotent_dumps
      split: option.splits)

lemma mem_save_terminal_replaces:
  assumes "key_of s \<notin> ms_terminal m"
  shows "mem_save_terminal P s m
    = (Inr (), m\<lparr>ms_snaps := dset (key_of s) s (ms_snaps m), ms_terminal := insert (key_of s) (ms_terminal m)\<rparr>)"
  using assms by (auto simp: mem_save_terminal_def mem_put_def Let_def py_simps split: option.splits)

end

section \<open>Finality\<close>

text \<open>A generation marked terminal keeps its mark and its status, whatever is written afterwards.\<close>

definition final_at :: "snap_key \<Rightarrow> string \<Rightarrow> mem_snaps \<Rightarrow> bool" where
  "final_at k st m \<longleftrightarrow> k \<in> ms_terminal m \<and> (\<exists>x. map_of (ms_snaps m) k = Some x \<and> sn_status x = st)"

lemma final_spec_save: "final_at k st m \<Longrightarrow> final_at k st (snd (spec_save s m))"
  by (auto simp: final_at_def spec_save_def spec_upsert_def snap_merge_def dict_simps split: option.splits)

lemma final_spec_save_terminal: "final_at k st m \<Longrightarrow> final_at k st (snd (spec_save_terminal s m))"
  by (auto simp: final_at_def spec_save_terminal_def spec_upsert_def dict_simps split: option.splits)

lemma mem_save_terminal_keeps:
  assumes "pydantic_model P stamp" "keyed m \<and> final_at k st m"
  shows "keyed (snd (mem_save_terminal P x m)) \<and> final_at k st (snd (mem_save_terminal P x m))"
proof (cases "key_of x \<in> ms_terminal m")
  case True
  then show ?thesis
    using assms pydantic_model.mem_save_terminal_spec[OF assms(1), of m x]
    by (simp add: keyed_spec_save_terminal final_spec_save_terminal)
next
  case False
  then show ?thesis
    using assms(2) pydantic_model.mem_save_terminal_replaces[OF assms(1) False]
    by (auto simp: keyed_def final_at_def dict_simps simp del: split_paired_All)
qed

lemma run_ops_inv:
  assumes "\<And>s st. I st \<Longrightarrow> I (snd (save s st))" "\<And>s st. I st \<Longrightarrow> I (snd (terminal s st))" "I st"
  shows "I (snd (run_ops save terminal ops st))"
  using assms(3)
proof (induction ops arbitrary: st)
  case (Cons x ops)
  from assms(1)[OF Cons.prems, of "op_snap x"] assms(2)[OF Cons.prems, of "op_snap x"] Cons.IH show ?case
    by (cases x) (auto simp: split_beta Let_def)
qed simp

section \<open>The tree\<close>

definition child_rel :: "('a \<Rightarrow> string) \<Rightarrow> ('a \<Rightarrow> string option) \<Rightarrow> 'a list \<Rightarrow> (string \<times> string) set" where
  "child_rel tid parent alive = {(p, c). \<exists>s \<in> set alive. parent s = Some p \<and> tid s = c}"

lemma set_children_in: "c \<in> set (children_in tid parent alive t) \<longleftrightarrow> (t, c) \<in> child_rel tid parent alive"
  by (auto simp: children_in_def child_rel_def)

lemma walks_shape:
  "\<exists>new. walks tid parent alive limit ts depth st
      = (fst st @ new, snd st @ concat (map (\<lambda>t. filter (\<lambda>s. tid s = t) alive) new))
    \<and> (distinct (fst st) \<longrightarrow> distinct (fst st @ new))
    \<and> (\<forall>x \<in> set new. \<exists>t \<in> set ts. (t, x) \<in> (child_rel tid parent alive)\<^sup>*)"
proof (induction tid parent alive limit ts depth st rule: walks.induct)
  case (2 tid parent alive limit t ts depth st)
  let ?f = "\<lambda>t. filter (\<lambda>s. tid s = t) alive" and ?R = "child_rel tid parent alive"
  show ?case
  proof (cases "depth > limit \<or> t \<in> set (fst st)")
    case True
    then show ?thesis using "2.IH"(2) by auto
  next
    case False
    let ?st = "(fst st @ [t], snd st @ ?f t)"
    obtain n1 where n1: "walks tid parent alive limit (children_in tid parent alive t) (depth + 1) ?st
          = (fst ?st @ n1, snd ?st @ concat (map ?f n1))"
        "distinct (fst ?st) \<longrightarrow> distinct (fst ?st @ n1)"
        "\<forall>x \<in> set n1. \<exists>c \<in> set (children_in tid parent alive t). (c, x) \<in> ?R\<^sup>*"
      using "2.IH"(1)[OF False] by auto
    obtain n2 where n2: "walks tid parent alive limit ts depth (fst ?st @ n1, snd ?st @ concat (map ?f n1))
          = ((fst ?st @ n1) @ n2, (snd ?st @ concat (map ?f n1)) @ concat (map ?f n2))"
        "distinct (fst ?st @ n1) \<longrightarrow> distinct ((fst ?st @ n1) @ n2)"
        "\<forall>x \<in> set n2. \<exists>t \<in> set ts. (t, x) \<in> ?R\<^sup>*"
      using "2.IH"(2) False n1(1) by auto
    have "walks tid parent alive limit (t # ts) depth st
        = (fst st @ (t # n1 @ n2), snd st @ concat (map ?f (t # n1 @ n2)))"
      using False n1(1) n2(1) by simp
    moreover have "\<forall>x \<in> set n1. (t, x) \<in> ?R\<^sup>*"
      using n1(3) by (auto simp: set_children_in intro: converse_rtrancl_into_rtrancl)
    ultimately show ?thesis using n1(2) n2(2,3) False by (intro exI[of _ "t # n1 @ n2"]) auto
  qed
qed auto

lemma child_rel_in:
  "(c, x) \<in> (child_rel tid parent alive)\<^sup>* \<Longrightarrow> c \<in> U \<Longrightarrow> tid ` set alive \<subseteq> U \<Longrightarrow> x \<in> U"
  by (induction rule: rtrancl_induct) (auto simp: child_rel_def)

text \<open>Where the depth bound does not cut, the nodes visited are closed under children.\<close>

lemma walks_closed:
  assumes "finite U" "card U \<le> nat (limit + 1)" "set ts \<union> set (fst st) \<subseteq> U" "tid ` set alive \<subseteq> U"
    "depth \<le> int (length (fst st))" "distinct (fst st)"
  shows "set ts \<union> set (fst st) \<subseteq> set (fst (walks tid parent alive limit ts depth st))
    \<and> (\<forall>x \<in> set (fst (walks tid parent alive limit ts depth st)) - set (fst st).
         set (children_in tid parent alive x) \<subseteq> set (fst (walks tid parent alive limit ts depth st)))"
  using assms
proof (induction tid parent alive limit ts depth st rule: walks.induct)
  case (2 tid parent alive limit t ts depth st)
  show ?case
  proof (cases "t \<in> set (fst st)")
    case True
    with 2 show ?thesis by auto
  next
    case False
    then have "set (fst st) \<subset> U" using "2.prems"(3) by auto
    then have "length (fst st) < card U"
      using "2.prems"(1,6) psubset_card_mono by (metis distinct_card)
    then have d: "\<not> (depth > limit \<or> t \<in> set (fst st))" using "2.prems"(2,5) False by linarith
    let ?st = "(fst st @ [t], snd st @ filter (\<lambda>s. tid s = t) alive)"
    let ?st1 = "walks tid parent alive limit (children_in tid parent alive t) (depth + 1) ?st"
    obtain n1 where n1: "fst ?st1 = fst ?st @ n1" "distinct (fst ?st1)"
        "\<forall>x \<in> set n1. \<exists>c \<in> set (children_in tid parent alive t). (c, x) \<in> (child_rel tid parent alive)\<^sup>*"
      using walks_shape[of tid parent alive limit "children_in tid parent alive t" "depth + 1" ?st] "2.prems"(6) False by auto
    have sub: "set (children_in tid parent alive t) \<subseteq> U" using "2.prems"(4) by (auto simp: children_in_def)
    have A: "set (children_in tid parent alive t) \<union> set (fst ?st) \<subseteq> set (fst ?st1)
      \<and> (\<forall>x \<in> set (fst ?st1) - set (fst ?st). set (children_in tid parent alive x) \<subseteq> set (fst ?st1))"
      by (rule "2.IH"(1)[OF d]) (use "2.prems" sub False in auto)
    have vis: "set (fst ?st1) \<subseteq> U"
    proof -
      have "set n1 \<subseteq> U" using n1(3) child_rel_in[OF _ _ "2.prems"(4)] sub by blast
      then show ?thesis using n1(1) "2.prems"(3) by auto
    qed
    have B: "set ts \<union> set (fst ?st1) \<subseteq> set (fst (walks tid parent alive limit ts depth ?st1))
      \<and> (\<forall>x \<in> set (fst (walks tid parent alive limit ts depth ?st1)) - set (fst ?st1).
           set (children_in tid parent alive x) \<subseteq> set (fst (walks tid parent alive limit ts depth ?st1)))"
      using "2.IH"(2) "2.prems" d vis n1 by auto
    have w: "walks tid parent alive limit (t # ts) depth st = walks tid parent alive limit ts depth ?st1" using d by simp
    define V1 where "V1 = set (fst ?st1)"
    define V2 where "V2 = set (fst (walks tid parent alive limit ts depth ?st1))"
    have A': "set (children_in tid parent alive t) \<union> insert t (set (fst st)) \<subseteq> V1"
        "\<forall>x \<in> V1 - insert t (set (fst st)). set (children_in tid parent alive x) \<subseteq> V1"
      using A unfolding V1_def[symmetric] by auto
    have B': "set ts \<union> V1 \<subseteq> V2" "\<forall>x \<in> V2 - V1. set (children_in tid parent alive x) \<subseteq> V2"
      using B unfolding V1_def[symmetric] V2_def[symmetric] by auto
    show ?thesis unfolding w V2_def[symmetric] using A' B' by simp blast
  qed
qed auto

lemma tree_rows_subset: "set (tree_rows tid parent alive start max_depth) \<subseteq> set alive"
proof -
  obtain new where "walks tid parent alive limit [start] 0 ([], []) = (new, concat (map (\<lambda>t. filter (\<lambda>s. tid s = t) alive) new))"
    if "limit = (case max_depth of None \<Rightarrow> int MAX_TRAVERSAL_DEPTH | Some d \<Rightarrow> d)" for limit
    using walks_shape[of tid parent alive "case max_depth of None \<Rightarrow> int MAX_TRAVERSAL_DEPTH | Some d \<Rightarrow> d" "[start]" 0 "([], [])"]
    by (simp del: walks.simps) blast
  then show ?thesis by (auto simp: tree_rows_def Let_def simp del: walks.simps)
qed

lemma tree_rows_exact:
  assumes "finite U" "card U \<le> nat (limit + 1)" "insert start (tid ` set alive) \<subseteq> U"
    "limit = (case max_depth of None \<Rightarrow> int MAX_TRAVERSAL_DEPTH | Some d \<Rightarrow> d)"
  shows "set (tree_rows tid parent alive start max_depth) = {s \<in> set alive. (start, tid s) \<in> (child_rel tid parent alive)\<^sup>*}"
    and "distinct alive \<Longrightarrow> distinct (tree_rows tid parent alive start max_depth)"
proof -
  let ?w = "walks tid parent alive limit [start] 0 ([], [])" and ?R = "child_rel tid parent alive"
  obtain new where w: "?w = (new, concat (map (\<lambda>t. filter (\<lambda>s. tid s = t) alive) new))" "distinct new"
      "\<forall>x \<in> set new. (start, x) \<in> ?R\<^sup>*"
    using walks_shape[of tid parent alive limit "[start]" 0 "([], [])"] by auto
  have c: "start \<in> set new" "\<forall>x \<in> set new. set (children_in tid parent alive x) \<subseteq> set new"
    using walks_closed[of U limit "[start]" "([], [])" tid alive 0 parent] assms(1-3) w(1) by auto
  have "x \<in> set new" if "(start, x) \<in> ?R\<^sup>*" for x
    using that by (induction rule: rtrancl_induct) (use c set_children_in[of _ tid parent alive] in blast)+
  then have new: "x \<in> set new \<longleftrightarrow> (start, x) \<in> ?R\<^sup>*" for x using w(3) by blast
  have t: "tree_rows tid parent alive start max_depth = concat (map (\<lambda>t. filter (\<lambda>s. tid s = t) alive) new)"
    using w(1) assms(4) by (simp add: tree_rows_def Let_def)
  show "set (tree_rows tid parent alive start max_depth) = {s \<in> set alive. (start, tid s) \<in> ?R\<^sup>*}"
    unfolding t using new by auto
  show "distinct (tree_rows tid parent alive start max_depth)" if "distinct alive"
    unfolding t using w(2) that by (induction new) auto
qed

section \<open>The newest generation of each node\<close>

definition latest_inv :: "('a \<Rightarrow> 'k) \<Rightarrow> ('a \<Rightarrow> 'c::linorder) \<Rightarrow> 'a set \<Rightarrow> ('k, 'a) dict \<Rightarrow> bool" where
  "latest_inv node created S l \<longleftrightarrow> distinct (dkeys l)
     \<and> (\<forall>p \<in> set l. node (snd p) = fst p \<and> snd p \<in> S)
     \<and> (\<forall>s \<in> S. \<exists>m. map_of l (node s) = Some m \<and> created s \<le> created m)"

lemma latest_invD:
  "latest_inv node created S l \<Longrightarrow> map_of l k = Some m \<Longrightarrow> node m = k \<and> m \<in> S"
  "latest_inv node created S l \<Longrightarrow> s \<in> S \<Longrightarrow> \<exists>m. map_of l (node s) = Some m \<and> created s \<le> created m"
  unfolding latest_inv_def by (fastforce dest: map_of_SomeD)+

lemma latest_inv_put:
  assumes "latest_inv node created S l" "\<And>m. map_of l (node s) = Some m \<Longrightarrow> created m \<le> created s"
  shows "latest_inv node created (insert s S) (dset (node s) s l)"
  unfolding latest_inv_def
proof (intro conjI ballI)
  show "distinct (dkeys (dset (node s) s l))" using assms(1) by (simp add: latest_inv_def distinct_dset)
  fix p assume "p \<in> set (dset (node s) s l)"
  then have "p = (node s, s) \<or> p \<in> set l" using set_dset by fast
  then show "node (snd p) = fst p" "snd p \<in> insert s S" using assms(1) by (auto simp: latest_inv_def)
next
  fix x assume x: "x \<in> insert s S"
  show "\<exists>m. map_of (dset (node s) s l) (node x) = Some m \<and> created x \<le> created m"
  proof (cases "node x = node s")
    case True
    have "created x \<le> created s"
      using x latest_invD(2)[OF assms(1), of x] assms(2) True by (auto intro: order_trans)
    then show ?thesis by (simp add: True dict_simps)
  qed (use x latest_invD(2)[OF assms(1), of x] in \<open>auto simp: dict_simps\<close>)
qed

lemma latest_inv_keep: "latest_inv node created S l \<Longrightarrow> latest_inv node created (insert s S) (keep_latest node created s l)"
proof (cases "\<exists>m. map_of l (node s) = Some m \<and> \<not> created m \<le> created s")
  case True
  moreover assume "latest_inv node created S l"
  ultimately show ?thesis by (auto simp: keep_latest_def latest_inv_def intro: less_imp_le)
next
  case False
  moreover assume "latest_inv node created S l"
  ultimately show ?thesis
    using latest_inv_put[of node created S l s] by (auto simp: keep_latest_def split: option.splits)
qed

lemma latest_inv_fold: "latest_inv node created S l \<Longrightarrow> latest_inv node created (S \<union> set xs) (fold (keep_latest node created) xs l)"
proof (induction xs arbitrary: S l)
  case (Cons x xs)
  from Cons.IH[OF latest_inv_keep[OF Cons.prems, of x]] show ?case by simp
qed simp

lemma latest_inv_start: "latest_inv node created (set xs) (fold (keep_latest node created) xs [])"
proof -
  have "latest_inv node created {} []" by (simp add: latest_inv_def)
  from latest_inv_fold[OF this, of xs] show ?thesis by simp
qed

text \<open>One row per node, a live one, and none of the node is newer.\<close>

lemma latest_per_node_correct:
  fixes created :: "'a \<Rightarrow> 'c::linorder"
  shows "distinct (map node (latest_per_node node created xs))"
    and "set (latest_per_node node created xs) \<subseteq> set xs"
    and "node ` set (latest_per_node node created xs) = node ` set xs"
    and "s \<in> set xs \<Longrightarrow> m \<in> set (latest_per_node node created xs) \<Longrightarrow> node m = node s \<Longrightarrow> created s \<le> created m"
proof -
  define l where "l = fold (keep_latest node created) xs []"
  note I = latest_inv_start[of node created xs, folded l_def]
  have L: "distinct (dkeys l)" "\<forall>k s. map_of l k = Some s \<longrightarrow> node s = k \<and> s \<in> set xs"
      "\<forall>s \<in> set xs. \<exists>m. map_of l (node s) = Some m \<and> created s \<le> created m"
    using latest_invD[OF I] I unfolding latest_inv_def by blast+
  have e: "latest_per_node node created xs = map snd l" by (simp add: latest_per_node_def l_def)
  have k: "(k, s) \<in> set l \<longleftrightarrow> map_of l k = Some s" for k s using L(1) by simp
  have "map node (map snd l) = dkeys l" using k L(2) by (auto simp: map_eq_conv)
  then show "distinct (map node (latest_per_node node created xs))" using L(1) e by metis
  show "set (latest_per_node node created xs) \<subseteq> set xs" using e k L(2) by auto
  show "node ` set (latest_per_node node created xs) = node ` set xs"
  proof
    show "node ` set xs \<subseteq> node ` set (latest_per_node node created xs)"
    proof
      fix n assume "n \<in> node ` set xs"
      then obtain m where "map_of l n = Some m" using L(3) by auto
      then have "m \<in> set (map snd l)" "node m = n" using k[of n m] L(2) by force+
      then show "n \<in> node ` set (latest_per_node node created xs)" unfolding e by blast
    qed
  qed (use e k L(2) in auto)
  show "created s \<le> created m" if s: "s \<in> set xs" and m: "m \<in> set (latest_per_node node created xs)" "node m = node s"
  proof -
    from m(1) obtain n where "map_of l n = Some m" using e k by auto
    then have "map_of l (node s) = Some m" using L(2) m(2) by fastforce
    then show ?thesis using L(3) s by fastforce
  qed
qed

text \<open>C39. The tree query is exact.  Where the live tasks, the root included, are no more than the depth bound admits (32 levels
  below the root by default), \<^verbatim>\<open>get_tree\<close> terminates on every parent relation, cyclic ones included, and returns exactly
  the live snapshots of the root and of its descendants, each once; with \<^verbatim>\<open>latest_only\<close> it returns one snapshot for
  each of their nodes, and no live generation of that node is newer.\<close>

theorem mem_get_tree_exact:
  assumes "alive = filter (mem_alive now) (map snd (ms_snaps m))"
    "below = {s \<in> set alive. (start, sn_task_id s) \<in> (child_rel sn_task_id sn_parent_task_id alive)\<^sup>*}"
    "card (insert start (sn_task_id ` set alive)) \<le> nat ((case max_depth of None \<Rightarrow> 32 | Some d \<Rightarrow> d) + 1)"
    "distinct alive"
  shows "set (mem_get_tree now m start max_depth False) = below \<and> distinct (mem_get_tree now m start max_depth False)
    \<and> (\<forall>s \<in> below. \<exists>!r. r \<in> set (mem_get_tree now m start max_depth True) \<and> sn_task_id r = sn_task_id s \<and> sn_step r = sn_step s)
    \<and> (\<forall>r \<in> set (mem_get_tree now m start max_depth True). r \<in> below
        \<and> (\<forall>s \<in> below. sn_task_id r = sn_task_id s \<and> sn_step r = sn_step s \<longrightarrow> sn_created_at s \<le> sn_created_at r))"
proof -
  let ?rows = "tree_rows sn_task_id sn_parent_task_id alive start max_depth" and ?node = "\<lambda>s. (sn_task_id s, sn_step s)"
  let ?latest = "latest_per_node ?node sn_created_at ?rows"
  have rows: "set ?rows = below" "distinct ?rows"
    using tree_rows_exact[of "insert start (sn_task_id ` set alive)" "case max_depth of None \<Rightarrow> 32 | Some d \<Rightarrow> d" start sn_task_id alive
      max_depth sn_parent_task_id] assms
    by (simp_all add: MAX_TRAVERSAL_DEPTH_def split: option.splits)
  have tree: "mem_get_tree now m start max_depth False = ?rows" "mem_get_tree now m start max_depth True = ?latest"
    by (simp_all add: mem_get_tree_def Let_def assms(1))
  note L = latest_per_node_correct[where node = ?node and created = sn_created_at and xs = ?rows, unfolded rows(1)]
  have "\<exists>!r. r \<in> set ?latest \<and> sn_task_id r = sn_task_id s \<and> sn_step r = sn_step s" if "s \<in> below" for s
  proof -
    have "?node s \<in> ?node ` set ?latest" using that L(3) by blast
    then obtain r where r: "r \<in> set ?latest" "?node r = ?node s" by auto
    have "inj_on ?node (set ?latest)" using L(1) by (simp add: distinct_map)
    with r show ?thesis by (auto simp: inj_on_def)
  qed
  moreover have "\<forall>r \<in> set ?latest. r \<in> below \<and> (\<forall>s \<in> below. sn_task_id r = sn_task_id s \<and> sn_step r = sn_step s \<longrightarrow> sn_created_at s \<le> sn_created_at r)"
    using L(2,4) by auto
  ultimately show ?thesis using rows tree by simp
qed

definition demo_snap :: "string \<Rightarrow> string option \<Rightarrow> task_snapshot" where
  "demo_snap t p = \<lparr>sn_task_id = t, sn_step = ''s'', sn_execution_id = ''e'', sn_parent_task_id = p, sn_status = ''running'',
     sn_input_pointer = None, sn_output_pointer = None, sn_error = None, sn_cost = None, sn_model = None,
     sn_created_at = 1, sn_updated_at = 1, sn_expire_at = None\<rparr>"

theorem mem_get_tree_exact_witness:
  "demo_snap ''b'' (Some ''a'') \<in> set (mem_get_tree 5 \<lparr>ms_snaps = [((''a'', ''s'', ''e''), demo_snap ''a'' (Some ''b'')),
     ((''b'', ''s'', ''e''), demo_snap ''b'' (Some ''a''))], ms_terminal = {}\<rparr> ''a'' None False)"
proof -
  let ?a = "demo_snap ''a'' (Some ''b'')" and ?b = "demo_snap ''b'' (Some ''a'')"
  let ?m = "\<lparr>ms_snaps = [((''a'', ''s'', ''e''), ?a), ((''b'', ''s'', ''e''), ?b)], ms_terminal = {}\<rparr>"
  have alive: "[?a, ?b] = filter (mem_alive 5) (map snd (ms_snaps ?m))" by (simp add: mem_alive_def demo_snap_def)
  have "(''a'', ''b'') \<in> child_rel sn_task_id sn_parent_task_id [?a, ?b]" by (simp add: child_rel_def demo_snap_def)
  then have "?b \<in> {s \<in> set [?a, ?b]. (''a'', sn_task_id s) \<in> (child_rel sn_task_id sn_parent_task_id [?a, ?b])\<^sup>*}"
    by (auto simp: demo_snap_def)
  with mem_get_tree_exact[OF alive refl, of "''a''" None] show ?thesis by (simp add: demo_snap_def)
qed

text \<open>C40. Terminal generations are final.  Once \<^verbatim>\<open>save_terminal\<close> has recorded a generation, no sequence of further
  writes to the part, whatever their outcome, changes the status of that generation or takes its terminal mark away.\<close>

theorem mem_terminal_final:
  assumes "pydantic_model P stamp" "keyed m" "key_of s \<notin> ms_terminal m"
    "m' = snd (mem_save_terminal P s m)" "m'' = snd (run_ops (mem_save P) (mem_save_terminal P) ops m')"
  shows "key_of s \<in> ms_terminal m'' \<and> (\<exists>x. map_of (ms_snaps m'') (key_of s) = Some x \<and> sn_status x = sn_status s)"
proof -
  let ?I = "\<lambda>m. keyed m \<and> final_at (key_of s) (sn_status s) m"
  have m': "m' = m\<lparr>ms_snaps := dset (key_of s) s (ms_snaps m), ms_terminal := insert (key_of s) (ms_terminal m)\<rparr>"
    using pydantic_model.mem_save_terminal_replaces[OF assms(1,3)] assms(4) by simp
  have "?I m'" using assms(2) by (auto simp: m' keyed_def final_at_def dict_simps simp del: split_paired_All)
  then have "?I m''" unfolding assms(5)
  proof (rule run_ops_inv[rotated 2])
    fix x n assume I: "?I n"
    then show "?I (snd (mem_save P x n))"
      by (simp add: pydantic_model.mem_save_spec[OF assms(1)] keyed_spec_save final_spec_save)
    show "?I (snd (mem_save_terminal P x n))"
      by (rule mem_save_terminal_keeps[OF assms(1) I])
  qed
  then show ?thesis by (simp add: final_at_def)
qed

theorem mem_terminal_final_witness:
  "let m = snd (run_ops (mem_save ref_pydantic) (mem_save_terminal ref_pydantic)
                  [Save (demo_snap ''a'' None\<lparr>sn_status := ''failed''\<rparr>), SaveTerminal (demo_snap ''a'' None\<lparr>sn_error := Some ''x''\<rparr>)]
                  (snd (mem_save_terminal ref_pydantic (demo_snap ''a'' None) mem_snaps_init)))
   in map_option sn_status (map_of (ms_snaps m) (''a'', ''s'', ''e'')) = Some ''running''"
  using mem_terminal_final[OF ref.pydantic_model_axioms keyed_init, of "demo_snap ''a'' None" _ _
      "[Save (demo_snap ''a'' None\<lparr>sn_status := ''failed''\<rparr>), SaveTerminal (demo_snap ''a'' None\<lparr>sn_error := Some ''x''\<rparr>)]"]
  by (auto simp: Let_def mem_snaps_init_def demo_snap_def key_of_def simp del: run_ops.simps)

end
