(* ===== verification/Snapshot_Local.thy ===== *)
theory Snapshot_Local
  imports Snapshot_Spec
begin

text \<open>
  The local-file snapshot part: an append-only log of \<^verbatim>\<open>save\<close> and \<^verbatim>\<open>save_terminal\<close> envelopes, folded on every
  read.  The file is the list of its rows, each with the fields that are read back, the operation and the payload.
  The part refines the contract of the domain: every write has the contract's outcome and every read gives the answer
  of the contract's record store.
\<close>

section \<open>Folding the log\<close>

record log_envelope =
  ee_op :: string
  ee_data :: payload

type_synonym row_key = "sval \<times> sval \<times> sval"

definition row_key_of :: "payload \<Rightarrow> row_key" where
  "row_key_of data = (dget data ''task_id'' (VStr ''''), dget data ''step'' (VStr ''''), dget data ''execution_id'' (VStr ''''))"

definition fold_envelope :: "log_envelope \<Rightarrow> (row_key, payload list) dict \<times> row_key set \<Rightarrow> (row_key, payload list) dict \<times> row_key set" where
  "fold_envelope env = (\<lambda>(grouped, terminal).
     let key = row_key_of (ee_data env)
     in (dset key (dget grouped key [] @ [ee_data env]) grouped,
         if ee_op env = ''save_terminal'' then insert key terminal else terminal))"

definition local_fold :: "log_envelope list \<Rightarrow> (row_key, payload) dict \<times> row_key set" where
  "local_fold ndjson =
     (let (grouped, terminal) = fold fold_envelope ndjson ([], {})
      in ([(key, rec). (key, sq) \<leftarrow> grouped, rec \<leftarrow> (case fold_snapshot_rows sq of None \<Rightarrow> [] | Some r \<Rightarrow> [r])], terminal))"

section \<open>Writer\<close>

definition val_key :: "snap_key \<Rightarrow> row_key" where
  "val_key = (\<lambda>(t, st, e). (VStr t, VStr st, VStr e))"

definition append_envelope :: "string \<Rightarrow> payload \<Rightarrow> (log_envelope list, unit) py" where
  "append_envelope operation data = py_modify (\<lambda>ndjson. ndjson @ [\<lparr>ee_op = operation, ee_data = data\<rparr>])"

definition local_save :: "pydantic \<Rightarrow> task_snapshot \<Rightarrow> (log_envelope list, unit) py" where
  "local_save P s =
     py_bind (py_get local_fold) (\<lambda>(rows, terminal).
       let key = val_key (key_of s)
       in case map_of rows key of
            Some existing \<Rightarrow>
              if key \<in> terminal \<and> sn_status s \<noteq> '''' \<and> VStr (sn_status s) \<noteq> dget existing ''status'' (VStr '''')
              then py_raise TerminalStateViolation
              else append_envelope ''save'' (snap_to_payload P s)
          | None \<Rightarrow> append_envelope ''save'' (snap_to_payload P s))"

definition local_save_terminal :: "pydantic \<Rightarrow> task_snapshot \<Rightarrow> (log_envelope list, unit) py" where
  "local_save_terminal P s =
     py_bind (py_get local_fold) (\<lambda>(rows, terminal).
       let key = val_key (key_of s)
       in case (map_of rows key, key \<in> terminal) of
            (Some existing, True) \<Rightarrow>
              if \<not> idempotent_payload_equal existing (snap_to_payload P s) then py_raise TerminalStateViolation
              else py_return ()
          | _ \<Rightarrow> append_envelope ''save_terminal'' (snap_to_payload P s))"

section \<open>Reader\<close>

definition parse_dt :: "(string \<Rightarrow> instant option) \<Rightarrow> sval \<Rightarrow> instant option" where
  "parse_dt fromisoformat v = (case v of VStr s \<Rightarrow> fromisoformat s | _ \<Rightarrow> None)"

definition local_alive :: "(string \<Rightarrow> instant option) \<Rightarrow> instant \<Rightarrow> payload \<Rightarrow> bool" where
  "local_alive fi now data =
     (let expire = got data ''expire_at''
      in if expire = VNull then True else case parse_dt fi expire of None \<Rightarrow> True | Some t \<Rightarrow> now < t)"

text \<open>\<^verbatim>\<open>str(...)\<close> on the value of a clock field, which is a text in every row.\<close>

definition created_text :: "payload \<Rightarrow> string" where
  "created_text d = v_str (dget d ''created_at'' (VStr ''''))"

definition local_sort_key :: "string \<Rightarrow> payload \<Rightarrow> bool \<times> string" where
  "local_sort_key field d =
     (let value = got d field
      in if field = ''expire_at'' then (value = VNull, if value \<noteq> VNull then v_str value else '''')
         else (False, v_str value))"

definition row_tid :: "payload \<Rightarrow> string" where
  "row_tid d = v_str (got d ''task_id'')"

definition row_parent :: "payload \<Rightarrow> string option" where
  "row_parent d = v_str_opt (got d ''parent_task_id'')"

definition row_node :: "payload \<Rightarrow> sval \<times> sval" where
  "row_node d = (dget d ''task_id'' (VStr ''''), dget d ''step'' (VStr ''''))"

fun validate_all :: "pydantic \<Rightarrow> payload list \<Rightarrow> exn + task_snapshot list" where
  "validate_all P [] = Inr []"
| "validate_all P (d # ds) =
     (case pd_validate P d of
        Inl e \<Rightarrow> Inl e
      | Inr x \<Rightarrow> (case validate_all P ds of Inl e \<Rightarrow> Inl e | Inr xs \<Rightarrow> Inr (x # xs)))"

definition local_rows :: "log_envelope list \<Rightarrow> payload list" where
  "local_rows ndjson = map snd (fst (local_fold ndjson))"

definition local_get ::
  "pydantic \<Rightarrow> (string \<Rightarrow> instant option) \<Rightarrow> instant \<Rightarrow> log_envelope list \<Rightarrow> string \<Rightarrow> string \<Rightarrow> string option \<Rightarrow> exn + task_snapshot option" where
  "local_get P fi now ndjson tid stp eid =
     (let candidates = [d. ((t, st, e), d) \<leftarrow> fst (local_fold ndjson),
                           t = VStr tid \<and> st = VStr stp \<and> (eid = None \<or> map_option VStr eid = Some e) \<and> local_alive fi now d]
      in if candidates = [] then Inr None
         else case pd_validate P (last (py_sort created_text False candidates)) of Inl e \<Rightarrow> Inl e | Inr x \<Rightarrow> Inr (Some x))"

definition local_list_versions ::
  "pydantic \<Rightarrow> (string \<Rightarrow> instant option) \<Rightarrow> instant \<Rightarrow> log_envelope list \<Rightarrow> string \<Rightarrow> string \<Rightarrow> page option \<Rightarrow> sort_spec option \<Rightarrow>
     exn + task_snapshot list" where
  "local_list_versions P fi now ndjson tid stp page sorting =
     (case validate_sort sorting of
        Inl e \<Rightarrow> Inl e
      | Inr so \<Rightarrow>
          let candidates = [d. ((t, st, e), d) \<leftarrow> fst (local_fold ndjson), t = VStr tid \<and> st = VStr stp \<and> local_alive fi now d]
          in validate_all P (page_slice page (py_sort (local_sort_key (so_field so)) (so_desc so) candidates)))"

definition local_get_tree ::
  "pydantic \<Rightarrow> (string \<Rightarrow> instant option) \<Rightarrow> instant \<Rightarrow> log_envelope list \<Rightarrow> string \<Rightarrow> int option \<Rightarrow> bool \<Rightarrow> exn + task_snapshot list" where
  "local_get_tree P fi now ndjson start max_depth latest_only =
     (let alive = filter (local_alive fi now) (local_rows ndjson);
          out = tree_rows row_tid row_parent alive start max_depth
      in validate_all P (if latest_only then latest_per_node row_node created_text out else out))"

definition local_list_children ::
  "pydantic \<Rightarrow> (string \<Rightarrow> instant option) \<Rightarrow> instant \<Rightarrow> log_envelope list \<Rightarrow> string \<Rightarrow> bool \<Rightarrow> exn + task_snapshot list" where
  "local_list_children P fi now ndjson pid latest_only =
     (let children = filter (\<lambda>d. row_parent d = Some pid \<and> local_alive fi now d) (local_rows ndjson)
      in validate_all P (if latest_only then latest_per_node row_node created_text children else children))"

definition local_get_ancestors ::
  "pydantic \<Rightarrow> (string \<Rightarrow> instant option) \<Rightarrow> instant \<Rightarrow> log_envelope list \<Rightarrow> string \<Rightarrow> bool \<Rightarrow> exn + task_snapshot list" where
  "local_get_ancestors P fi now ndjson t include_self =
     validate_all P (ancestor_rows row_tid row_parent created_text (filter (local_alive fi now) (local_rows ndjson)) t include_self)"

definition local_in_range :: "(string \<Rightarrow> instant option) \<Rightarrow> time_range option \<Rightarrow> payload \<Rightarrow> bool" where
  "local_in_range fi r d =
     (case r of None \<Rightarrow> True
      | Some tr \<Rightarrow>
          (case tr_start tr of None \<Rightarrow> True | Some a \<Rightarrow> (case parse_dt fi (got d ''created_at'') of None \<Rightarrow> False | Some t \<Rightarrow> a \<le> t))
        \<and> (case tr_end tr of None \<Rightarrow> True | Some b \<Rightarrow> (case parse_dt fi (got d ''created_at'') of None \<Rightarrow> False | Some t \<Rightarrow> t < b)))"

definition local_query ::
  "pydantic \<Rightarrow> (string \<Rightarrow> instant option) \<Rightarrow> instant \<Rightarrow> log_envelope list \<Rightarrow> string option \<Rightarrow> string option \<Rightarrow> time_range option \<Rightarrow>
     page option \<Rightarrow> sort_spec option \<Rightarrow> exn + task_snapshot list" where
  "local_query P fi now ndjson status pid trange page sorting =
     (case validate_sort sorting of
        Inl e \<Rightarrow> Inl e
      | Inr so \<Rightarrow>
          let rows = latest_per_node row_node created_text (filter (local_alive fi now) (local_rows ndjson));
              rows = (case status of None \<Rightarrow> rows | Some st \<Rightarrow> filter (\<lambda>d. got d ''status'' = VStr st) rows);
              rows = (case pid of None \<Rightarrow> rows | Some p \<Rightarrow> filter (\<lambda>d. row_parent d = Some p) rows);
              rows = filter (local_in_range fi trange) rows
          in validate_all P (page_slice page (py_sort (local_sort_key (so_field so)) (so_desc so) rows)))"

definition local_label :: "string \<Rightarrow> payload \<Rightarrow> string" where
  "local_label group_by d = v_str (dget d group_by (VStr ''unknown''))"

definition local_aggregate ::
  "(string \<Rightarrow> instant option) \<Rightarrow> instant \<Rightarrow> log_envelope list \<Rightarrow> string \<Rightarrow> string option \<Rightarrow> time_range option \<Rightarrow> exn + rollup" where
  "local_aggregate fi now ndjson group_by pid trange =
     (if group_by \<notin> set (dget GROUP_BY_FIELDS ''snapshot'' []) then Inl InvalidQuery
      else let rows = latest_per_node row_node created_text (filter (local_alive fi now) (local_rows ndjson));
               rows = (case pid of None \<Rightarrow> rows | Some p \<Rightarrow> filter (\<lambda>d. row_parent d = Some p) rows);
               rows = filter (local_in_range fi trange) rows
           in Inr (rollup_rows (local_label group_by) (\<lambda>d. v_cost_opt (got d ''cost'')) rows))"

section \<open>The log as a dictionary of records\<close>

lemma fold_rows_snoc:
  "fold_rows rec (rows @ [row]) =
     (case fold_rows rec rows of None \<Rightarrow> Some (filter (\<lambda>(k, v). v \<noteq> VNull) row) | Some r \<Rightarrow> Some (merge_row r row))"
proof (induction rows arbitrary: rec)
  case Nil
  show ?case by (cases rec) simp_all
next
  case (Cons r rows)
  then show ?case by (cases rec) simp_all
qed

lemma fold_rows_Some: "rec \<noteq> None \<or> rows \<noteq> [] \<Longrightarrow> \<exists>r. fold_rows rec rows = Some r"
  by (induction rec rows rule: fold_rows.induct) auto

lemma map_dset: "map (\<lambda>(k, v). (k, f v)) (dset k v d) = dset k (f v) (map (\<lambda>(k, v). (k, f v)) d)"
  by (induction d) auto

lemma map_of_map_val: "map_of (map (\<lambda>(k, v). (k, f v)) d) k = map_option f (map_of d k)"
  by (induction d) auto

definition grouped_rows :: "(row_key, payload list) dict \<Rightarrow> (row_key, payload) dict" where
  "grouped_rows grouped = [(key, rec). (key, sq) \<leftarrow> grouped, rec \<leftarrow> (case fold_snapshot_rows sq of None \<Rightarrow> [] | Some r \<Rightarrow> [r])]"

lemma grouped_rows_map:
  "[] \<notin> snd ` set grouped \<Longrightarrow> grouped_rows grouped = map (\<lambda>(k, sq). (k, the (fold_snapshot_rows sq))) grouped"
proof (induction grouped)
  case (Cons p grouped)
  obtain k sq where p: "p = (k, sq)" by (cases p) blast
  obtain r where "fold_snapshot_rows sq = Some r"
    using fold_rows_Some[of None sq] Cons.prems by (auto simp: p fold_snapshot_rows_def)
  with Cons show ?case by (simp add: p grouped_rows_def)
qed (simp add: grouped_rows_def)

lemma nonempty_dset: "[] \<notin> snd ` set d \<Longrightarrow> v \<noteq> [] \<Longrightarrow> [] \<notin> snd ` set (dset k v d)"
  by (induction d) auto

lemma grouped_nonempty: "[] \<notin> snd ` set grouped \<Longrightarrow> [] \<notin> snd ` set (fst (fold fold_envelope ndjson (grouped, terminal)))"
proof (induction ndjson arbitrary: grouped terminal)
  case (Cons env ndjson)
  let ?g = "dset (row_key_of (ee_data env)) (dget grouped (row_key_of (ee_data env)) [] @ [ee_data env]) grouped"
  have "[] \<notin> snd ` set ?g" using Cons.prems by (simp add: nonempty_dset)
  from Cons.IH[OF this] show ?case by (simp add: fold_envelope_def Let_def)
qed simp

text \<open>Appending an envelope merges its payload into the record of its key and leaves the other records alone.\<close>

lemma local_fold_snoc:
  "fst (local_fold (ndjson @ [env])) =
     (let rows = fst (local_fold ndjson); key = row_key_of (ee_data env)
      in dset key (case map_of rows key of None \<Rightarrow> filter (\<lambda>(k, v). v \<noteq> VNull) (ee_data env) | Some r \<Rightarrow> merge_row r (ee_data env)) rows)"
  "snd (local_fold (ndjson @ [env])) =
     (if ee_op env = ''save_terminal'' then insert (row_key_of (ee_data env)) (snd (local_fold ndjson)) else snd (local_fold ndjson))"
proof -
  obtain grouped terminal where g: "fold fold_envelope ndjson ([], {}) = (grouped, terminal)" by (cases "fold fold_envelope ndjson ([], {})") blast
  have ne: "[] \<notin> snd ` set grouped" using grouped_nonempty[of "[]" ndjson "{}"] g by simp
  let ?key = "row_key_of (ee_data env)" and ?f = "\<lambda>sq. the (fold_snapshot_rows sq)"
  let ?g = "dset ?key (dget grouped ?key [] @ [ee_data env]) grouped"
  have ne': "[] \<notin> snd ` set ?g" using ne by (simp add: nonempty_dset)
  have rows: "fst (local_fold ndjson) = map (\<lambda>(k, sq). (k, ?f sq)) grouped"
    using grouped_rows_map[OF ne] by (simp add: local_fold_def g grouped_rows_def)
  have rows': "fst (local_fold (ndjson @ [env])) = map (\<lambda>(k, sq). (k, ?f sq)) ?g"
    using grouped_rows_map[OF ne'] by (simp add: local_fold_def g fold_envelope_def Let_def grouped_rows_def)
  have "?f (dget grouped ?key [] @ [ee_data env]) = (case map_of (fst (local_fold ndjson)) ?key of
      None \<Rightarrow> filter (\<lambda>(k, v). v \<noteq> VNull) (ee_data env) | Some r \<Rightarrow> merge_row r (ee_data env))"
  proof (cases "map_of grouped ?key")
    case (Some sq)
    then have "sq \<noteq> []" using ne map_of_SomeD[OF Some] by force
    then obtain r where "fold_rows None sq = Some r" using fold_rows_Some by blast
    with Some show ?thesis by (simp add: rows map_of_map_val dget_def fold_snapshot_rows_def fold_rows_snoc)
  qed (simp add: rows map_of_map_val dget_def fold_snapshot_rows_def)
  then show "fst (local_fold (ndjson @ [env])) =
     (let rows = fst (local_fold ndjson); key = row_key_of (ee_data env)
      in dset key (case map_of rows key of None \<Rightarrow> filter (\<lambda>(k, v). v \<noteq> VNull) (ee_data env) | Some r \<Rightarrow> merge_row r (ee_data env)) rows)"
    by (simp add: rows' map_dset rows Let_def)
  show "snd (local_fold (ndjson @ [env])) =
     (if ee_op env = ''save_terminal'' then insert ?key (snd (local_fold ndjson)) else snd (local_fold ndjson))"
    by (simp add: local_fold_def g fold_envelope_def Let_def)
qed

section \<open>Rows and the records they stand for\<close>

definition json_row :: "(instant \<Rightarrow> string) \<Rightarrow> instant set \<Rightarrow> payload \<Rightarrow> task_snapshot \<Rightarrow> bool" where
  "json_row stamp T d x \<longleftrightarrow> encodes (json_of stamp) d x \<and> VNull \<notin> snd ` set d
     \<and> {sn_created_at x, sn_updated_at x} \<union> set_option (sn_expire_at x) \<subseteq> T"

lemma json_of_null [simp]: "json_of st v = VNull \<longleftrightarrow> v = VNull"
  by (cases v) simp_all

lemma encodes_got:
  assumes "encodes (json_of stamp) d x"
  shows "got d ''task_id'' = VStr (sn_task_id x)" "got d ''step'' = VStr (sn_step x)" "got d ''execution_id'' = VStr (sn_execution_id x)"
    "got d ''parent_task_id'' = opt_val VStr (sn_parent_task_id x)" "got d ''status'' = VStr (sn_status x)"
    "got d ''cost'' = opt_val VCost (sn_cost x)" "got d ''model'' = opt_val VStr (sn_model x)"
    "got d ''created_at'' = VStr (stamp (sn_created_at x))" "got d ''updated_at'' = VStr (stamp (sn_updated_at x))"
    "got d ''expire_at'' = opt_val (\<lambda>t. VStr (stamp t)) (sn_expire_at x)"
  using assms by (simp_all add: encodes_def snap_fields_def opt_val_def split: option.splits)

lemma dget_got: "got d k \<noteq> VNull \<Longrightarrow> dget d k v = got d k"
  by (auto simp: dget_def got_def split: option.splits)

lemma row_access:
  assumes "encodes (json_of stamp) d x"
  shows "row_tid d = sn_task_id x" "row_parent d = sn_parent_task_id x" "row_node d = (VStr (sn_task_id x), VStr (sn_step x))"
    "created_text d = stamp (sn_created_at x)" "row_key_of d = val_key (key_of x)"
  using encodes_got[OF assms]
  by (simp_all add: row_tid_def row_parent_def row_node_def created_text_def row_key_of_def val_key_def key_of_def dget_got)

lemma val_key_inj [simp]: "val_key k = val_key k' \<longleftrightarrow> k = k'"
  by (simp add: val_key_def split: prod.splits)

section \<open>Writes refine the contract\<close>

definition in_times :: "instant set \<Rightarrow> task_snapshot \<Rightarrow> bool" where
  "in_times T x \<longleftrightarrow> {sn_created_at x, sn_updated_at x} \<union> set_option (sn_expire_at x) \<subseteq> T"

definition row_sim :: "(instant \<Rightarrow> string) \<Rightarrow> instant set \<Rightarrow> row_key \<times> payload \<Rightarrow> snap_key \<times> task_snapshot \<Rightarrow> bool" where
  "row_sim stamp T p q \<longleftrightarrow> fst p = val_key (fst q) \<and> key_of (snd q) = fst q \<and> json_row stamp T (snd p) (snd q)"

text \<open>The log stands for the contract's store: the same keys in the same order, each row the payload of the record, and the
  same terminal marks.\<close>

definition local_sim :: "(instant \<Rightarrow> string) \<Rightarrow> instant set \<Rightarrow> log_envelope list \<Rightarrow> mem_snaps \<Rightarrow> bool" where
  "local_sim stamp T ndjson m \<longleftrightarrow> list_all2 (row_sim stamp T) (fst (local_fold ndjson)) (ms_snaps m)
     \<and> (\<forall>k. val_key k \<in> snd (local_fold ndjson) \<longleftrightarrow> k \<in> ms_terminal m)"

lemma row_sim_map_of:
  assumes "list_all2 (row_sim stamp T) rows snaps"
  shows "rel_option (json_row stamp T) (map_of rows (val_key k)) (map_of snaps k)"
  using assms by (induction rows snaps) (auto simp: row_sim_def)

lemma row_sim_dset:
  assumes "list_all2 (row_sim stamp T) rows snaps" "json_row stamp T d x" "key_of x = k"
  shows "list_all2 (row_sim stamp T) (dset (val_key k) d rows) (dset k x snaps)"
  using assms(1)
proof (induction rows snaps)
  case Nil
  then show ?case using assms(2,3) by (simp add: row_sim_def)
next
  case (Cons p rows q snaps)
  then show ?case using assms(2,3) by (cases p; cases q) (auto simp: row_sim_def [of _ _ "(_, _)"])
qed

lemma row_sim_key: "list_all2 (row_sim stamp T) rows snaps \<Longrightarrow> map_of snaps k = Some x \<Longrightarrow> key_of x = k"
  by (induction rule: list_all2_induct) (auto simp: row_sim_def split: if_splits)

lemma filter_nonnull: "VNull \<notin> snd ` set d \<Longrightarrow> filter (\<lambda>(k, v). v \<noteq> VNull) d = d"
  by (induction d) auto

lemma nonnull_merge_field: "VNull \<notin> snd ` set rec \<Longrightarrow> VNull \<notin> snd ` set (merge_field row f rec)"
  using set_dset[of f "got row f" rec] by (auto simp: merge_field_eq)

lemma nonnull_merge_fields: "VNull \<notin> snd ` set rec \<Longrightarrow> VNull \<notin> snd ` set (fold (merge_field row) fs rec)"
  by (induction fs arbitrary: rec) (simp_all add: nonnull_merge_field)

lemma nonnull_dset: "VNull \<notin> snd ` set d \<Longrightarrow> v \<noteq> VNull \<Longrightarrow> VNull \<notin> snd ` set (dset k v d)"
  using set_dset[of k v d] by auto

lemma nonnull_merge_row: "VNull \<notin> snd ` set rec \<Longrightarrow> VNull \<notin> snd ` set (merge_row rec row)"
  unfolding merge_row_eq Let_def by (intro nonnull_merge_field) (simp add: nonnull_merge_fields nonnull_dset)

lemma json_row_merge:
  assumes "json_row stamp T d x" "json_row stamp T e y" "key_of x = key_of y"
  shows "json_row stamp T (merge_row d e) (snap_merge x y)"
  using assms encodes_merge_row[of "json_of stamp" d x e y] nonnull_merge_row[of d e]
  by (auto simp: json_row_def snap_merge_def or_else_def split: option.splits)

lemma dkeys_snap_fields: "dkeys (snap_fields x) = field_names"
  by (simp add: snap_fields_def field_names_def)

lemma distinct_field_names: "distinct field_names"
  by (simp add: field_names_def)

lemma got_outside: "well_keyed d \<Longrightarrow> k \<notin> set field_names \<Longrightarrow> got d k = VNull"
  by (force simp: well_keyed_def got_def split: option.splits dest!: map_of_SomeD)

lemma encodes_got_fields: "encodes (json_of stamp) d x \<Longrightarrow> got d k = json_of stamp (got (snap_fields x) k)"
proof (cases "k \<in> set field_names")
  case True
  assume e: "encodes (json_of stamp) d x"
  from True obtain v where v: "(k, v) \<in> set (snap_fields x)" unfolding dkeys_snap_fields[of x, symmetric] by auto
  then have "got (snap_fields x) k = v"
    using distinct_field_names by (simp add: got_def dkeys_snap_fields)
  then show ?thesis using v e by (auto simp: encodes_def list_all_iff)
next
  case False
  assume e: "encodes (json_of stamp) d x"
  moreover have "map_of (snap_fields x) k = None"
    unfolding map_of_eq_None_iff list.set_map[symmetric] dkeys_snap_fields by (rule False)
  ultimately show ?thesis using False got_outside by (simp add: encodes_def got_def)
qed

lemma no_time_field:
  "k \<notin> set IDEMPOTENCY_EXCLUDED_FIELDS \<Longrightarrow> k \<noteq> ''expire_at'' \<Longrightarrow> got (snap_fields x) k \<noteq> VTime t"
  by (simp add: got_def snap_fields_def IDEMPOTENCY_EXCLUDED_FIELDS_def opt_val_def split: option.splits)

lemma json_of_eq: "(\<forall>t. v \<noteq> VTime t) \<Longrightarrow> (\<forall>t. w \<noteq> VTime t) \<Longrightarrow> sval_eq (json_of stamp v) (json_of stamp w) \<longleftrightarrow> sval_eq v w"
  by (cases v; cases w) simp_all

lemma json_row_idempotent:
  assumes inj: "inj_on stamp T" and "json_row stamp T d x" "json_row stamp T e y"
  shows "idempotent_payload_equal d e \<longleftrightarrow> same_business x y"
proof -
  have m: "rel_option sval_eq (map_of d k) (map_of e k) \<longleftrightarrow> sval_eq (got d k) (got e k)" for k
  proof -
    have "VNull \<notin> snd ` set d" "VNull \<notin> snd ` set e" using assms(2,3) unfolding json_row_def by blast+
    then show ?thesis unfolding got_nonnull[OF \<open>VNull \<notin> snd ` set d\<close>] got_nonnull[OF \<open>VNull \<notin> snd ` set e\<close>] by simp
  qed
  have "sval_eq (got d k) (got e k) \<longleftrightarrow> sval_eq (got (snap_fields x) k) (got (snap_fields y) k)" if k: "k \<notin> set IDEMPOTENCY_EXCLUDED_FIELDS" for k
  proof (cases "k = ''expire_at''")
    case True
    have f: "got (snap_fields z) ''expire_at'' = opt_val VTime (sn_expire_at z)" for z by (simp add: got_def snap_fields_def)
    have g: "got d ''expire_at'' = opt_val (\<lambda>t. VStr (stamp t)) (sn_expire_at x)" "got e ''expire_at'' = opt_val (\<lambda>t. VStr (stamp t)) (sn_expire_at y)"
      using assms(2,3) encodes_got(10) by (auto simp: json_row_def True)
    have "set_option (sn_expire_at x) \<subseteq> T" "set_option (sn_expire_at y) \<subseteq> T" using assms(2,3) by (simp_all add: json_row_def)
    then show ?thesis using inj unfolding g f True
      by (cases "sn_expire_at x"; cases "sn_expire_at y") (auto simp: opt_val_def dest: inj_onD)
  next
    case False
    then show ?thesis
      using assms(2,3) json_of_eq[of "got (snap_fields x) k" "got (snap_fields y) k" stamp] no_time_field[OF k False]
        encodes_got_fields[of stamp d x k] encodes_got_fields[of stamp e y k]
      by (simp add: json_row_def)
  qed
  then show ?thesis by (auto simp: idempotent_iff same_business_iff m)
qed

context pydantic_model
begin

lemma payload_row: "in_times T s \<Longrightarrow> json_row stamp T (snap_to_payload P s) s"
proof -
  assume T: "in_times T s"
  let ?f = "map (\<lambda>(k, v). (k, json_of stamp v))"
  have "snap_to_payload P s = filter (\<lambda>(k, v). v \<noteq> VNull) (?f (snap_fields s))"
    unfolding snap_to_payload_def dump_json filter_map by (simp add: o_def split_beta')
  then show ?thesis
    using T encodes_filter[OF encodes_snap_fields[of "json_of stamp" s]]
    by (auto simp: json_row_def in_times_def)
qed

lemma local_append:
  assumes sim: "local_sim stamp T ndjson m" and "in_times T s"
    and "ndjson' = ndjson @ [\<lparr>ee_op = operation, ee_data = snap_to_payload P s\<rparr>]"
    and "m' = (if operation = ''save_terminal'' then (spec_upsert s m)\<lparr>ms_terminal := insert (key_of s) (ms_terminal m)\<rparr> else spec_upsert s m)"
  shows "local_sim stamp T ndjson' m'"
proof -
  let ?d = "snap_to_payload P s"
  note d = payload_row[OF assms(2)]
  have k: "row_key_of ?d = val_key (key_of s)" using d row_access(5) by (auto simp: json_row_def)
  have rows: "list_all2 (row_sim stamp T) (fst (local_fold ndjson)) (ms_snaps m)" using sim by (simp add: local_sim_def)
  have nn: "filter (\<lambda>(k, v). v \<noteq> VNull) ?d = ?d" using d by (simp add: json_row_def filter_nonnull)
  note mo = row_sim_map_of[OF rows, of "key_of s"]
  let ?new = "case map_of (fst (local_fold ndjson)) (val_key (key_of s)) of None \<Rightarrow> ?d | Some r \<Rightarrow> merge_row r ?d"
  let ?x = "case map_of (ms_snaps m) (key_of s) of None \<Rightarrow> s | Some x \<Rightarrow> snap_merge x s"
  have "json_row stamp T ?new ?x \<and> key_of ?x = key_of s"
  proof (cases "map_of (ms_snaps m) (key_of s)")
    case None
    with mo d show ?thesis by simp
  next
    case (Some x)
    with mo obtain r where r: "map_of (fst (local_fold ndjson)) (val_key (key_of s)) = Some r" "json_row stamp T r x"
      by (auto simp: option_rel_Some2)
    have "key_of x = key_of s" by (rule row_sim_key[OF rows Some])
    with Some r json_row_merge[OF r(2) d] show ?thesis by simp
  qed
  then have "list_all2 (row_sim stamp T) (fst (local_fold ndjson')) (ms_snaps (spec_upsert s m))"
    using row_sim_dset[OF rows, of ?new ?x "key_of s"]
    unfolding assms(3) local_fold_snoc(1) Let_def log_envelope.simps k nn spec_upsert_def by simp
  then show ?thesis using sim by (auto simp: local_sim_def assms(3,4) local_fold_snoc(2) k spec_upsert_def)
qed

lemma local_save_refines:
  assumes sim: "local_sim stamp T ndjson m" and "in_times T s"
  shows "fst (local_save P s ndjson) = fst (spec_save s m) \<and> local_sim stamp T (snd (local_save P s ndjson)) (snd (spec_save s m))"
proof -
  have app: "local_sim stamp T (ndjson @ [\<lparr>ee_op = ''save'', ee_data = snap_to_payload P s\<rparr>]) (spec_upsert s m)"
    by (rule local_append[OF assms refl]) simp
  have rows: "list_all2 (row_sim stamp T) (fst (local_fold ndjson)) (ms_snaps m)"
    and marks: "val_key (key_of s) \<in> snd (local_fold ndjson) \<longleftrightarrow> key_of s \<in> ms_terminal m" using sim unfolding local_sim_def by blast+
  show ?thesis
  proof (cases "map_of (ms_snaps m) (key_of s)")
    case None
    then have "map_of (fst (local_fold ndjson)) (val_key (key_of s)) = None" using row_sim_map_of[OF rows, of "key_of s"] by simp
    then show ?thesis using app None by (simp add: local_save_def append_envelope_def spec_save_def Let_def py_simps split_beta)
  next
    case (Some x)
    then obtain d where d: "map_of (fst (local_fold ndjson)) (val_key (key_of s)) = Some d" "json_row stamp T d x"
      using row_sim_map_of[OF rows, of "key_of s"] by (auto simp: option_rel_Some2)
    then have "dget d ''status'' (VStr '''') = VStr (sn_status x)"
      using encodes_got(5) dget_got by (metis json_row_def sval.distinct(1))
    then show ?thesis using app Some d(1) marks sim
      by (auto simp: local_save_def append_envelope_def spec_save_def Let_def py_simps split_beta)
  qed
qed

lemma local_save_terminal_refines:
  assumes inj: "inj_on stamp T" and sim: "local_sim stamp T ndjson m" and "in_times T s"
  shows "fst (local_save_terminal P s ndjson) = fst (spec_save_terminal s m)
    \<and> local_sim stamp T (snd (local_save_terminal P s ndjson)) (snd (spec_save_terminal s m))"
proof -
  have app: "local_sim stamp T (ndjson @ [\<lparr>ee_op = ''save_terminal'', ee_data = snap_to_payload P s\<rparr>])
      ((spec_upsert s m)\<lparr>ms_terminal := insert (key_of s) (ms_terminal m)\<rparr>)"
    by (rule local_append[OF assms(2,3) refl]) simp
  have rows: "list_all2 (row_sim stamp T) (fst (local_fold ndjson)) (ms_snaps m)"
    and marks: "val_key (key_of s) \<in> snd (local_fold ndjson) \<longleftrightarrow> key_of s \<in> ms_terminal m" using sim unfolding local_sim_def by blast+
  show ?thesis
  proof (cases "map_of (ms_snaps m) (key_of s)")
    case None
    then have "map_of (fst (local_fold ndjson)) (val_key (key_of s)) = None" using row_sim_map_of[OF rows, of "key_of s"] by simp
    then show ?thesis using app None
      by (simp add: local_save_terminal_def append_envelope_def spec_save_terminal_def Let_def py_simps split_beta)
  next
    case (Some x)
    then obtain d where d: "map_of (fst (local_fold ndjson)) (val_key (key_of s)) = Some d" "json_row stamp T d x"
      using row_sim_map_of[OF rows, of "key_of s"] by (auto simp: option_rel_Some2)
    note same = json_row_idempotent[OF inj d(2) payload_row[OF assms(3)]]
    show ?thesis using app Some d(1) marks sim same
      by (cases "key_of s \<in> ms_terminal m")
        (simp_all add: local_save_terminal_def append_envelope_def spec_save_terminal_def Let_def py_simps split_beta)
  qed
qed

end

end
