(* ===== verification/Snapshot_Refine.thy ===== *)
theory Snapshot_Refine
  imports Snapshot_Local
begin

text \<open>
  Both adapter parts against the contract of the snapshot domain.  The local-file part implements it: equal outcomes of all
  writes and equal answers of all reads.  The in-memory part implements it except for a terminal save of a generation it
  already knows, where it replaces the record instead of completing it.
\<close>

section \<open>The traversals do not depend on the representation\<close>

text \<open>\<^verbatim>\<open>keep_latest\<close> on the list of the values, whose keys are determined by the values.\<close>

fun upd_latest :: "('a \<Rightarrow> 'k) \<Rightarrow> ('a \<Rightarrow> 'c::linorder) \<Rightarrow> 'a \<Rightarrow> 'a list \<Rightarrow> 'a list" where
  "upd_latest key created s [] = [s]"
| "upd_latest key created s (y # ys) =
     (if key y = key s then (if created y \<le> created s then s else y) # ys else y # upd_latest key created s ys)"

abbreviation tagged :: "('a \<Rightarrow> 'k) \<Rightarrow> 'a list \<Rightarrow> ('k, 'a) dict" where
  "tagged key ys \<equiv> map (\<lambda>s. (key s, s)) ys"

lemma keep_latest_tagged: "keep_latest key created s (tagged key ys) = tagged key (upd_latest key created s ys)"
proof (induction ys)
  case (Cons y ys)
  show ?case
  proof (cases "key y = key s")
    case False
    with Cons show ?thesis
      by (cases "map_of (tagged key ys) (key s)") (auto simp: keep_latest_def split: if_splits)
  qed (simp add: keep_latest_def)
qed (simp add: keep_latest_def)

lemma fold_latest_tagged:
  "fold (keep_latest key created) xs (tagged key ys) = tagged key (fold (upd_latest key created) xs ys)"
  by (induction xs arbitrary: ys) (simp_all add: keep_latest_tagged)

lemma latest_per_node_upd: "latest_per_node key created xs = fold (upd_latest key created) xs []"
  using fold_latest_tagged[of key created xs "[]"] by (simp add: latest_per_node_def o_def)

lemma latest_by_id_upd: "latest_by_id tid created xs = tagged tid (fold (upd_latest tid created) xs [])"
  using fold_latest_tagged[of tid created xs "[]"] by (simp add: latest_by_id_def)

definition agree :: "('b \<Rightarrow> 'a) \<Rightarrow> 'b set \<Rightarrow> ('a \<Rightarrow> 'k) \<Rightarrow> ('b \<Rightarrow> 'l) \<Rightarrow> bool" where
  "agree v D f g \<longleftrightarrow> (\<forall>d \<in> D. \<forall>e \<in> D. f (v d) = f (v e) \<longleftrightarrow> g d = g e)"

definition agree_le :: "('b \<Rightarrow> 'a) \<Rightarrow> 'b set \<Rightarrow> ('a \<Rightarrow> 'k::linorder) \<Rightarrow> ('b \<Rightarrow> 'l::linorder) \<Rightarrow> bool" where
  "agree_le v D f g \<longleftrightarrow> (\<forall>d \<in> D. \<forall>e \<in> D. f (v d) \<le> f (v e) \<longleftrightarrow> g d \<le> g e)"

lemma agree_subset: "agree v D f g \<Longrightarrow> E \<subseteq> D \<Longrightarrow> agree v E f g"
  unfolding agree_def by blast

lemma agree_le_subset: "agree_le v D f g \<Longrightarrow> E \<subseteq> D \<Longrightarrow> agree_le v E f g"
  unfolding agree_le_def by blast

lemma agree_le_conv: "agree_le v D f g \<Longrightarrow> d \<in> D \<Longrightarrow> e \<in> D \<Longrightarrow> f (v d) \<le> f (v e) \<longleftrightarrow> g d \<le> g e"
  unfolding agree_le_def by blast

lemma agree_conv: "agree v D f g \<Longrightarrow> d \<in> D \<Longrightarrow> e \<in> D \<Longrightarrow> f (v d) = f (v e) \<longleftrightarrow> g d = g e"
  unfolding agree_def by blast

lemma upd_latest_map:
  assumes "agree v D k k'" "agree_le v D c c'" "insert s (set ys) \<subseteq> D"
  shows "upd_latest k c (v s) (map v ys) = map v (upd_latest k' c' s ys) \<and> set (upd_latest k' c' s ys) \<subseteq> D"
  using assms(3)
proof (induction ys)
  case (Cons y ys)
  have "k (v y) = k (v s) \<longleftrightarrow> k' y = k' s" using agree_conv[OF assms(1), of y s] Cons.prems by simp
  moreover have "c (v y) \<le> c (v s) \<longleftrightarrow> c' y \<le> c' s" using agree_le_conv[OF assms(2), of y s] Cons.prems by simp
  ultimately show ?case using Cons by auto
qed simp

lemma fold_upd_latest_map:
  assumes "agree v D k k'" "agree_le v D c c'" "set ds \<union> set ys \<subseteq> D"
  shows "fold (upd_latest k c) (map v ds) (map v ys) = map v (fold (upd_latest k' c') ds ys)"
  using assms(3)
proof (induction ds arbitrary: ys)
  case (Cons d ds)
  have "upd_latest k c (v d) (map v ys) = map v (upd_latest k' c' d ys) \<and> set (upd_latest k' c' d ys) \<subseteq> D"
    by (rule upd_latest_map[OF assms(1,2)]) (use Cons.prems in simp)
  with Cons.IH[of "upd_latest k' c' d ys"] Cons.prems show ?case by simp
qed simp

lemma latest_per_node_map:
  assumes "agree v (set ds) k k'" "agree_le v (set ds) c c'"
  shows "latest_per_node k c (map v ds) = map v (latest_per_node k' c' ds)"
  using fold_upd_latest_map[OF assms, of ds "[]"] by (simp add: latest_per_node_upd)

lemma walks_map':
  assumes "\<forall>t. children_in tid parent A t = children_in tid' parent' B t"
    "\<forall>t. filter (\<lambda>s. tid s = t) A = map v (filter (\<lambda>d. tid' d = t) B)"
  shows "walks tid parent A limit ts depth (fst st, map v (snd st))
    = (fst (walks tid' parent' B limit ts depth st), map v (snd (walks tid' parent' B limit ts depth st)))"
  using assms
proof (induction tid' parent' B limit ts depth st rule: walks.induct)
  case (2 tid' parent' B limit t ts depth st)
  show ?case
  proof (cases "depth > limit \<or> t \<in> set (fst st)")
    case True
    then show ?thesis using "2.IH"(2)[OF "2.prems"] by auto
  next
    case False
    let ?st1 = "walks tid' parent' B limit (children_in tid' parent' B t) (depth + 1) (fst st @ [t], snd st @ filter (\<lambda>d. tid' d = t) B)"
    have "walks tid parent A limit (children_in tid parent A t) (depth + 1) (fst st @ [t], map v (snd st) @ filter (\<lambda>s. tid s = t) A)
        = (fst ?st1, map v (snd ?st1))"
      using "2.IH"(1)[OF False "2.prems"] "2.prems" by simp
    moreover have "walks tid parent A limit ts depth (fst ?st1, map v (snd ?st1))
        = (fst (walks tid' parent' B limit ts depth ?st1), map v (snd (walks tid' parent' B limit ts depth ?st1)))"
      using "2.IH"(2)[OF "2.prems"] False by simp
    ultimately show ?thesis using False by simp
  qed
qed simp

lemma tree_rows_map:
  assumes "\<forall>d \<in> set alive. tid (v d) = tid' d \<and> parent (v d) = parent' d"
  shows "tree_rows tid parent (map v alive) start max_depth = map v (tree_rows tid' parent' alive start max_depth)"
proof -
  have ch: "\<forall>t. children_in tid parent (map v alive) t = children_in tid' parent' alive t"
    using assms by (induction alive) (auto simp: children_in_def)
  have fl: "\<forall>t. filter (\<lambda>s. tid s = t) (map v alive) = map v (filter (\<lambda>d. tid' d = t) alive)"
    using assms by (induction alive) auto
  from walks_map'[OF ch fl, of _ "[start]" 0 "([], [])"] show ?thesis by (simp add: tree_rows_def Let_def)
qed

lemma up_map:
  assumes "\<forall>p. map_of by p = map_option v (map_of by' p)" "\<forall>d \<in> insert cur (snd ` set by'). parent (v d) = parent' d"
  shows "up n parent by (v cur) vis (map v chain) = map v (up n parent' by' cur vis chain)"
  using assms(2)
proof (induction n arbitrary: cur vis chain)
  case (Suc n)
  have par: "parent (v cur) = parent' cur" using Suc.prems by simp
  show ?case
  proof (cases "parent' cur")
    case (Some p)
    show ?thesis
    proof (cases "map_of by' p")
      case (Some x)
      then have "x \<in> snd ` set by'" by (metis image_eqI map_of_SomeD snd_conv)
      then have "\<forall>d \<in> insert x (snd ` set by'). parent (v d) = parent' d" using Suc.prems by blast
      from Suc.IH[OF this, of "insert p vis" "chain @ [x]"] show ?thesis
        using assms(1) Some \<open>parent' cur = Some p\<close> par by simp
    qed (use assms(1) Some par in simp)
  qed (simp add: par)
qed simp

lemma ancestor_rows_map:
  assumes "\<forall>d \<in> set alive. tid (v d) = tid' d \<and> parent (v d) = parent' d" "agree_le v (set alive) created created'"
  shows "ancestor_rows tid parent created (map v alive) t self = map v (ancestor_rows tid' parent' created' alive t self)"
proof -
  let ?ys = "fold (upd_latest tid' created') alive []"
  have ag: "agree v (set alive) tid tid'" using assms(1) by (simp add: agree_def)
  have sub: "set ?ys \<subseteq> set alive"
    using latest_per_node_correct(2)[of tid' created' alive] by (simp add: latest_per_node_upd)
  have "latest_by_id tid created (map v alive) = tagged tid (map v ?ys)"
    using fold_upd_latest_map[OF ag assms(2), of alive "[]"] by (simp add: latest_by_id_upd)
  moreover have "map_of (tagged tid (map v ys)) p = map_option v (map_of (tagged tid' ys) p)" if "set ys \<subseteq> set alive" for ys p
    using that assms(1) by (induction ys) auto
  ultimately have m: "\<forall>p. map_of (latest_by_id tid created (map v alive)) p = map_option v (map_of (latest_by_id tid' created' alive) p)"
    using sub by (simp add: latest_by_id_upd)
  have vals: "snd ` set (latest_by_id tid' created' alive) \<subseteq> set alive" using sub by (auto simp: latest_by_id_upd)
  show ?thesis
  proof (cases "map_of (latest_by_id tid' created' alive) t")
    case (Some cur)
    then have "cur \<in> set alive" using vals by (metis image_eqI map_of_SomeD snd_conv subsetD)
    then have par: "\<forall>d \<in> insert cur (snd ` set (latest_by_id tid' created' alive)). parent (v d) = parent' d"
      using assms(1) vals by auto
    show ?thesis
      using Some m up_map[OF m par, of _ _ "if self then [cur] else []"]
      by (cases self) (simp_all add: ancestor_rows_def Let_def rev_map)
  qed (use m in \<open>simp add: ancestor_rows_def\<close>)
qed

lemma insort_key_map:
  assumes "agree_le v (insert x (set ys)) k k'"
  shows "insort_key k (v x) (map v ys) = map v (insort_key k' x ys)"
  using assms
proof (induction ys)
  case (Cons y ys)
  have "agree_le v (insert x (set ys)) k k'" by (rule agree_le_subset[OF Cons.prems]) auto
  moreover have "k (v x) \<le> k (v y) \<longleftrightarrow> k' x \<le> k' y" by (rule agree_le_conv[OF Cons.prems]) simp_all
  ultimately show ?case using Cons.IH by simp
qed simp

lemma sort_key_map:
  assumes "agree_le v (set ds) k k'"
  shows "sort_key k (map v ds) = map v (sort_key k' ds)"
  using assms
proof (induction ds)
  case (Cons d ds)
  have "agree_le v (set ds) k k'" by (rule agree_le_subset[OF Cons.prems]) auto
  moreover have "agree_le v (insert d (set (sort_key k' ds))) k k'" using Cons.prems by simp
  ultimately show ?case using Cons.IH insort_key_map[of v d "sort_key k' ds" k k'] by simp
qed simp

lemma py_sort_map: "agree_le v (set ds) k k' \<Longrightarrow> py_sort k reverse (map v ds) = map v (py_sort k' reverse ds)"
  using sort_key_map[of v ds k k'] sort_key_map[of v "rev ds" k k'] by (simp add: py_sort_def rev_map)

lemma set_py_sort [simp]: "set (py_sort k reverse xs) = set xs"
  by (simp add: py_sort_def)

lemma page_slice_map: "page_slice page (map v ds) = map v (page_slice page ds)"
  by (simp add: page_slice_def Let_def take_map drop_map)

lemma set_page_slice: "set (page_slice page xs) \<subseteq> set xs"
  unfolding page_slice_def Let_def using set_take_subset set_drop_subset by fast

lemma rollup_map:
  assumes "\<forall>d \<in> set ds. label (v d) = label' d \<and> cost (v d) = cost' d"
  shows "rollup_rows label cost (map v ds) = rollup_rows label' cost' ds"
  unfolding rollup_rows_def fold_map using assms by (intro fold_cong) (auto simp: o_def)

lemma filter_map_agree: "\<forall>d \<in> set ds. Q (v d) = Q' d \<Longrightarrow> filter Q (map v ds) = map v (filter Q' ds)"
  by (induction ds) auto

lemma validate_all_map: "\<forall>d \<in> set ds. pd_validate P d = Inr (v d) \<Longrightarrow> validate_all P ds = Inr (map v ds)"
  by (induction ds) auto

section \<open>Reads of the local part\<close>

text \<open>The instants the writers use are ordered by their text as they are in time, and the text is read back.\<close>

definition clock_text :: "(instant \<Rightarrow> string) \<Rightarrow> (string \<Rightarrow> instant option) \<Rightarrow> instant set \<Rightarrow> bool" where
  "clock_text stamp fi T \<longleftrightarrow> (\<forall>s \<in> T. \<forall>t \<in> T. stamp s \<le> stamp t \<longleftrightarrow> s \<le> t) \<and> (\<forall>t \<in> T. fi (stamp t) = Some t)"

lemma clock_text_inj: "clock_text stamp fi T \<Longrightarrow> inj_on stamp T"
  unfolding clock_text_def by (intro inj_onI) (metis order.antisym order.refl)

text \<open>The record a row stands for.\<close>

definition rec_of :: "pydantic \<Rightarrow> payload \<Rightarrow> task_snapshot" where
  "rec_of P d = projr (pd_validate P d)"

definition good_row :: "pydantic \<Rightarrow> (instant \<Rightarrow> string) \<Rightarrow> instant set \<Rightarrow> payload \<Rightarrow> bool" where
  "good_row P stamp T d \<longleftrightarrow> pd_validate P d = Inr (rec_of P d) \<and> json_row stamp T d (rec_of P d)"

lemma good_row_access:
  assumes "good_row P stamp T d"
  shows "row_tid d = sn_task_id (rec_of P d)" "row_parent d = sn_parent_task_id (rec_of P d)"
    "row_node d = (VStr (sn_task_id (rec_of P d)), VStr (sn_step (rec_of P d)))"
    "created_text d = stamp (sn_created_at (rec_of P d))"
    "got d ''status'' = VStr (sn_status (rec_of P d))"
  using assms row_access[of stamp d "rec_of P d"] encodes_got(5)[of stamp d "rec_of P d"] by (simp_all add: good_row_def json_row_def)

lemma good_row_times:
  assumes "good_row P stamp T d"
  shows "sn_created_at (rec_of P d) \<in> T" "sn_updated_at (rec_of P d) \<in> T" "set_option (sn_expire_at (rec_of P d)) \<subseteq> T"
  using assms by (simp_all add: good_row_def json_row_def)

lemma good_alive:
  assumes "clock_text stamp fi T" "good_row P stamp T d"
  shows "mem_alive now (rec_of P d) \<longleftrightarrow> local_alive fi now d"
proof -
  have "got d ''expire_at'' = opt_val (\<lambda>t. VStr (stamp t)) (sn_expire_at (rec_of P d))"
    using assms(2) encodes_got(10) by (auto simp: good_row_def json_row_def)
  then show ?thesis using assms(1) good_row_times(3)[OF assms(2)]
    by (auto simp: local_alive_def mem_alive_def parse_dt_def opt_val_def clock_text_def Let_def split: option.splits)
qed

lemma good_in_range:
  assumes "clock_text stamp fi T" "good_row P stamp T d"
  shows "in_range r (sn_created_at (rec_of P d)) \<longleftrightarrow> local_in_range fi r d"
proof -
  have "parse_dt fi (got d ''created_at'') = Some (sn_created_at (rec_of P d))"
    using assms encodes_got(8)[of stamp d "rec_of P d"] good_row_times(1)[OF assms(2)]
    by (simp add: good_row_def json_row_def parse_dt_def clock_text_def)
  then show ?thesis by (simp add: in_range_def local_in_range_def split: option.splits)
qed

lemma good_created:
  assumes "clock_text stamp fi T" "\<forall>d \<in> D. good_row P stamp T d"
  shows "agree_le (rec_of P) D sn_created_at created_text"
  unfolding agree_le_def
proof (intro ballI)
  fix d e assume "d \<in> D" "e \<in> D"
  then have "good_row P stamp T d" "good_row P stamp T e" using assms(2) by blast+
  then show "sn_created_at (rec_of P d) \<le> sn_created_at (rec_of P e) \<longleftrightarrow> created_text d \<le> created_text e"
    using assms(1) good_row_times(1)[of P stamp T d] good_row_times(1)[of P stamp T e]
    by (simp add: good_row_access(4) clock_text_def)
qed

lemma good_node:
  assumes "\<forall>d \<in> D. good_row P stamp T d"
  shows "agree (rec_of P) D (\<lambda>s. (sn_task_id s, sn_step s)) row_node"
  unfolding agree_def
proof (intro ballI)
  fix d e assume "d \<in> D" "e \<in> D"
  then have "good_row P stamp T d" "good_row P stamp T e" using assms by blast+
  then show "(sn_task_id (rec_of P d), sn_step (rec_of P d)) = (sn_task_id (rec_of P e), sn_step (rec_of P e)) \<longleftrightarrow> row_node d = row_node e"
    by (simp add: good_row_access(3))
qed

lemma good_sort_key:
  assumes "clock_text stamp fi T" "\<forall>d \<in> D. good_row P stamp T d" "field \<in> set (dget SORT_FIELDS ''snapshot'' [])"
  shows "agree_le (rec_of P) D (mem_sort_key field) (local_sort_key field)"
proof -
  have f: "field = ''created_at'' \<or> field = ''updated_at'' \<or> field = ''expire_at''"
    using assms(3) by (simp add: dget_def SORT_FIELDS_def)
  have g: "got d ''created_at'' = VStr (stamp (sn_created_at (rec_of P d)))" "got d ''updated_at'' = VStr (stamp (sn_updated_at (rec_of P d)))"
      "got d ''expire_at'' = opt_val (\<lambda>t. VStr (stamp t)) (sn_expire_at (rec_of P d))" if "d \<in> D" for d
    using assms(2) that encodes_got(8-10)[of stamp d "rec_of P d"] by (simp_all add: good_row_def json_row_def)
  have mono: "s \<in> T \<Longrightarrow> t \<in> T \<Longrightarrow> stamp s \<le> stamp t \<longleftrightarrow> s \<le> t" for s t using assms(1) by (simp add: clock_text_def)
  show ?thesis unfolding agree_le_def
  proof (intro ballI)
    fix d e assume d: "d \<in> D" and e: "e \<in> D"
    note t = good_row_times[OF assms(2)[rule_format, OF d]] good_row_times[OF assms(2)[rule_format, OF e]]
    show "mem_sort_key field (rec_of P d) \<le> mem_sort_key field (rec_of P e) \<longleftrightarrow> local_sort_key field d \<le> local_sort_key field e"
    proof (cases "field = ''expire_at''")
      case False
      with f consider "field = ''created_at''" | "field = ''updated_at''" by blast
      then show ?thesis
      proof cases
        case 1
        show ?thesis unfolding 1 using mono[OF t(1,4)] by (simp add: mem_sort_key_def local_sort_key_def g(1)[OF d] g(1)[OF e])
      next
        case 2
        show ?thesis unfolding 2 using mono[OF t(2,5)] by (simp add: mem_sort_key_def local_sort_key_def g(2)[OF d] g(2)[OF e])
      qed
    next
      case True
      then show ?thesis using g(3)[OF d] g(3)[OF e] t(3,6) mono
        by (cases "sn_expire_at (rec_of P d)"; cases "sn_expire_at (rec_of P e)")
          (simp_all add: mem_sort_key_def local_sort_key_def Let_def opt_val_def)
    qed
  qed
qed

context pydantic_model
begin

lemma sim_rows:
  assumes "list_all2 (row_sim stamp T) rows snaps"
  shows "map snd snaps = map (rec_of P) (map snd rows) \<and> (\<forall>d \<in> set (map snd rows). good_row P stamp T d)
    \<and> map fst rows = map (val_key \<circ> fst) snaps"
  using assms
proof (induction rule: list_all2_induct)
  case (Cons p ps q qs)
  have "encodes (json_of stamp) (snd p) (snd q)" using Cons.hyps by (simp add: row_sim_def json_row_def)
  then have "pd_validate P (snd p) = Inr (snd q)" by (rule validate_json)
  then show ?case using Cons by (simp add: row_sim_def good_row_def rec_of_def)
qed simp

lemma sim_filter:
  assumes "list_all2 (row_sim stamp T) rows snaps" "\<And>k d. good_row P stamp T d \<Longrightarrow> Q k (rec_of P d) \<longleftrightarrow> Q' (val_key k) d"
  shows "list_all2 (row_sim stamp T) (filter (\<lambda>(k, d). Q' k d) rows) (filter (\<lambda>(k, x). Q k x) snaps)"
  using assms(1)
proof (induction rule: list_all2_induct)
  case (Cons p ps q qs)
  have "good_row P stamp T (snd p)" "rec_of P (snd p) = snd q" "fst p = val_key (fst q)"
    using sim_rows[of T "[p]" "[q]"] Cons.hyps by (simp_all add: row_sim_def)
  then have "Q (fst q) (snd q) \<longleftrightarrow> Q' (fst p) (snd p)" using assms(2)[of "snd p" "fst q"] by simp
  then show ?case using Cons by (cases p; cases q) simp
qed simp

end

lemma map_of_in_vals: "map_of d k = Some x \<Longrightarrow> x \<in> snd ` set d"
  by (metis image_eqI map_of_SomeD snd_conv)

lemma set_up: "set (up n parent by_id cur vis chain) \<subseteq> set chain \<union> snd ` set by_id"
proof (induction n arbitrary: cur vis chain)
  case (Suc n)
  show ?case
  proof (cases "parent cur")
    case (Some p)
    then show ?thesis
    proof (cases "map_of by_id p")
      case (Some x)
      have "set (up n parent by_id x (insert p vis) (chain @ [x])) \<subseteq> set chain \<union> snd ` set by_id"
        using Suc.IH[of x "insert p vis" "chain @ [x]"] map_of_in_vals[OF Some] by auto
      then show ?thesis using Some \<open>parent cur = Some p\<close> by simp
    qed simp
  qed simp
qed simp

lemma set_ancestor_rows: "set (ancestor_rows tid parent created alive t self) \<subseteq> set alive"
proof -
  let ?by_id = "latest_by_id tid created alive"
  have v: "snd ` set ?by_id \<subseteq> set alive"
    using latest_per_node_correct(2)[of tid created alive] by (simp add: latest_by_id_def latest_per_node_def)
  show ?thesis
  proof (cases "map_of ?by_id t")
    case (Some cur)
    then have "cur \<in> set alive" using v map_of_in_vals by fast
    then have "set (if self then [cur] else []) \<union> snd ` set ?by_id \<subseteq> set alive" using v by auto
    from subset_trans[OF set_up this] show ?thesis using Some by (simp add: ancestor_rows_def Let_def)
  qed (simp add: ancestor_rows_def)
qed

lemma comprehension_filter:
  "[s. ((t, st, e), s) \<leftarrow> xs, Q t st e s] = map snd (filter (\<lambda>(k, s). case k of (t, st, e) \<Rightarrow> Q t st e s) xs)"
  by (induction xs) auto

context pydantic_model
begin

lemma rows_validate: "\<forall>d \<in> set ds. good_row P stamp T d \<Longrightarrow> validate_all P ds = Inr (map (rec_of P) ds)"
  by (rule validate_all_map) (simp add: good_row_def)

lemma sim_alive:
  assumes "local_sim stamp T ndjson m" "clock_text stamp fi T"
  shows "filter (mem_alive now) (map snd (ms_snaps m)) = map (rec_of P) (filter (local_alive fi now) (local_rows ndjson))"
    and "\<forall>d \<in> set (local_rows ndjson). good_row P stamp T d"
proof -
  have s: "map snd (ms_snaps m) = map (rec_of P) (local_rows ndjson) \<and> (\<forall>d \<in> set (local_rows ndjson). good_row P stamp T d)"
    using sim_rows assms(1) unfolding local_sim_def local_rows_def by blast
  then show "\<forall>d \<in> set (local_rows ndjson). good_row P stamp T d" by blast
  show "filter (mem_alive now) (map snd (ms_snaps m)) = map (rec_of P) (filter (local_alive fi now) (local_rows ndjson))"
    using s good_alive[OF assms(2)] by (simp add: filter_map_agree)
qed

lemma sim_comprehension:
  assumes "local_sim stamp T ndjson m"
    "\<And>t st e d. good_row P stamp T d \<Longrightarrow> Q t st e (rec_of P d) \<longleftrightarrow> Q' (VStr t) (VStr st) (VStr e) d"
  shows "[s. ((t, st, e), s) \<leftarrow> ms_snaps m, Q t st e s] = map (rec_of P) [d. ((t, st, e), d) \<leftarrow> fst (local_fold ndjson), Q' t st e d]"
    and "\<forall>d \<in> set [d. ((t, st, e), d) \<leftarrow> fst (local_fold ndjson), Q' t st e d]. good_row P stamp T d"
proof -
  have "list_all2 (row_sim stamp T) (filter (\<lambda>(k, d). case k of (t, st, e) \<Rightarrow> Q' t st e d) (fst (local_fold ndjson)))
      (filter (\<lambda>(k, x). case k of (t, st, e) \<Rightarrow> Q t st e x) (ms_snaps m))"
    by (rule sim_filter) (use assms in \<open>auto simp: local_sim_def val_key_def split: prod.splits\<close>)
  from sim_rows[OF this]
  show "[s. ((t, st, e), s) \<leftarrow> ms_snaps m, Q t st e s] = map (rec_of P) [d. ((t, st, e), d) \<leftarrow> fst (local_fold ndjson), Q' t st e d]"
    "\<forall>d \<in> set [d. ((t, st, e), d) \<leftarrow> fst (local_fold ndjson), Q' t st e d]. good_row P stamp T d"
    unfolding comprehension_filter by blast+
qed

lemma newest_refines:
  assumes "clock_text stamp fi T" "\<forall>d \<in> set ds. good_row P stamp T d" "ds \<noteq> []"
  shows "pd_validate P (last (py_sort created_text False ds)) = Inr (last (py_sort sn_created_at False (map (rec_of P) ds)))"
proof -
  have ne: "py_sort created_text False ds \<noteq> []"
    using assms(3) set_py_sort[of created_text False ds] by (metis set_empty)
  have "last (py_sort created_text False ds) \<in> set ds" using last_in_set[OF ne] by simp
  then show ?thesis using assms(2) ne
    by (simp add: py_sort_map[OF good_created[OF assms(1,2)]] last_map good_row_def)
qed

lemma local_get_refines:
  assumes "local_sim stamp T ndjson m" "clock_text stamp fi T"
  shows "local_get P fi now ndjson tid stp eid = Inr (mem_get now m tid stp eid)"
proof -
  let ?ds = "[d. ((t, st, e), d) \<leftarrow> fst (local_fold ndjson),
     t = VStr tid \<and> st = VStr stp \<and> (eid = None \<or> map_option VStr eid = Some e) \<and> local_alive fi now d]"
  let ?xs = "[s. ((t, st, e), s) \<leftarrow> ms_snaps m, t = tid \<and> st = stp \<and> (eid = None \<or> eid = Some e) \<and> mem_alive now s]"
  have q: "t = tid \<and> st = stp \<and> (eid = None \<or> eid = Some e) \<and> mem_alive now (rec_of P d)
      \<longleftrightarrow> VStr t = VStr tid \<and> VStr st = VStr stp \<and> (eid = None \<or> map_option VStr eid = Some (VStr e)) \<and> local_alive fi now d"
    if "good_row P stamp T d" for t st e d
    using good_alive[OF assms(2) that] by (cases eid) auto
  have x: "?xs = map (rec_of P) ?ds" and g: "\<forall>d \<in> set ?ds. good_row P stamp T d"
    using sim_comprehension[OF assms(1), of "\<lambda>t st e s. t = tid \<and> st = stp \<and> (eid = None \<or> eid = Some e) \<and> mem_alive now s"
      "\<lambda>t st e d. t = VStr tid \<and> st = VStr stp \<and> (eid = None \<or> map_option VStr eid = Some e) \<and> local_alive fi now d", OF q] by blast+
  show ?thesis
  proof (cases "?ds = []")
    case False
    show ?thesis unfolding local_get_def mem_get_def Let_def x using False newest_refines[OF assms(2) g False] by simp
  qed (unfold local_get_def mem_get_def Let_def x, simp)
qed

lemma sorted_page_refines:
  assumes "clock_text stamp fi T" "\<forall>d \<in> set ds. good_row P stamp T d" "validate_sort sorting = Inr so"
  shows "validate_all P (page_slice page (py_sort (local_sort_key (so_field so)) (so_desc so) ds))
    = Inr (page_slice page (py_sort (mem_sort_key (so_field so)) (so_desc so) (map (rec_of P) ds)))"
proof -
  have "so_field so \<in> set (dget SORT_FIELDS ''snapshot'' [])"
    using assms(3) by (auto simp: validate_sort_def Let_def split: if_splits)
  from py_sort_map[OF good_sort_key[OF assms(1,2) this]] show ?thesis
    using assms(2) set_page_slice[of page "py_sort (local_sort_key (so_field so)) (so_desc so) ds"]
    by (auto simp: page_slice_map intro!: rows_validate)
qed

lemma local_list_versions_refines:
  assumes "local_sim stamp T ndjson m" "clock_text stamp fi T"
  shows "local_list_versions P fi now ndjson tid stp page sorting = mem_list_versions now m tid stp page sorting"
proof -
  have q: "t = tid \<and> st = stp \<and> mem_alive now (rec_of P d) \<longleftrightarrow> VStr t = VStr tid \<and> VStr st = VStr stp \<and> local_alive fi now d"
    if "good_row P stamp T d" for t st e d
    using good_alive[OF assms(2) that] by auto
  let ?ds = "[d. ((t, st, e), d) \<leftarrow> fst (local_fold ndjson), t = VStr tid \<and> st = VStr stp \<and> local_alive fi now d]"
  let ?xs = "[s. ((t, st, e), s) \<leftarrow> ms_snaps m, t = tid \<and> st = stp \<and> mem_alive now s]"
  have x: "?xs = map (rec_of P) ?ds" and g: "\<forall>d \<in> set ?ds. good_row P stamp T d"
    using sim_comprehension[OF assms(1), of "\<lambda>t st e s. t = tid \<and> st = stp \<and> mem_alive now s"
      "\<lambda>t st e d. t = VStr tid \<and> st = VStr stp \<and> local_alive fi now d", OF q] by blast+
  show ?thesis
  proof (cases "validate_sort sorting")
    case (Inr so)
    show ?thesis unfolding local_list_versions_def mem_list_versions_def Let_def Inr x
      using sorted_page_refines[OF assms(2) g Inr] by simp
  qed (simp add: local_list_versions_def mem_list_versions_def)
qed

lemma latest_refines:
  assumes "clock_text stamp fi T" "\<forall>d \<in> set ds. good_row P stamp T d"
  shows "latest_per_node (\<lambda>s. (sn_task_id s, sn_step s)) sn_created_at (map (rec_of P) ds) = map (rec_of P) (latest_per_node row_node created_text ds)"
    and "\<forall>d \<in> set (latest_per_node row_node created_text ds). good_row P stamp T d"
proof -
  show "latest_per_node (\<lambda>s. (sn_task_id s, sn_step s)) sn_created_at (map (rec_of P) ds) = map (rec_of P) (latest_per_node row_node created_text ds)"
    by (rule latest_per_node_map[OF good_node[OF assms(2)] good_created[OF assms]])
  show "\<forall>d \<in> set (latest_per_node row_node created_text ds). good_row P stamp T d"
    using assms(2) latest_per_node_correct(2)[of row_node created_text ds] by blast
qed

lemma local_get_tree_refines:
  assumes "local_sim stamp T ndjson m" "clock_text stamp fi T"
  shows "local_get_tree P fi now ndjson start max_depth latest_only = Inr (mem_get_tree now m start max_depth latest_only)"
proof -
  let ?ds = "filter (local_alive fi now) (local_rows ndjson)"
  let ?out = "tree_rows row_tid row_parent ?ds start max_depth"
  note A = sim_alive[OF assms]
  have g: "\<forall>d \<in> set ?ds. good_row P stamp T d" using A(2) by simp
  have "\<forall>d \<in> set ?ds. sn_task_id (rec_of P d) = row_tid d \<and> sn_parent_task_id (rec_of P d) = row_parent d"
    using g good_row_access(1,2) by fastforce
  note t = tree_rows_map[where v = "rec_of P" and tid = sn_task_id and parent = sn_parent_task_id and tid' = row_tid and parent' = row_parent,
      OF this, of start max_depth]
  have go: "\<forall>d \<in> set ?out. good_row P stamp T d" using g tree_rows_subset[of row_tid row_parent ?ds start max_depth] by blast
  show ?thesis
    using rows_validate[OF go] rows_validate[OF latest_refines(2)[OF assms(2) go]] latest_refines(1)[OF assms(2) go]
    by (simp add: local_get_tree_def mem_get_tree_def Let_def A(1) t)
qed

lemma local_list_children_refines:
  assumes "local_sim stamp T ndjson m" "clock_text stamp fi T"
  shows "local_list_children P fi now ndjson pid latest_only = Inr (mem_list_children now m pid latest_only)"
proof -
  let ?ds = "filter (\<lambda>d. row_parent d = Some pid \<and> local_alive fi now d) (local_rows ndjson)"
  have s: "map snd (ms_snaps m) = map (rec_of P) (local_rows ndjson)" "\<forall>d \<in> set (local_rows ndjson). good_row P stamp T d"
    using sim_rows assms(1) unfolding local_sim_def local_rows_def by blast+
  have "\<forall>d \<in> set (local_rows ndjson). (sn_parent_task_id (rec_of P d) = Some pid \<and> mem_alive now (rec_of P d))
      = (row_parent d = Some pid \<and> local_alive fi now d)"
    using s(2) good_alive[OF assms(2)] good_row_access(2) by fastforce
  note f = filter_map_agree[where v = "rec_of P" and Q = "\<lambda>s. sn_parent_task_id s = Some pid \<and> mem_alive now s"
      and Q' = "\<lambda>d. row_parent d = Some pid \<and> local_alive fi now d", OF this]
  have g: "\<forall>d \<in> set ?ds. good_row P stamp T d" using s(2) by simp
  show ?thesis
    using rows_validate[OF g] rows_validate[OF latest_refines(2)[OF assms(2) g]] latest_refines(1)[OF assms(2) g]
    by (simp add: local_list_children_def mem_list_children_def Let_def s(1) f)
qed

lemma local_get_ancestors_refines:
  assumes "local_sim stamp T ndjson m" "clock_text stamp fi T"
  shows "local_get_ancestors P fi now ndjson t self = Inr (mem_get_ancestors now m t self)"
proof -
  let ?ds = "filter (local_alive fi now) (local_rows ndjson)"
  note A = sim_alive[OF assms]
  have g: "\<forall>d \<in> set ?ds. good_row P stamp T d" using A(2) by simp
  have acc: "\<forall>d \<in> set ?ds. sn_task_id (rec_of P d) = row_tid d \<and> sn_parent_task_id (rec_of P d) = row_parent d"
    using g good_row_access(1,2) by fastforce
  have "\<forall>d \<in> set (ancestor_rows row_tid row_parent created_text ?ds t self). good_row P stamp T d"
    using g set_ancestor_rows[of row_tid row_parent created_text ?ds t self] by (meson subsetD)
  from rows_validate[OF this] show ?thesis
    using ancestor_rows_map[where v = "rec_of P" and tid = sn_task_id and parent = sn_parent_task_id and tid' = row_tid and parent' = row_parent,
      OF acc good_created[OF assms(2) g], of t self]
    by (simp add: local_get_ancestors_def mem_get_ancestors_def A(1))
qed

end

context pydantic_model
begin

lemma sim_selected:
  assumes "local_sim stamp T ndjson m" "clock_text stamp fi T"
    "rows = latest_per_node row_node created_text (filter (local_alive fi now) (local_rows ndjson))"
    "xs = latest_per_node (\<lambda>s. (sn_task_id s, sn_step s)) sn_created_at (filter (mem_alive now) (map snd (ms_snaps m)))"
  shows "xs = map (rec_of P) rows" "\<forall>d \<in> set rows. good_row P stamp T d"
proof -
  note A = sim_alive[OF assms(1,2)]
  have g: "\<forall>d \<in> set (filter (local_alive fi now) (local_rows ndjson)). good_row P stamp T d" using A(2) by simp
  show "xs = map (rec_of P) rows" unfolding assms(3,4) A(1) by (rule latest_refines(1)[OF assms(2) g])
  show "\<forall>d \<in> set rows. good_row P stamp T d" unfolding assms(3) by (rule latest_refines(2)[OF assms(2) g])
qed

lemma sim_restrict:
  assumes "\<forall>d \<in> set rows. good_row P stamp T d" "\<And>d. good_row P stamp T d \<Longrightarrow> Q (rec_of P d) \<longleftrightarrow> Q' d"
  shows "filter Q (map (rec_of P) rows) = map (rec_of P) (filter Q' rows)" "\<forall>d \<in> set (filter Q' rows). good_row P stamp T d"
  using assms by (simp_all add: filter_map_agree)

lemma sim_optional:
  assumes "xs = map (rec_of P) rows" "\<forall>d \<in> set rows. good_row P stamp T d"
    "\<And>a d. good_row P stamp T d \<Longrightarrow> Q a (rec_of P d) \<longleftrightarrow> Q' a d"
  shows "(case sel of None \<Rightarrow> xs | Some a \<Rightarrow> filter (Q a) xs) = map (rec_of P) (case sel of None \<Rightarrow> rows | Some a \<Rightarrow> filter (Q' a) rows)"
    "\<forall>d \<in> set (case sel of None \<Rightarrow> rows | Some a \<Rightarrow> filter (Q' a) rows). good_row P stamp T d"
  using sim_restrict[OF assms(2), of "Q a" "Q' a" for a] assms by (cases sel; simp)+

lemma local_query_refines:
  assumes "local_sim stamp T ndjson m" "clock_text stamp fi T"
  shows "local_query P fi now ndjson status pid trange page sorting = mem_query now m status pid trange page sorting"
proof (cases "validate_sort sorting")
  case (Inr so)
  define r0 where "r0 = latest_per_node row_node created_text (filter (local_alive fi now) (local_rows ndjson))"
  define x0 where "x0 = latest_per_node (\<lambda>s. (sn_task_id s, sn_step s)) sn_created_at (filter (mem_alive now) (map snd (ms_snaps m)))"
  define r1 where "r1 = (case status of None \<Rightarrow> r0 | Some st \<Rightarrow> filter (\<lambda>d. got d ''status'' = VStr st) r0)"
  define x1 where "x1 = (case status of None \<Rightarrow> x0 | Some st \<Rightarrow> filter (\<lambda>s. sn_status s = st) x0)"
  define r2 where "r2 = (case pid of None \<Rightarrow> r1 | Some p \<Rightarrow> filter (\<lambda>d. row_parent d = Some p) r1)"
  define x2 where "x2 = (case pid of None \<Rightarrow> x1 | Some p \<Rightarrow> filter (\<lambda>s. sn_parent_task_id s = Some p) x1)"
  note s0 = sim_selected[OF assms r0_def x0_def]
  have s1: "x1 = map (rec_of P) r1" "\<forall>d \<in> set r1. good_row P stamp T d"
    using sim_optional[OF s0, of "\<lambda>st s. sn_status s = st" "\<lambda>st d. got d ''status'' = VStr st" status]
    by (simp_all add: x1_def r1_def good_row_access(5))
  have s2: "x2 = map (rec_of P) r2" "\<forall>d \<in> set r2. good_row P stamp T d"
    using sim_optional[OF s1, of "\<lambda>p s. sn_parent_task_id s = Some p" "\<lambda>p d. row_parent d = Some p" pid]
    by (simp_all add: x2_def r2_def good_row_access(2))
  note s3 = sim_restrict[OF s2(2), of "\<lambda>s. in_range trange (sn_created_at s)" "local_in_range fi trange", OF good_in_range[OF assms(2)]]
  have "local_query P fi now ndjson status pid trange page sorting
      = validate_all P (page_slice page (py_sort (local_sort_key (so_field so)) (so_desc so) (filter (local_in_range fi trange) r2)))"
    unfolding local_query_def Let_def Inr r2_def r1_def r0_def by simp
  moreover have "mem_query now m status pid trange page sorting
      = Inr (page_slice page (py_sort (mem_sort_key (so_field so)) (so_desc so) (filter (\<lambda>s. in_range trange (sn_created_at s)) x2)))"
    unfolding mem_query_def Let_def Inr x2_def x1_def x0_def by simp
  ultimately show ?thesis using sorted_page_refines[OF assms(2) s3(2) Inr] by (simp add: s2(1) s3(1))
qed (simp add: local_query_def mem_query_def Let_def)

lemma local_aggregate_refines:
  assumes "local_sim stamp T ndjson m" "clock_text stamp fi T" "group_by \<noteq> ''model''"
  shows "local_aggregate fi now ndjson group_by pid trange = mem_aggregate now m group_by pid trange"
proof (cases "group_by = ''status''")
  case True
  define r0 where "r0 = latest_per_node row_node created_text (filter (local_alive fi now) (local_rows ndjson))"
  define x0 where "x0 = latest_per_node (\<lambda>s. (sn_task_id s, sn_step s)) sn_created_at (filter (mem_alive now) (map snd (ms_snaps m)))"
  define r1 where "r1 = (case pid of None \<Rightarrow> r0 | Some p \<Rightarrow> filter (\<lambda>d. row_parent d = Some p) r0)"
  define x1 where "x1 = (case pid of None \<Rightarrow> x0 | Some p \<Rightarrow> filter (\<lambda>s. sn_parent_task_id s = Some p) x0)"
  note s0 = sim_selected[OF assms(1,2) r0_def x0_def]
  have s1: "x1 = map (rec_of P) r1" "\<forall>d \<in> set r1. good_row P stamp T d"
    using sim_optional[OF s0, of "\<lambda>p s. sn_parent_task_id s = Some p" "\<lambda>p d. row_parent d = Some p" pid]
    by (simp_all add: x1_def r1_def good_row_access(2))
  note s2 = sim_restrict[OF s1(2), of "\<lambda>s. in_range trange (sn_created_at s)" "local_in_range fi trange", OF good_in_range[OF assms(2)]]
  have "mem_label ''status'' (rec_of P d) = local_label ''status'' d \<and> sn_cost (rec_of P d) = v_cost_opt (got d ''cost'')"
    if "good_row P stamp T d" for d
    using good_row_access(5)[OF that] that encodes_got(6)[of stamp d "rec_of P d"]
    by (simp add: mem_label_def local_label_def dget_got good_row_def json_row_def)
  then have "rollup_rows (mem_label ''status'') sn_cost (map (rec_of P) (filter (local_in_range fi trange) r1))
      = rollup_rows (local_label ''status'') (\<lambda>d. v_cost_opt (got d ''cost'')) (filter (local_in_range fi trange) r1)"
    by (intro rollup_map) (use s2(2) in blast)
  moreover have "local_aggregate fi now ndjson group_by pid trange
      = Inr (rollup_rows (local_label ''status'') (\<lambda>d. v_cost_opt (got d ''cost'')) (filter (local_in_range fi trange) r1))"
    unfolding local_aggregate_def Let_def True r1_def r0_def by (simp add: dget_def GROUP_BY_FIELDS_def)
  moreover have "mem_aggregate now m group_by pid trange
      = Inr (rollup_rows (mem_label ''status'') sn_cost (filter (\<lambda>s. in_range trange (sn_created_at s)) x1))"
    unfolding mem_aggregate_def Let_def True x1_def x0_def by (simp add: dget_def GROUP_BY_FIELDS_def)
  ultimately show ?thesis by (simp add: s1(1) s2(1))
next
  case False
  with assms(3) show ?thesis by (simp add: local_aggregate_def mem_aggregate_def dget_def GROUP_BY_FIELDS_def)
qed

end

section \<open>Both parts against the contract\<close>

lemma run_ops_sim:
  assumes "\<And>s a b. R a b \<Longrightarrow> C s \<Longrightarrow> fst (f s a) = fst (f' s b) \<and> R (snd (f s a)) (snd (f' s b))"
    "\<And>s a b. R a b \<Longrightarrow> C s \<Longrightarrow> fst (g s a) = fst (g' s b) \<and> R (snd (g s a)) (snd (g' s b))"
    "R a b" "\<forall>x \<in> set ops. C (op_snap x)"
  shows "fst (run_ops f g ops a) = fst (run_ops f' g' ops b) \<and> R (snd (run_ops f g ops a)) (snd (run_ops f' g' ops b))"
  using assms(3,4)
proof (induction ops arbitrary: a b)
  case (Cons x ops)
  have c: "C (op_snap x)" using Cons.prems(2) by simp
  show ?case
  proof (cases x)
    case (Save s)
    with assms(1)[OF Cons.prems(1), of s] c Cons.IH[of "snd (f s a)" "snd (f' s b)"] Cons.prems(2) show ?thesis
      by (simp add: split_beta Let_def)
  next
    case (SaveTerminal s)
    with assms(2)[OF Cons.prems(1), of s] c Cons.IH[of "snd (g s a)" "snd (g' s b)"] Cons.prems(2) show ?thesis
      by (simp add: split_beta Let_def)
  qed
qed simp

lemma local_sim_init: "local_sim stamp T [] mem_snaps_init"
  by (simp add: local_sim_def local_fold_def mem_snaps_init_def)

lemma local_runs:
  assumes "pydantic_model P stamp" "inj_on stamp T" "\<forall>x \<in> set ops. in_times T (op_snap x)"
  shows "fst (run_ops (local_save P) (local_save_terminal P) ops []) = fst (run_ops spec_save spec_save_terminal ops mem_snaps_init)
    \<and> local_sim stamp T (snd (run_ops (local_save P) (local_save_terminal P) ops [])) (snd (run_ops spec_save spec_save_terminal ops mem_snaps_init))"
  by (rule run_ops_sim[where R = "local_sim stamp T" and C = "in_times T"])
    (use assms local_sim_init pydantic_model.local_save_refines[OF assms(1)]
      pydantic_model.local_save_terminal_refines[OF assms(1,2)] in blast)+

text \<open>C36. The local-file part implements the snapshot contract.  For every sequence of saves and terminal saves, each write
  has the outcome the contract gives it, and every read of the log at the end, of one snapshot, of the versions of a node, of
  a tree, of the children, of the ancestors, by filter, or rolled up by status, returns what the contract's store of
  records answers, provided the texts of the instants used order as the instants do.\<close>

theorem local_part_refines_contract:
  assumes "pydantic_model P stamp" "clock_text stamp fi T" "\<forall>x \<in> set ops. in_times T (op_snap x)"
    "(outcomes, ndjson) = run_ops (local_save P) (local_save_terminal P) ops []"
    "(expected, m) = run_ops spec_save spec_save_terminal ops mem_snaps_init"
  shows "outcomes = expected
    \<and> local_get P fi now ndjson tid stp eid = Inr (mem_get now m tid stp eid)
    \<and> local_list_versions P fi now ndjson tid stp page sorting = mem_list_versions now m tid stp page sorting
    \<and> local_get_tree P fi now ndjson tid max_depth latest = Inr (mem_get_tree now m tid max_depth latest)
    \<and> local_list_children P fi now ndjson tid latest = Inr (mem_list_children now m tid latest)
    \<and> local_get_ancestors P fi now ndjson tid self = Inr (mem_get_ancestors now m tid self)
    \<and> local_query P fi now ndjson status pid trange page sorting = mem_query now m status pid trange page sorting
    \<and> local_aggregate fi now ndjson ''status'' pid trange = mem_aggregate now m ''status'' pid trange"
proof -
  have "outcomes = expected \<and> local_sim stamp T ndjson m"
    using local_runs[OF assms(1) clock_text_inj[OF assms(2)] assms(3)] unfolding assms(4,5)[symmetric] by simp
  then have eq: "outcomes = expected" and sim: "local_sim stamp T ndjson m" by simp_all
  show ?thesis
    by (intro conjI eq pydantic_model.local_get_refines[OF assms(1) sim assms(2)]
        pydantic_model.local_list_versions_refines[OF assms(1) sim assms(2)]
        pydantic_model.local_get_tree_refines[OF assms(1) sim assms(2)]
        pydantic_model.local_list_children_refines[OF assms(1) sim assms(2)]
        pydantic_model.local_get_ancestors_refines[OF assms(1) sim assms(2)]
        pydantic_model.local_query_refines[OF assms(1) sim assms(2)]
        pydantic_model.local_aggregate_refines[OF assms(1) sim assms(2)]) simp
qed

lemma replicate_le: "replicate a c \<le> replicate b (c :: char) \<longleftrightarrow> a \<le> b"
  by (induction a arbitrary: b) (case_tac b; simp)+

lemma clock_text_ref: "clock_text ref_stamp (\<lambda>s. Some (ref_unstamp s)) {t. 0 \<le> t}"
  by (simp add: clock_text_def ref_stamp_def replicate_le nat_le_eq_zle) (simp add: ref_unstamp_def)

theorem local_part_refines_contract_witness:
  "let ndjson = snd (run_ops (local_save ref_pydantic) (local_save_terminal ref_pydantic)
        [Save (demo_snap ''a'' None), SaveTerminal (demo_snap ''a'' None\<lparr>sn_status := ''done''\<rparr>)] [])
   in map_sum id (map_option sn_status) (local_get ref_pydantic (\<lambda>s. Some (ref_unstamp s)) 5 ndjson ''a'' ''s'' None) = Inr (Some ''done'')"
proof -
  let ?ops = "[Save (demo_snap ''a'' None), SaveTerminal (demo_snap ''a'' None\<lparr>sn_status := ''done''\<rparr>)]"
  have t: "\<forall>x \<in> set ?ops. in_times {t. 0 \<le> t} (op_snap x)" by (simp add: in_times_def demo_snap_def)
  have "local_get ref_pydantic (\<lambda>s. Some (ref_unstamp s)) 5
      (snd (run_ops (local_save ref_pydantic) (local_save_terminal ref_pydantic) ?ops [])) ''a'' ''s'' None
      = Inr (mem_get 5 (snd (run_ops spec_save spec_save_terminal ?ops mem_snaps_init)) ''a'' ''s'' None)"
    using local_part_refines_contract[OF ref.pydantic_model_axioms clock_text_ref t surjective_pairing[symmetric] surjective_pairing[symmetric]]
    by blast
  moreover have "mem_get 5 (snd (run_ops spec_save spec_save_terminal ?ops mem_snaps_init)) ''a'' ''s'' None = Some (demo_snap ''a'' None\<lparr>sn_status := ''done''\<rparr>)"
    by (simp add: mem_snaps_init_def spec_save_def spec_save_terminal_def spec_upsert_def key_of_def demo_snap_def snap_merge_def
        or_else_def mem_get_def py_sort_def mem_alive_def)
  ultimately show ?thesis by (simp add: Let_def demo_snap_def)
qed

text \<open>A terminal save of the sequence either opens its generation or repeats a terminal save of it.\<close>

fun terminal_first :: "snap_key set \<Rightarrow> snap_key set \<Rightarrow> snap_op list \<Rightarrow> bool" where
  "terminal_first seen final [] = True"
| "terminal_first seen final (Save s # ops) = terminal_first (insert (key_of s) seen) final ops"
| "terminal_first seen final (SaveTerminal s # ops) =
     ((key_of s \<in> seen \<longrightarrow> key_of s \<in> final) \<and> terminal_first (insert (key_of s) seen) (insert (key_of s) final) ops)"

definition tracks :: "snap_key set \<Rightarrow> snap_key set \<Rightarrow> mem_snaps \<Rightarrow> bool" where
  "tracks seen final m \<longleftrightarrow> keyed m \<and> fst ` set (ms_snaps m) = seen \<and> ms_terminal m = final"

lemma dom_upsert: "fst ` set (ms_snaps (spec_upsert s m)) = insert (key_of s) (fst ` set (ms_snaps m))"
  by (simp add: spec_upsert_def dom_update)

lemma seen_lookup: "map_of (ms_snaps m) k = None \<longleftrightarrow> k \<notin> fst ` set (ms_snaps m)"
  by (rule map_of_eq_None_iff)

lemma tracks_save: "tracks seen final m \<Longrightarrow> tracks (insert (key_of s) seen) final (snd (spec_save s m))"
proof -
  assume t: "tracks seen final m"
  have "ms_terminal (snd (spec_save s m)) = ms_terminal m \<and> fst ` set (ms_snaps (snd (spec_save s m))) = insert (key_of s) (fst ` set (ms_snaps m))"
  proof (cases "map_of (ms_snaps m) (key_of s)")
    case (Some x)
    then have "key_of s \<in> fst ` set (ms_snaps m)" using seen_lookup[of m "key_of s"] by auto
    then have "fst ` set (ms_snaps m) = insert (key_of s) (fst ` set (ms_snaps m))" by (rule insert_absorb[symmetric])
    moreover have "ms_terminal (spec_upsert s m) = ms_terminal m" by (simp add: spec_upsert_def)
    ultimately show ?thesis using Some dom_upsert[of s m] by (simp add: spec_save_def)
  next
    case None
    then show ?thesis using dom_upsert[of s m] by (simp add: spec_save_def) (simp add: spec_upsert_def)
  qed
  then show ?thesis using t keyed_spec_save[of m s] by (simp add: tracks_def)
qed

lemma tracks_save_terminal:
  assumes "tracks seen final m"
  shows "tracks (insert (key_of s) seen) (insert (key_of s) final) (snd (spec_save_terminal s m))"
proof -
  let ?m = "snd (spec_save_terminal s m)"
  have "ms_terminal ?m = insert (key_of s) (ms_terminal m) \<and> fst ` set (ms_snaps ?m) = insert (key_of s) (fst ` set (ms_snaps m))"
  proof (cases "key_of s \<in> ms_terminal m \<and> map_of (ms_snaps m) (key_of s) \<noteq> None")
    case True
    then have "key_of s \<in> fst ` set (ms_snaps m)" using seen_lookup[of m "key_of s"] by auto
    then have "fst ` set (ms_snaps m) = insert (key_of s) (fst ` set (ms_snaps m))" by (rule insert_absorb[symmetric])
    then show ?thesis using True by (simp add: spec_save_terminal_def insert_absorb)
  next
    case False
    then have "?m = (spec_upsert s m)\<lparr>ms_terminal := insert (key_of s) (ms_terminal m)\<rparr>"
      unfolding spec_save_terminal_def if_not_P[OF False] by simp
    then show ?thesis using dom_upsert[of s m] by simp
  qed
  then show ?thesis using assms keyed_spec_save_terminal[of m s] by (simp add: tracks_def)
qed

lemma mem_runs:
  assumes "pydantic_model P stamp" "tracks seen final m" "terminal_first seen final ops"
  shows "run_ops (mem_save P) (mem_save_terminal P) ops m = run_ops spec_save spec_save_terminal ops m"
  using assms(2,3)
proof (induction seen final ops arbitrary: m rule: terminal_first.induct)
  case (2 seen final s ops)
  have "mem_save P s m = spec_save s m" using pydantic_model.mem_save_spec[OF assms(1)] 2(2) by (simp add: tracks_def)
  with 2 tracks_save[OF 2(2), of s] show ?case by (simp add: split_beta Let_def)
next
  case (3 seen final s ops)
  have "map_of (ms_snaps m) (key_of s) = None \<or> key_of s \<in> ms_terminal m"
    using 3(2,3) seen_lookup[of m "key_of s"] by (auto simp: tracks_def)
  then have "mem_save_terminal P s m = spec_save_terminal s m" by (rule pydantic_model.mem_save_terminal_spec[OF assms(1)])
  with 3 tracks_save_terminal[OF 3(2), of s] show ?case by (simp add: split_beta Let_def)
qed simp

text \<open>C37. The in-memory part implements the contract where no terminal save completes a running generation: if every
  terminal save opens its generation or repeats a terminal save of it, every sequence of writes has the outcomes and leaves
  the records and the terminal marks the contract prescribes.\<close>

theorem mem_part_refines_contract:
  assumes "pydantic_model P stamp" "terminal_first {} {} ops"
  shows "run_ops (mem_save P) (mem_save_terminal P) ops mem_snaps_init = run_ops spec_save spec_save_terminal ops mem_snaps_init"
proof (rule mem_runs[OF assms(1) _ assms(2)])
  show "tracks {} {} mem_snaps_init" by (simp add: tracks_def) (simp add: mem_snaps_init_def)
qed

theorem mem_part_refines_contract_witness:
  "fst (run_ops (mem_save ref_pydantic) (mem_save_terminal ref_pydantic)
     [SaveTerminal (demo_snap ''a'' None), Save (demo_snap ''a'' None\<lparr>sn_status := ''late''\<rparr>), SaveTerminal (demo_snap ''a'' None)]
     mem_snaps_init) = [Inr (), Inl TerminalStateViolation, Inr ()]"
  by (subst mem_part_refines_contract[OF ref.pydantic_model_axioms])
    (simp_all add: mem_snaps_init_def spec_save_def spec_save_terminal_def spec_upsert_def key_of_def demo_snap_def same_business_def)

text \<open>C38. A terminal save loses data in memory and keeps it on disk.  When a generation without an expiry instant is saved and then saved as
  terminal, the in-memory part answers with the terminal snapshot alone, so that a cost, model, pointer or error that only the
  first save carried is gone and the creation instant is the later one, while the local part answers with the two merged,
  as the contract says.\<close>

theorem mem_terminal_save_forgets:
  assumes "pydantic_model P stamp" "clock_text stamp fi T" "in_times T x" "in_times T s" "key_of x = key_of s"
    "sn_expire_at x = None" "sn_expire_at s = None"
    "m = snd (run_ops (mem_save P) (mem_save_terminal P) [Save x, SaveTerminal s] mem_snaps_init)"
    "ndjson = snd (run_ops (local_save P) (local_save_terminal P) [Save x, SaveTerminal s] [])"
  shows "mem_get now m (sn_task_id s) (sn_step s) None = Some s
    \<and> local_get P fi now ndjson (sn_task_id s) (sn_step s) None = Inr (Some (snap_merge x s))"
proof
  have k: "sn_task_id x = sn_task_id s" "sn_step x = sn_step s" "sn_execution_id x = sn_execution_id s"
    using assms(5) by (simp_all add: key_of_def)
  let ?m1 = "snd (spec_save x mem_snaps_init)"
  have m1: "?m1 = \<lparr>ms_snaps = [(key_of s, x)], ms_terminal = {}\<rparr>"
    by (simp add: spec_save_def mem_snaps_init_def spec_upsert_def assms(5))
  have "mem_save P x mem_snaps_init = spec_save x mem_snaps_init" by (rule pydantic_model.mem_save_spec[OF assms(1) keyed_init])
  then have "m = \<lparr>ms_snaps = [(key_of s, s)], ms_terminal = {key_of s}\<rparr>"
    using pydantic_model.mem_save_terminal_replaces[OF assms(1), of s ?m1] m1 by (simp add: assms(8) split_beta Let_def)
  then show "mem_get now m (sn_task_id s) (sn_step s) None = Some s"
    by (simp add: mem_get_def key_of_def mem_alive_def assms(7) py_sort_def)
  have t: "\<forall>y \<in> set [Save x, SaveTerminal s]. in_times T (op_snap y)" using assms(3,4) by simp
  have "local_sim stamp T ndjson (snd (run_ops spec_save spec_save_terminal [Save x, SaveTerminal s] mem_snaps_init))"
    using local_runs[OF assms(1) clock_text_inj[OF assms(2)] t] assms(9) by simp
  note g = pydantic_model.local_get_refines[OF assms(1) this assms(2), of now "sn_task_id s" "sn_step s" None]
  have "snd (run_ops spec_save spec_save_terminal [Save x, SaveTerminal s] mem_snaps_init)
      = \<lparr>ms_snaps = [(key_of s, snap_merge x s)], ms_terminal = {key_of s}\<rparr>"
    using m1 by (simp add: split_beta Let_def spec_save_terminal_def spec_upsert_def)
  then show "local_get P fi now ndjson (sn_task_id s) (sn_step s) None = Inr (Some (snap_merge x s))"
    unfolding g by (simp add: mem_get_def key_of_def mem_alive_def snap_merge_def or_else_def assms(6,7) py_sort_def)
qed

theorem mem_terminal_save_forgets_witness:
  "let x = demo_snap ''a'' None\<lparr>sn_cost := Some [(''tokens'', 7)]\<rparr>; s = demo_snap ''a'' None\<lparr>sn_status := ''done''\<rparr>;
       m = snd (run_ops (mem_save ref_pydantic) (mem_save_terminal ref_pydantic) [Save x, SaveTerminal s] mem_snaps_init);
       ndjson = snd (run_ops (local_save ref_pydantic) (local_save_terminal ref_pydantic) [Save x, SaveTerminal s] [])
   in map_option sn_cost (mem_get 5 m ''a'' ''s'' None) = Some None
    \<and> map_sum id (map_option sn_cost) (local_get ref_pydantic (\<lambda>s. Some (ref_unstamp s)) 5 ndjson ''a'' ''s'' None) = Inr (Some (Some [(''tokens'', 7)]))"
proof -
  let ?x = "demo_snap ''a'' None\<lparr>sn_cost := Some [(''tokens'', 7)]\<rparr>" and ?s = "demo_snap ''a'' None\<lparr>sn_status := ''done''\<rparr>"
  have "in_times {t. 0 \<le> t} ?x" "in_times {t. 0 \<le> t} ?s" "key_of ?x = key_of ?s" "sn_expire_at ?x = None" "sn_expire_at ?s = None"
    by (simp_all add: in_times_def demo_snap_def key_of_def)
  from mem_terminal_save_forgets[OF ref.pydantic_model_axioms clock_text_ref this refl refl, of 5]
  show ?thesis by (simp add: Let_def demo_snap_def snap_merge_def or_else_def del: run_ops.simps)
qed

text \<open>Rolled up by model, a snapshot without a model is counted under \<^verbatim>\<open>None\<close> by one part and under \<^verbatim>\<open>unknown\<close> by
  the other.\<close>

theorem model_labels_differ:
  assumes "good_row P stamp T d" "sn_model (rec_of P d) = None"
  shows "mem_label ''model'' (rec_of P d) = ''None'' \<and> local_label ''model'' d = ''unknown''"
proof -
  have "encodes (json_of stamp) d (rec_of P d)" "VNull \<notin> snd ` set d" using assms(1) by (simp_all add: good_row_def json_row_def)
  then have "map_of d ''model'' = None"
    using encodes_got(7)[of stamp d "rec_of P d"] got_nonnull[of d "''model''"] assms(2) by (simp add: opt_val_def)
  then show ?thesis using assms(2) by (simp add: mem_label_def local_label_def dget_def)
qed

end
