(* ===== verification/Dependency.thy ===== *)
theory Dependency
  imports Lifecycle
begin

text \<open>
  Dependency governance (\<^verbatim>\<open>flow/governance/dependency.py\<close>): registration of a task with several parents, the
  counter that says when it is ready, cancel votes, terminal notifications.  The governor works on a task storage with
  the dependency primitives; the audit writer, the graph store and the canceller are optional collaborators.
  A status that is not a string, and members of \<^verbatim>\<open>depends_on\<close> that are not strings, do not occur.
\<close>

section \<open>Collaborators\<close>

record 's dep_storage =
  dp_base :: "'s storage"
  dp_sadd_active_child :: "string \<Rightarrow> string \<Rightarrow> ('s, unit) py"
  dp_srem_active_child :: "string \<Rightarrow> string \<Rightarrow> ('s, unit) py"
  dp_get_active_children :: "string \<Rightarrow> ('s, string list) py"
  dp_set_remaining_deps :: "string \<Rightarrow> int \<Rightarrow> ('s, unit) py"
  dp_decr_remaining_deps :: "string \<Rightarrow> ('s, int) py"
  dp_vote_and_check_threshold :: "string \<Rightarrow> string \<Rightarrow> int \<Rightarrow> ('s, bool) py"
  dp_clear_cancel_votes :: "string \<Rightarrow> ('s, unit) py"
  dp_sadd_result_consumer :: "string \<Rightarrow> string \<Rightarrow> ('s, bool) py"
  dp_list_ready_dep_tasks :: "string option \<Rightarrow> ('s, string list) py"

record audit_event =
  ae_event_id :: string
  ae_task_id :: string
  ae_scope :: "string option"
  ae_event_type :: string
  ae_source :: string
  ae_payload :: jdict
  ae_created_at :: int

record dependency_edge =
  de_child_id :: string
  de_parent_id :: string
  de_is_primary :: bool
  de_registered_at :: int

record dependency_graph =
  dg_root_task_id :: string
  dg_task_ids :: "string list"
  dg_edges :: "dependency_edge list"

record 's graph_store =
  gs_write_dependency :: "dependency_edge \<Rightarrow> ('s, unit) py"
  gs_read_graph :: "string \<Rightarrow> ('s, dependency_graph) py"

text \<open>The governor's fields, with the clock and \<^verbatim>\<open>str\<close> on exceptions, which its events carry.\<close>

record 's governor =
  gv_storage :: "'s dep_storage"
  gv_success_words :: "string set"
  gv_terminal_words :: "string set"
  gv_ready_status :: string
  gv_lifecycle_cancel :: "(string \<Rightarrow> ('s, bool) py) option"
  gv_audit :: "(audit_event \<Rightarrow> ('s, unit) py) option"
  gv_dep_graph_store :: "'s graph_store option"
  gv_clock :: "'s \<Rightarrow> int"
  gv_str :: "exn \<Rightarrow> string"

definition DEFAULT_TERMINAL_WORDS :: "string set" where
  "DEFAULT_TERMINAL_WORDS = {''succeeded'', ''failed'', ''cancelled''}"

definition DEFAULT_READY_STATUS :: string where
  "DEFAULT_READY_STATUS = ''pending''"

definition MAX_LINEAGE_DEPTH :: nat where
  "MAX_LINEAGE_DEPTH = 32"

definition MAX_EXEMPT_RESOURCES :: nat where
  "MAX_EXEMPT_RESOURCES = 10"

definition governor_init ::
  "'s dep_storage \<Rightarrow> string set \<Rightarrow> string set option \<Rightarrow> string \<Rightarrow> (string \<Rightarrow> ('s, bool) py) option \<Rightarrow>
   (audit_event \<Rightarrow> ('s, unit) py) option \<Rightarrow> 's graph_store option \<Rightarrow> ('s \<Rightarrow> int) \<Rightarrow> (exn \<Rightarrow> string) \<Rightarrow> exn + 's governor" where
  "governor_init D success_words terminal_words ready_status lifecycle audit graph clock str =
     (if success_words = {} then Inl ValueErr
      else Inr \<lparr>gv_storage = D, gv_success_words = success_words,
        gv_terminal_words = (case terminal_words of Some t \<Rightarrow> t | None \<Rightarrow> DEFAULT_TERMINAL_WORDS),
        gv_ready_status = ready_status, gv_lifecycle_cancel = lifecycle, gv_audit = audit, gv_dep_graph_store = graph,
        gv_clock = clock, gv_str = str\<rparr>)"

section \<open>Helpers\<close>

fun py_fold :: "('a \<Rightarrow> 'b \<Rightarrow> ('s, 'b) py) \<Rightarrow> 'a list \<Rightarrow> 'b \<Rightarrow> ('s, 'b) py" where
  "py_fold f [] acc = py_return acc"
| "py_fold f (x # xs) acc = py_bind (f x acc) (py_fold f xs)"

text \<open>\<^verbatim>\<open>rec.get("status", "") in words\<close>\<close>

definition status_in :: "string set \<Rightarrow> jdict \<Rightarrow> bool" where
  "status_in words rec = (case map_of rec ''status'' of None \<Rightarrow> '''' \<in> words | Some (JStr w) \<Rightarrow> w \<in> words | Some _ \<Rightarrow> False)"

definition gv_is_terminal :: "'s governor \<Rightarrow> jdict \<Rightarrow> bool" where
  "gv_is_terminal G rec = status_in (gv_terminal_words G) rec"

definition gv_is_success :: "'s governor \<Rightarrow> jdict \<Rightarrow> bool" where
  "gv_is_success G rec = status_in (gv_success_words G) rec"

text \<open>\<^verbatim>\<open>rec.get("depends_on") or []\<close>; an empty list comes back from Lua as an empty object.\<close>

definition depends_on :: "jdict \<Rightarrow> string list" where
  "depends_on rec =
     (case map_of rec ''depends_on'' of Some (JArr xs) \<Rightarrow> [s. JStr s \<leftarrow> xs] | _ \<Rightarrow> [])"

definition str_field :: "jdict \<Rightarrow> string \<Rightarrow> string option" where
  "str_field rec k = (case map_of rec k of Some (JStr s) \<Rightarrow> Some s | _ \<Rightarrow> None)"

definition dep_get :: "'s governor \<Rightarrow> string \<Rightarrow> ('s, jdict) py" where
  "dep_get G tid = st_get_task (dp_base (gv_storage G)) tid"

definition get_record :: "'s governor \<Rightarrow> string \<Rightarrow> ('s, jdict) py" where
  "get_record G tid =
     py_bind (dep_get G tid) (\<lambda>rec. if rec = [] then py_raise FlowTaskNotFound else py_return rec)"

definition emit_audit :: "'s governor \<Rightarrow> audit_event \<Rightarrow> ('s, unit) py" where
  "emit_audit G event =
     (case gv_audit G of
        None \<Rightarrow> py_return ()
      | Some writer \<Rightarrow> py_except (writer event) is_Exception (\<lambda>_. py_return ()))"

definition get_dependency_graph :: "'s governor \<Rightarrow> string \<Rightarrow> ('s, dependency_graph) py" where
  "get_dependency_graph G root_id =
     (case gv_dep_graph_store G of
        None \<Rightarrow> py_raise (OtherErr ''UnsupportedCapabilityError'')
      | Some store \<Rightarrow> gs_read_graph store root_id)"

section \<open>Registration\<close>

definition dedupe :: "'a list \<Rightarrow> 'a list" where
  "dedupe xs = rev (remdups (rev xs))"

fun get_records :: "'s governor \<Rightarrow> string list \<Rightarrow> ('s, (string, jdict) dict) py" where
  "get_records G [] = py_return []"
| "get_records G (pid # pids) =
     py_bind (get_record G pid) (\<lambda>rec. py_bind (get_records G pids) (\<lambda>recs. py_return ((pid, rec) # recs)))"

text \<open>What a node of the ancestor walk pushes, in the order it is popped: the last dependency first, the lineage
  parent last.\<close>

definition ancestors_popped :: "jdict \<Rightarrow> string list" where
  "ancestors_popped rec =
     rev ((case str_field rec ''parent_task_id'' of Some p \<Rightarrow> if p \<noteq> '''' then [p] else [] | None \<Rightarrow> []) @ depends_on rec)"

text \<open>The depth-first walk.  The nodes a visited node pushes are all popped before the rest of the stack, so the
  stack is the recursion; the first argument is the depth left.\<close>

primrec cycle_walk :: "nat \<Rightarrow> 's governor \<Rightarrow> string \<Rightarrow> string list \<Rightarrow> string list \<Rightarrow> ('s, string list) py" where
  "cycle_walk 0 G child nodes visited =
     py_fold (\<lambda>node visited. if node = child then py_raise ValueErr else py_return visited) nodes visited"
| "cycle_walk (Suc n) G child nodes visited =
     py_fold (\<lambda>node visited.
         if node = child then py_raise ValueErr
         else if node \<in> set visited then py_return visited
         else py_bind
           (py_except (py_bind (dep_get G node) (\<lambda>rec. py_return (ancestors_popped rec)))
              is_Exception (\<lambda>_. py_return []))
           (\<lambda>pushed. cycle_walk n G child pushed (visited @ [node])))
       nodes visited"

definition assert_no_cycle :: "'s governor \<Rightarrow> string \<Rightarrow> string list \<Rightarrow> ('s, unit) py" where
  "assert_no_cycle G child parents = py_seq (cycle_walk MAX_LINEAGE_DEPTH G child (rev parents) []) (py_return ())"

primrec chain_loop :: "nat \<Rightarrow> 's governor \<Rightarrow> string option \<Rightarrow> string list \<Rightarrow> string list \<Rightarrow> ('s, string list) py" where
  "chain_loop 0 G current visited resources = py_return resources"
| "chain_loop (Suc n) G current visited resources =
     (case current of
        None \<Rightarrow> py_return resources
      | Some c \<Rightarrow>
          if c \<in> set visited then py_return resources
          else py_bind (py_except (dep_get G c) is_Exception (\<lambda>_. py_return []))
            (\<lambda>rec. if rec = [] then py_return resources
               else case str_field rec ''resource'' of
                      Some r \<Rightarrow>
                        if r \<noteq> '''' \<and> r \<notin> set resources
                        then if MAX_EXEMPT_RESOURCES \<le> length (resources @ [r]) then py_return (resources @ [r])
                             else chain_loop n G (str_field rec ''parent_task_id'') (visited @ [c]) (resources @ [r])
                        else chain_loop n G (str_field rec ''parent_task_id'') (visited @ [c]) resources
                    | None \<Rightarrow> chain_loop n G (str_field rec ''parent_task_id'') (visited @ [c]) resources))"

definition collect_chain_resources :: "'s governor \<Rightarrow> string \<Rightarrow> ('s, string list) py" where
  "collect_chain_resources G start = chain_loop MAX_LINEAGE_DEPTH G (Some start) [] []"

definition exempt_snapshot :: "'s governor \<Rightarrow> string \<Rightarrow> string list option \<Rightarrow> ('s, string list) py" where
  "exempt_snapshot G primary exempt =
     (case exempt of
        Some rs \<Rightarrow> if MAX_EXEMPT_RESOURCES < length rs then py_raise ValueErr else py_return rs
      | None \<Rightarrow> collect_chain_resources G primary)"

definition counted_parents :: "'s governor \<Rightarrow> (string, jdict) dict \<Rightarrow> string list" where
  "counted_parents G recs = [pid. (pid, rec) \<leftarrow> recs, \<not> gv_is_terminal G rec]"

definition abnormal_parents :: "'s governor \<Rightarrow> (string, jdict) dict \<Rightarrow> string list" where
  "abnormal_parents G recs = [pid. (pid, rec) \<leftarrow> recs, gv_is_terminal G rec \<and> \<not> gv_is_success G rec]"

definition cast_votes :: "'s governor \<Rightarrow> string \<Rightarrow> int \<Rightarrow> string list \<Rightarrow> bool \<Rightarrow> ('s, bool) py" where
  "cast_votes G child threshold pids triggered =
     py_fold (\<lambda>pid t. py_bind (dp_vote_and_check_threshold (gv_storage G) child pid threshold)
                  (\<lambda>reached. py_return (reached \<or> t))) pids triggered"

text \<open>Step 6, the writes; step 6b, the second look at the counted parents.\<close>

definition registration_writes ::
  "'s governor \<Rightarrow> string \<Rightarrow> string list \<Rightarrow> string \<Rightarrow> string list \<Rightarrow> string list \<Rightarrow> string list \<Rightarrow> ('s, bool) py" where
  "registration_writes G child parents primary snapshot counted abnormal =
     py_seq (py_for counted (\<lambda>pid. dp_sadd_active_child (gv_storage G) pid child))
       (py_bind (cast_votes G child (int (length parents)) abnormal False) (\<lambda>triggered.
          py_seq (st_update_task (dp_base (gv_storage G)) child
                   [(''depends_on'', JArr (map JStr parents)), (''primary_parent'', JStr primary),
                    (''exempt_resources_snapshot'', JArr (map JStr snapshot))] True)
            (py_seq (dp_set_remaining_deps (gv_storage G) child (int (length counted))) (py_return triggered))))"

definition recheck_parent :: "'s governor \<Rightarrow> string \<Rightarrow> int \<Rightarrow> string \<Rightarrow> bool \<Rightarrow> ('s, bool) py" where
  "recheck_parent G child threshold pid triggered =
     py_bind (py_except (py_bind (dep_get G pid) (\<lambda>rec. py_return (Some rec))) is_Exception (\<lambda>_. py_return None))
       (\<lambda>current. case current of
          None \<Rightarrow> py_return triggered
        | Some rec \<Rightarrow>
            if \<not> gv_is_terminal G rec then py_return triggered
            else py_bind (dp_decr_remaining_deps (gv_storage G) child) (\<lambda>new_value.
              if gv_is_success G rec then py_return triggered
              else cast_votes G child threshold [pid] triggered))"

definition registration_recheck :: "'s governor \<Rightarrow> string \<Rightarrow> int \<Rightarrow> string list \<Rightarrow> bool \<Rightarrow> ('s, bool) py" where
  "registration_recheck G child threshold counted triggered = py_fold (recheck_parent G child threshold) counted triggered"

definition graph_writes :: "'s governor \<Rightarrow> string \<Rightarrow> string list \<Rightarrow> string \<Rightarrow> ('s, unit) py" where
  "graph_writes G child parents primary =
     (case gv_dep_graph_store G of
        None \<Rightarrow> py_return ()
      | Some store \<Rightarrow>
          py_for parents (\<lambda>pid.
            py_except
              (py_bind (py_get (gv_clock G)) (\<lambda>now.
                 gs_write_dependency store \<lparr>de_child_id = child, de_parent_id = pid, de_is_primary = (pid = primary), de_registered_at = now\<rparr>))
              is_Exception
              (\<lambda>e. py_bind (py_get (gv_clock G)) (\<lambda>now.
                 emit_audit G \<lparr>ae_event_id = ''dep-index-fail-'' @ child @ ''-'' @ pid, ae_task_id = child, ae_scope = None,
                   ae_event_type = ''dep_index_write_failed'', ae_source = '''',
                   ae_payload = [(''parent'', JStr pid), (''error'', JStr (gv_str G e))], ae_created_at = now\<rparr>))))"

definition trigger_cancel :: "'s governor \<Rightarrow> string \<Rightarrow> bool \<Rightarrow> ('s, unit) py" where
  "trigger_cancel G child reached =
     (case (reached, gv_lifecycle_cancel G) of
        (True, Some cancel) \<Rightarrow> py_except (py_seq (cancel child) (py_return ())) is_Exception (\<lambda>_. py_return ())
      | _ \<Rightarrow> py_return ())"

definition register_dependency ::
  "'s governor \<Rightarrow> string \<Rightarrow> string list \<Rightarrow> string option \<Rightarrow> string list option \<Rightarrow> ('s, unit) py" where
  "register_dependency G child parents0 primary_parent exempt_resources =
     (if parents0 = [] then py_raise ValueErr
      else let parents = dedupe parents0 in
        py_seq (get_record G child)
        (py_bind (get_records G parents) (\<lambda>parent_recs.
         py_seq (assert_no_cycle G child parents)
         (let primary = (case primary_parent of Some p \<Rightarrow> if p \<noteq> '''' then p else hd parents | None \<Rightarrow> hd parents)
          in if primary \<notin> set parents then py_raise ValueErr
             else py_bind (exempt_snapshot G primary exempt_resources) (\<lambda>snapshot.
               let counted = counted_parents G parent_recs; abnormal = abnormal_parents G parent_recs;
                   threshold = int (length parents)
               in py_bind (registration_writes G child parents primary snapshot counted abnormal) (\<lambda>triggered.
                  py_bind (registration_recheck G child threshold counted triggered) (\<lambda>triggered.
                  py_seq (graph_writes G child parents primary)
                    (trigger_cancel G child triggered))))))))"

section \<open>Readiness, votes and notifications\<close>

definition get_ready_tasks :: "'s governor \<Rightarrow> ('s, string list) py" where
  "get_ready_tasks G = dp_list_ready_dep_tasks (gv_storage G) (Some (gv_ready_status G))"

definition vote_cancel :: "'s governor \<Rightarrow> string \<Rightarrow> string \<Rightarrow> ('s, bool) py" where
  "vote_cancel G parent child =
     py_bind (dep_get G child) (\<lambda>rec.
       if rec = [] \<or> gv_is_terminal G rec \<or> parent \<notin> set (depends_on rec) then py_return False
       else py_bind (dp_vote_and_check_threshold (gv_storage G) child parent (int (length (depends_on rec)))) (\<lambda>reached.
         py_seq (trigger_cancel G child reached) (py_return reached)))"

definition notify_one_child :: "'s governor \<Rightarrow> string \<Rightarrow> string \<Rightarrow> bool \<Rightarrow> ('s, unit) py" where
  "notify_one_child G parent child success =
     py_except
       (py_bind (dp_decr_remaining_deps (gv_storage G) child) (\<lambda>new_value.
          if success then py_return ()
          else py_bind (dep_get G child) (\<lambda>rec.
            if rec = [] \<or> gv_is_terminal G rec \<or> parent \<notin> set (depends_on rec) then py_return ()
            else py_bind (dp_vote_and_check_threshold (gv_storage G) child parent (int (length (depends_on rec))))
              (trigger_cancel G child))))
       is_Exception (\<lambda>_. py_return ())"

definition notify_task_terminal :: "'s governor \<Rightarrow> string \<Rightarrow> string \<Rightarrow> ('s, unit) py" where
  "notify_task_terminal G tid terminal_status =
     (let success = (terminal_status \<in> gv_success_words G)
      in py_seq
          (py_except
             (py_bind (dp_get_active_children (gv_storage G) tid) (\<lambda>children.
                py_for children (\<lambda>child. notify_one_child G tid child success)))
             is_Exception (\<lambda>_. py_return ()))
          (py_except
             (py_bind (dep_get G tid) (\<lambda>rec.
                py_seq (py_for (depends_on rec) (\<lambda>parent. dp_srem_active_child (gv_storage G) parent tid))
                  (if depends_on rec \<noteq> [] then dp_clear_cancel_votes (gv_storage G) tid else py_return ())))
             is_Exception (\<lambda>_. py_return ())))"

definition result_consumed :: "'s governor \<Rightarrow> string \<Rightarrow> string \<Rightarrow> ('s, unit) py" where
  "result_consumed G tid consumer =
     py_bind (dp_sadd_result_consumer (gv_storage G) tid consumer) (\<lambda>first.
       if \<not> first then py_return ()
       else py_bind (py_get (gv_clock G)) (\<lambda>now.
         emit_audit G \<lparr>ae_event_id = ''consume-'' @ tid @ ''-'' @ consumer, ae_task_id = tid, ae_scope = None,
           ae_event_type = ''result_consumed'', ae_source = '''', ae_payload = [(''consumer'', JStr consumer)], ae_created_at = now\<rparr>))"

definition invalidate_exempt_snapshot :: "'s governor \<Rightarrow> string \<Rightarrow> ('s, unit) py" where
  "invalidate_exempt_snapshot G tid =
     st_update_task (dp_base (gv_storage G)) tid [(''exempt_resources_snapshot'', JNull)] True"

end
