(* ===== verification/Dependency_Spec.thy ===== *)
theory Dependency_Spec
  imports Dependency
begin

text \<open>
  Dependency governance over any storage that keeps the attached sets and counters: what registration leaves behind, that
  the counter reaches zero exactly when every counted parent has been notified, and that the ancestor walk finds every
  cycle it can reach.  The locale \<^verbatim>\<open>dep_store\<close> is the sequential contract of the dependency primitives.
\<close>

section \<open>The contract\<close>

record attached =
  at_active :: "string \<Rightarrow> string set"
  at_remaining :: "string \<Rightarrow> int"
  at_votes :: "string \<Rightarrow> string set"
  at_counter :: "string \<Rightarrow> bool"

text \<open>What an operation on the record of \<^term>\<open>t\<close> may change.\<close>

definition frame ::
  "('s \<Rightarrow> bool) \<Rightarrow> ('s \<Rightarrow> string \<Rightarrow> jdict) \<Rightarrow> ('s \<Rightarrow> attached) \<Rightarrow> string \<Rightarrow> 's \<Rightarrow> 's \<Rightarrow> bool" where
  "frame good recs att t s s' \<longleftrightarrow> good s' \<and> att s' = att s \<and> (\<forall>t'. t' \<noteq> t \<longrightarrow> recs s' t' = recs s t')
     \<and> depends_on (recs s' t) = depends_on (recs s t)"

locale dep_store = task_storage "dp_base D" ready recs terminal valid
  for D :: "'s dep_storage" and ready :: "'s \<Rightarrow> bool" and recs :: "'s \<Rightarrow> string \<Rightarrow> jdict" and terminal :: "string list"
    and valid :: "string \<Rightarrow> bool" +
  fixes good :: "'s \<Rightarrow> bool" and att :: "'s \<Rightarrow> attached"
  assumes good_ready: "good s \<Longrightarrow> ready s"
    and get_frame: "good s \<Longrightarrow> valid t \<Longrightarrow> st_get_task (dp_base D) t s = (r, s') \<Longrightarrow> good s' \<and> att s' = att s"
    and update_frame: "good s \<Longrightarrow> valid t \<Longrightarrow> map_of u ''depends_on'' = None \<Longrightarrow> \<not> vd \<or> map_of u ''status'' = None \<Longrightarrow>
      st_update_task (dp_base D) t u vd s = (ru, s') \<Longrightarrow>
      frame good recs att t s s' \<and> ru \<noteq> Inl CancelledErr"
    and cancel_frame: "good s \<Longrightarrow> valid t \<Longrightarrow> st_request_cancel (dp_base D) t s = (rb, s') \<Longrightarrow>
      frame good recs att t s s' \<and> rb \<noteq> Inl CancelledErr"
    and update_deps: "good s \<Longrightarrow> valid t \<Longrightarrow> rec_word (recs s t) w \<Longrightarrow> ps \<noteq> [] \<Longrightarrow>
      \<exists>s' rc. st_update_task (dp_base D) t [(''depends_on'', JArr (map JStr ps)), (''primary_parent'', pv),
            (''exempt_resources_snapshot'', ev)] True s = (Inr (), s')
        \<and> good s' \<and> att s' = att s \<and> recs s' = (recs s)(t := rc) \<and> rec_word rc w \<and> depends_on rc = ps"
    and sadd_law: "good s \<Longrightarrow> valid p \<Longrightarrow> \<exists>s'. dp_sadd_active_child D p c s = (Inr (), s') \<and> good s' \<and> recs s' = recs s
        \<and> att s' = (att s)\<lparr>at_active := (at_active (att s))(p := insert c (at_active (att s) p))\<rparr>"
    and srem_law: "good s \<Longrightarrow> valid p \<Longrightarrow> \<exists>s'. dp_srem_active_child D p c s = (Inr (), s') \<and> good s' \<and> recs s' = recs s
        \<and> att s' = (att s)\<lparr>at_active := (at_active (att s))(p := at_active (att s) p - {c})\<rparr>"
    and children_law: "good s \<Longrightarrow> valid p \<Longrightarrow> \<exists>s' xs. dp_get_active_children D p s = (Inr xs, s') \<and> good s' \<and> recs s' = recs s
        \<and> att s' = att s \<and> distinct xs \<and> set xs = at_active (att s) p"
    and set_law: "good s \<Longrightarrow> valid t \<Longrightarrow> \<exists>s'. dp_set_remaining_deps D t n s = (Inr (), s') \<and> good s' \<and> recs s' = recs s
        \<and> att s' = (att s)\<lparr>at_remaining := (at_remaining (att s))(t := n), at_counter := (at_counter (att s))(t := True)\<rparr>"
    and decr_law: "good s \<Longrightarrow> valid t \<Longrightarrow> \<exists>s'. dp_decr_remaining_deps D t s = (Inr (at_remaining (att s) t - 1), s') \<and> good s' \<and> recs s' = recs s
        \<and> att s' = (att s)\<lparr>at_remaining := (at_remaining (att s))(t := at_remaining (att s) t - 1), at_counter := (at_counter (att s))(t := True)\<rparr>"
    and vote_law: "good s \<Longrightarrow> valid t \<Longrightarrow> \<exists>s'. dp_vote_and_check_threshold D t p n s
          = (Inr (n \<le> int (card (insert p (at_votes (att s) t)))), s') \<and> good s' \<and> recs s' = recs s
        \<and> att s' = (att s)\<lparr>at_votes := (at_votes (att s))(t := insert p (at_votes (att s) t))\<rparr>"
    and clear_law: "good s \<Longrightarrow> valid t \<Longrightarrow> \<exists>s'. dp_clear_cancel_votes D t s = (Inr (), s') \<and> good s' \<and> recs s' = recs s
        \<and> att s' = (att s)\<lparr>at_votes := (at_votes (att s))(t := {})\<rparr>"
    and ready_law: "good s \<Longrightarrow> \<exists>s' xs. dp_list_ready_dep_tasks D (Some w) s = (Inr xs, s') \<and> good s' \<and> recs s' = recs s \<and> att s' = att s
        \<and> (\<forall>t. valid t \<longrightarrow> (t \<in> set xs \<longleftrightarrow> at_counter (att s) t \<and> at_remaining (att s) t \<le> 0 \<and> rec_word (recs s t) w))"

text \<open>A governor on this storage; the canceller is the task lifecycle, the observers do what they like to themselves.\<close>

definition observers_ok :: "('s \<Rightarrow> bool) \<Rightarrow> ('s \<Rightarrow> string \<Rightarrow> jdict) \<Rightarrow> ('s \<Rightarrow> attached) \<Rightarrow> 's governor \<Rightarrow> bool" where
  "observers_ok good recs att G \<longleftrightarrow>
     (\<forall>w e s r s'. gv_audit G = Some w \<longrightarrow> good s \<longrightarrow> w e s = (r, s') \<longrightarrow> good s' \<and> recs s' = recs s \<and> att s' = att s \<and> r \<noteq> Inl CancelledErr)
   \<and> (\<forall>st e s r s'. gv_dep_graph_store G = Some st \<longrightarrow> good s \<longrightarrow> gs_write_dependency st e s = (r, s') \<longrightarrow>
        good s' \<and> recs s' = recs s \<and> att s' = att s \<and> r \<noteq> Inl CancelledErr)
   \<and> gv_lifecycle_cancel G \<in> {None, Some (lc_cancel (dp_base (gv_storage G)))}"

definition keeps_store :: "('s \<Rightarrow> bool) \<Rightarrow> ('s \<Rightarrow> string \<Rightarrow> jdict) \<Rightarrow> ('s \<Rightarrow> attached) \<Rightarrow> 's \<Rightarrow> 's \<Rightarrow> bool" where
  "keeps_store good recs att s s' \<longleftrightarrow> good s' \<and> recs s' = recs s \<and> att s' = att s"

text \<open>The ancestor relation the registration walks.\<close>

definition anc_rel :: "(string \<Rightarrow> jdict) \<Rightarrow> (string \<times> string) set" where
  "anc_rel rs = {(t, p). p \<in> set (ancestors_popped (rs t))}"

definition lineage_ok :: "(string \<Rightarrow> bool) \<Rightarrow> (string \<Rightarrow> jdict) \<Rightarrow> bool" where
  "lineage_ok valid rs \<longleftrightarrow> (\<forall>t p. (t, p) \<in> anc_rel rs \<or> str_field (rs t) ''parent_task_id'' = Some p \<longrightarrow> valid p)"

context dep_store
begin

abbreviation same :: "'s \<Rightarrow> 's \<Rightarrow> bool" where
  "same \<equiv> keeps_store good recs att"

lemma same_refl [simp]: "good s \<Longrightarrow> same s s"
  by (simp add: keeps_store_def)

lemma same_trans: "same s s' \<Longrightarrow> same s' s'' \<Longrightarrow> same s s''"
  by (simp add: keeps_store_def)

lemma get_ok: "good s \<Longrightarrow> valid t \<Longrightarrow> \<exists>s'. st_get_task (dp_base D) t s = (Inr (recs s t), s') \<and> same s s'"
  using get_law[OF good_ready, of s t] get_frame[of s t] by (fastforce simp: keeps_store_def)

end

section \<open>The ancestor walk\<close>

text \<open>The walk over a fixed set of records, as a function.\<close>

fun ofold :: "('a \<Rightarrow> 'b \<Rightarrow> 'b option) \<Rightarrow> 'a list \<Rightarrow> 'b \<Rightarrow> 'b option" where
  "ofold f [] acc = Some acc"
| "ofold f (x # xs) acc = (case f x acc of None \<Rightarrow> None | Some acc' \<Rightarrow> ofold f xs acc')"

primrec pwalk :: "nat \<Rightarrow> (string \<Rightarrow> string list) \<Rightarrow> string \<Rightarrow> string list \<Rightarrow> string list \<Rightarrow> string list option" where
  "pwalk 0 anc child nodes visited = ofold (\<lambda>node visited. if node = child then None else Some visited) nodes visited"
| "pwalk (Suc n) anc child nodes visited =
     ofold (\<lambda>node visited. if node = child then None else if node \<in> set visited then Some visited
              else pwalk n anc child (anc node) (visited @ [node])) nodes visited"

definition closed_walk :: "(string \<Rightarrow> string list) \<Rightarrow> string \<Rightarrow> string list \<Rightarrow> string list \<Rightarrow> string list \<Rightarrow> bool" where
  "closed_walk anc child nodes vis vis' \<longleftrightarrow> (\<exists>new. vis' = vis @ new) \<and> distinct vis' \<and> child \<notin> set nodes \<and> set nodes \<subseteq> set vis'
     \<and> (\<forall>x \<in> set vis' - set vis. child \<notin> set (anc x) \<and> x \<noteq> child \<and> set (anc x) \<subseteq> set vis')"

lemma closed_walk_cons:
  assumes "closed_walk anc child [x] vis vis1" "closed_walk anc child xs vis1 vis'"
  shows "closed_walk anc child (x # xs) vis vis'"
proof -
  obtain n1 n2 where n: "vis1 = vis @ n1" "vis' = vis1 @ n2" using assms unfolding closed_walk_def by blast
  have "child \<notin> set (anc y) \<and> y \<noteq> child \<and> set (anc y) \<subseteq> set vis'" if "y \<in> set vis' - set vis" for y
  proof (cases "y \<in> set vis1")
    case True
    then have "child \<notin> set (anc y) \<and> y \<noteq> child \<and> set (anc y) \<subseteq> set vis1"
      using assms(1) that unfolding closed_walk_def by blast
    then show ?thesis using n(2) by (simp add: le_supI1)
  next
    case False
    then show ?thesis using assms(2) that unfolding closed_walk_def by blast
  qed
  moreover have "distinct vis'" "child \<notin> set (x # xs)" "set (x # xs) \<subseteq> set vis'"
    using assms n(2) by (auto simp: closed_walk_def)
  ultimately show ?thesis using n by (simp add: closed_walk_def del: Diff_iff)
qed

lemma ofold_closed:
  assumes "\<And>x vis vis'. x \<in> set xs \<Longrightarrow> I vis \<Longrightarrow> f x vis = Some vis' \<Longrightarrow> closed_walk anc child [x] vis vis' \<and> I vis'"
    "I vis" "distinct vis" "ofold f xs vis = Some vis'"
  shows "closed_walk anc child xs vis vis' \<and> I vis'"
  using assms
proof (induction xs arbitrary: vis)
  case Nil
  then show ?case by (simp add: closed_walk_def)
next
  case (Cons x xs)
  from Cons.prems(4) obtain vis1 where 1: "f x vis = Some vis1" "ofold f xs vis1 = Some vis'"
    by (auto split: option.splits)
  have c: "closed_walk anc child [x] vis vis1 \<and> I vis1" using Cons.prems(1)[OF _ Cons.prems(2) 1(1)] by simp
  then have "distinct vis1" by (simp add: closed_walk_def)
  from Cons.IH[OF Cons.prems(1) _ this 1(2)] c closed_walk_cons show ?case by fastforce
qed

lemma pwalk_closed:
  assumes "finite U" "card U \<le> n + length vis" "set nodes \<union> set vis \<subseteq> U" "\<forall>x \<in> U. set (anc x) \<subseteq> U" "distinct vis"
    "pwalk n anc child nodes vis = Some vis'"
  shows "closed_walk anc child nodes vis vis' \<and> set vis' \<subseteq> U"
  using assms
proof (induction n arbitrary: nodes vis vis')
  case 0
  have "card U \<le> card (set vis)" using 0 by (simp add: distinct_card)
  then have U: "set vis = U" using 0(1,3) by (intro card_seteq) auto
  have "closed_walk anc child nodes vis vis' \<and> vis' = vis"
    by (rule ofold_closed[where I = "\<lambda>v. v = vis" and f = "\<lambda>node visited. if node = child then None else Some visited"])
      (use 0 U in \<open>auto simp: closed_walk_def split: if_splits\<close>)
  then show ?case using U by blast
next
  case (Suc n)
  let ?f = "\<lambda>node visited. if node = child then None else if node \<in> set visited then Some visited
              else pwalk n anc child (anc node) (visited @ [node])"
  let ?I = "\<lambda>v. set v \<subseteq> U \<and> distinct v \<and> length vis \<le> length v"
  have "closed_walk anc child nodes vis vis' \<and> ?I vis'"
  proof (rule ofold_closed[where f = ?f])
    fix x v v' assume x: "x \<in> set nodes" and I: "?I v" and f: "?f x v = Some v'"
    show "closed_walk anc child [x] v v' \<and> ?I v'"
    proof (cases "x \<in> set v")
      case True
      with f I show ?thesis by (auto simp: closed_walk_def split: if_splits)
    next
      case False
      have xU: "x \<in> U" using x Suc.prems(3) by auto
      have p: "x \<noteq> child" "pwalk n anc child (anc x) (v @ [x]) = Some v'" using f False by (auto split: if_splits)
      have "closed_walk anc child (anc x) (v @ [x]) v' \<and> set v' \<subseteq> U"
        by (rule Suc.IH[OF Suc.prems(1) _ _ Suc.prems(4) _ p(2)]) (use I False xU Suc.prems(2,4) in auto)
      then show ?thesis using p(1) I False unfolding closed_walk_def by auto
    qed
  qed (use Suc.prems in auto)
  then show ?case by simp
qed

lemma ofold_None:
  assumes "ofold f xs vis = None" "\<And>x vis. x \<in> set xs \<Longrightarrow> f x vis = None \<Longrightarrow> Q x"
  shows "\<exists>x \<in> set xs. Q x"
  using assms
proof (induction xs arbitrary: vis)
  case (Cons x xs)
  show ?case
  proof (cases "f x vis")
    case None
    then show ?thesis using Cons.prems(2)[of x vis] by simp
  next
    case (Some a)
    then show ?thesis using Cons.IH[of a] Cons.prems by simp
  qed
qed simp

lemma pwalk_None: "pwalk n anc child nodes vis = None \<Longrightarrow> \<exists>x \<in> set nodes. (x, child) \<in> {(t, p). p \<in> set (anc t)}\<^sup>*"
proof (induction n arbitrary: nodes vis)
  case 0
  show ?case
    by (rule ofold_None[OF 0[unfolded pwalk.simps]]) (simp split: if_splits)
next
  case (Suc n)
  show ?case
  proof (rule ofold_None[OF Suc.prems[unfolded pwalk.simps]])
    fix x v assume "(if x = child then None else if x \<in> set v then Some v else pwalk n anc child (anc x) (v @ [x])) = None"
    then consider "x = child" | "pwalk n anc child (anc x) (v @ [x]) = None" by (auto split: if_splits)
    then show "(x, child) \<in> {(t, p). p \<in> set (anc t)}\<^sup>*"
    proof cases
      case 2
      from Suc.IH[OF this] obtain y where y: "y \<in> set (anc x)" "(y, child) \<in> {(t, p). p \<in> set (anc t)}\<^sup>*" by blast
      show ?thesis by (rule converse_rtrancl_into_rtrancl[OF _ y(2)]) (simp add: y(1))
    qed simp
  qed
qed

lemma pwalk_exact:
  assumes "finite U" "card U \<le> n" "set nodes \<subseteq> U" "\<forall>x \<in> U. set (anc x) \<subseteq> U"
  shows "pwalk n anc child nodes [] = None \<longleftrightarrow> (\<exists>x \<in> set nodes. (x, child) \<in> {(t, p). p \<in> set (anc t)}\<^sup>*)"
proof
  assume r: "\<exists>x \<in> set nodes. (x, child) \<in> {(t, p). p \<in> set (anc t)}\<^sup>*"
  show "pwalk n anc child nodes [] = None"
  proof (rule ccontr)
    assume "pwalk n anc child nodes [] \<noteq> None"
    then obtain vis' where "pwalk n anc child nodes [] = Some vis'" by auto
    from pwalk_closed[OF assms(1) _ _ assms(4) _ this] assms(2,3)
    have c: "child \<notin> set nodes" "set nodes \<subseteq> set vis'" "\<forall>x \<in> set vis'. x \<noteq> child \<and> set (anc x) \<subseteq> set vis'"
      by (auto simp: closed_walk_def)
    from r obtain x where x: "x \<in> set nodes" "(x, child) \<in> {(t, p). p \<in> set (anc t)}\<^sup>*" by blast
    from x(2) have "x \<in> set vis' \<longrightarrow> child \<in> set vis'"
      by (induction rule: converse_rtrancl_induct) (use c(3) in auto)
    with x(1) c(2,3) show False by auto
  qed
qed (rule pwalk_None)

context dep_store
begin

lemma fold_pure:
  assumes "\<And>x acc s. x \<in> set xs \<Longrightarrow> good s \<Longrightarrow> recs s = rs \<Longrightarrow>
      \<exists>s'. f x acc s = (case g x acc of None \<Rightarrow> Inl e | Some a \<Rightarrow> Inr a, s') \<and> same s s'"
    "good s" "recs s = rs"
  shows "\<exists>s'. py_fold f xs acc s = (case ofold g xs acc of None \<Rightarrow> Inl e | Some a \<Rightarrow> Inr a, s') \<and> same s s'"
  using assms
proof (induction xs arbitrary: acc s)
  case (Cons x xs)
  from Cons.prems(1)[of x s acc] Cons.prems(2,3) obtain s1 where
    1: "f x acc s = (case g x acc of None \<Rightarrow> Inl e | Some a \<Rightarrow> Inr a, s1)" "same s s1" by (simp, blast)
  show ?case
  proof (cases "g x acc")
    case (Some a)
    have "good s1" "recs s1 = rs" using 1(2) Cons.prems(3) by (simp_all add: keeps_store_def)
    have "\<exists>s'. py_fold f xs a s1 = (case ofold g xs a of None \<Rightarrow> Inl e | Some a \<Rightarrow> Inr a, s') \<and> same s1 s'"
      by (rule Cons.IH[OF _ \<open>good s1\<close> \<open>recs s1 = rs\<close>]) (rule Cons.prems(1), simp_all)
    then obtain s2 where
      2: "py_fold f xs a s1 = (case ofold g xs a of None \<Rightarrow> Inl e | Some a \<Rightarrow> Inr a, s2)" "same s1 s2" by blast
    have "py_fold f (x # xs) acc s = (case ofold g (x # xs) acc of None \<Rightarrow> Inl e | Some a \<Rightarrow> Inr a, s2)"
      using 1(1) 2(1) Some by (simp add: py_bind_def)
    with same_trans[OF 1(2) 2(2)] show ?thesis by blast
  next
    case None
    have "py_fold f (x # xs) acc s = (Inl e, s1)" using 1(1) None by (simp add: py_bind_def)
    with 1(2) None show ?thesis by simp
  qed
qed (simp add: py_simps)

lemma walk_pure:
  assumes "gv_storage G = D" "lineage_ok valid rs" "\<forall>x \<in> set nodes. valid x" "good s" "recs s = rs"
  shows "\<exists>s'. cycle_walk n G child nodes vis s
    = (case pwalk n (\<lambda>t. ancestors_popped (rs t)) child nodes vis of None \<Rightarrow> Inl ValueErr | Some v \<Rightarrow> Inr v, s') \<and> same s s'"
  using assms(3-5)
proof (induction n arbitrary: nodes vis s)
  case 0
  show ?case unfolding cycle_walk.simps pwalk.simps
    by (rule fold_pure[OF _ 0(2,3)]) (simp add: py_simps)
next
  case (Suc n)
  show ?case unfolding cycle_walk.simps pwalk.simps
  proof (rule fold_pure[OF _ Suc.prems(2,3)])
    fix x v u assume x: "x \<in> set nodes" and u: "good u" "recs u = rs"
    from get_ok[OF u(1), of x] x Suc.prems(1) obtain u1 where g: "dep_get G x u = (Inr (rs x), u1)" "same u u1"
      using assms(1) u(2) by (auto simp: dep_get_def)
    have "\<forall>p \<in> set (ancestors_popped (rs x)). valid p" using assms(2) by (auto simp: lineage_ok_def anc_rel_def)
    moreover have "good u1" "recs u1 = rs" using g(2) u(2) by (simp_all add: keeps_store_def)
    ultimately obtain u2 where w: "cycle_walk n G child (ancestors_popped (rs x)) (v @ [x]) u1
        = (case pwalk n (\<lambda>t. ancestors_popped (rs t)) child (ancestors_popped (rs x)) (v @ [x]) of None \<Rightarrow> Inl ValueErr | Some v \<Rightarrow> Inr v, u2)"
        "same u1 u2" using Suc.IH by blast
    have "py_bind (py_except (py_bind (dep_get G x) (\<lambda>rec. py_return (ancestors_popped rec))) is_Exception (\<lambda>_. py_return []))
        (\<lambda>pushed. cycle_walk n G child pushed (v @ [x])) u = cycle_walk n G child (ancestors_popped (rs x)) (v @ [x]) u1"
      using g(1) by (simp add: py_simps)
    then show "\<exists>s'. (if x = child then py_raise ValueErr else if x \<in> set v then py_return v
        else py_bind (py_except (py_bind (dep_get G x) (\<lambda>rec. py_return (ancestors_popped rec))) is_Exception (\<lambda>_. py_return []))
          (\<lambda>pushed. cycle_walk n G child pushed (v @ [x]))) u =
        (case if x = child then None else if x \<in> set v then Some v
            else pwalk n (\<lambda>t. ancestors_popped (rs t)) child (ancestors_popped (rs x)) (v @ [x]) of
           None \<Rightarrow> Inl ValueErr | Some a \<Rightarrow> Inr a, s') \<and> same u s'"
      using w same_trans[OF g(2) w(2)] u(1) by (auto simp: py_raise_def py_return_def)
  qed
qed

text \<open>The cycle check raises exactly when the child is among its parents or their ancestors, where there are at most 32 of
  them; it never raises otherwise.\<close>

lemma no_cycle_exact:
  assumes "gv_storage G = D" "good s" "lineage_ok valid (recs s)" "\<forall>x \<in> set parents. valid x"
  shows "\<exists>s' r. assert_no_cycle G child parents s = (r, s') \<and> same s s' \<and> (r = Inr () \<or> r = Inl ValueErr)
    \<and> (r = Inl ValueErr \<longrightarrow> (\<exists>p \<in> set parents. (p, child) \<in> (anc_rel (recs s))\<^sup>*))
    \<and> (finite U \<longrightarrow> card U \<le> 32 \<longrightarrow> set parents \<subseteq> U \<longrightarrow> anc_rel (recs s) `` U \<subseteq> U \<longrightarrow>
        (\<exists>p \<in> set parents. (p, child) \<in> (anc_rel (recs s))\<^sup>*) \<longrightarrow> r = Inl ValueErr)"
proof -
  let ?anc = "\<lambda>t. ancestors_popped (recs s t)"
  have rel: "anc_rel (recs s) = {(t, p). p \<in> set (?anc t)}" by (simp add: anc_rel_def)
  obtain s' where w: "cycle_walk 32 G child (rev parents) [] s
      = (case pwalk 32 ?anc child (rev parents) [] of None \<Rightarrow> Inl ValueErr | Some v \<Rightarrow> Inr v, s')" "same s s'"
    using walk_pure[OF assms(1,3) _ assms(2) refl, of "rev parents" 32 child "[]"] assms(4) by auto
  have run: "assert_no_cycle G child parents s
      = (case pwalk 32 ?anc child (rev parents) [] of None \<Rightarrow> Inl ValueErr | Some v \<Rightarrow> Inr (), s')"
    using w(1) by (auto simp: assert_no_cycle_def MAX_LINEAGE_DEPTH_def py_seq_def py_bind_def py_return_def split: option.splits)
  show ?thesis
  proof (cases "pwalk 32 ?anc child (rev parents) []")
    case None
    with pwalk_None[OF None] run w(2) show ?thesis by (auto simp: rel)
  next
    case (Some v)
    have "\<not> (\<exists>p \<in> set parents. (p, child) \<in> (anc_rel (recs s))\<^sup>*)"
      if "finite U" "card U \<le> 32" "set parents \<subseteq> U" "anc_rel (recs s) `` U \<subseteq> U"
      using pwalk_exact[OF that(1,2), of "rev parents" ?anc child] that(3,4) Some by (auto simp: rel)
    with run Some w(2) show ?thesis by auto
  qed
qed


end

section \<open>Statements that keep an invariant\<close>

abbreviation keeps :: "('s \<Rightarrow> bool) \<Rightarrow> ('s, 'a) py \<Rightarrow> bool" where
  "keeps I m \<equiv> triple I m (\<lambda>_. I) (\<lambda>e s. I s \<and> is_Exception e)"

text \<open>From \<^term>\<open>s0\<close> the statement returns, in a state that satisfies \<^term>\<open>R\<close>.\<close>

abbreviation yields :: "'s \<Rightarrow> ('s, 'a) py \<Rightarrow> ('a \<Rightarrow> 's \<Rightarrow> bool) \<Rightarrow> bool" where
  "yields s0 m R \<equiv> triple (\<lambda>s. s = s0) m R (\<lambda>_ _. False)"

lemma is_Exception_simps:
  "is_Exception ValueErr" "is_Exception FlowTaskNotFound" "is_Exception FlowInvalidTransition" "is_Exception (OtherErr k)"
  by (simp_all add: is_Exception_def)

lemma keeps_bind: "keeps I m \<Longrightarrow> (\<And>x. keeps I (k x)) \<Longrightarrow> keeps I (py_bind m k)"
  by (rule triple_bind)

lemma keeps_seq: "keeps I m \<Longrightarrow> keeps I k \<Longrightarrow> keeps I (py_seq m k)"
  by (rule triple_seq)

lemma keeps_except:
  assumes "keeps I m" "\<And>e. is_Exception e \<Longrightarrow> keeps I (h e)"
  shows "keeps I (py_except m C h)"
proof (rule triple_except[OF assms(1)])
  fix e
  show "triple (\<lambda>s. I s \<and> is_Exception e) (h e) (\<lambda>_. I) (\<lambda>e s. I s \<and> is_Exception e)"
    using assms(2)[of e] by (cases "is_Exception e") (simp_all add: triple_def)
qed simp

lemma keeps_swallow: "keeps I m \<Longrightarrow> triple I (py_except m is_Exception (\<lambda>_. py_return x)) (\<lambda>_. I) (\<lambda>_ _. False)"
  by (rule triple_except[where E' = "\<lambda>e s. I s \<and> is_Exception e"]) (auto intro: triple_return)

lemma keepsI: "(\<And>s r s'. I s \<Longrightarrow> m s = (r, s') \<Longrightarrow> I s' \<and> r \<noteq> Inl CancelledErr) \<Longrightarrow> keeps I m"
  unfolding triple_def is_Exception_def by (fastforce split: prod.splits sum.splits)

lemma keeps_return: "keeps I (py_return x)"
  by (rule triple_return)

lemma keeps_raise: "is_Exception e \<Longrightarrow> keeps I (py_raise e)"
  by (rule triple_raise) simp

lemmas keeps_rules = keeps_bind keeps_seq keeps_except keeps_return keeps_raise triple_if

lemma yieldsI: "m s0 = (Inr x, s1) \<Longrightarrow> R x s1 \<Longrightarrow> yields s0 m R"
  by (simp add: triple_def)

lemma yieldsD: "yields s0 m R \<Longrightarrow> \<exists>x s1. m s0 = (Inr x, s1) \<and> R x s1"
  by (cases "m s0"; cases "fst (m s0)") (auto simp: triple_def)

lemma triple_at: "(\<And>s0. P s0 \<Longrightarrow> yields s0 m R) \<Longrightarrow> triple P m R (\<lambda>_ _. False)"
  by (simp add: triple_def)

lemma triple_start: "triple P m R (\<lambda>_ _. False) \<Longrightarrow> P s \<Longrightarrow> yields s m R"
  by (simp add: triple_def)

lemma yields_except: "yields s m R \<Longrightarrow> yields s (py_except m C h) R"
  by (rule triple_except) (simp_all add: triple_def)

lemma yields_bind: "m s = (Inr x, s1) \<Longrightarrow> yields s1 (k x) R \<Longrightarrow> yields s (py_bind m k) R"
  by (simp add: triple_def py_bind_def)

lemma triple_for_prefix:
  assumes "\<And>ys x zs. xs = ys @ x # zs \<Longrightarrow> triple (I ys) (body x) (\<lambda>_. I (ys @ [x])) E"
  shows "triple (I []) (py_for xs body) (\<lambda>_. I xs) E"
proof -
  have all: "triple (I ys) (py_for zs body) (\<lambda>_. I xs) E" if "xs = ys @ zs" for ys zs
    using that
  proof (induction zs arbitrary: ys)
    case Nil
    then show ?case by (auto intro: triple_return)
  next
    case (Cons x zs)
    show ?case unfolding py_for.simps
      by (rule triple_seq[OF assms[OF Cons.prems]]) (rule Cons.IH, simp add: Cons.prems)
  qed
  show ?thesis by (rule all) simp
qed

lemma triple_fold_prefix:
  assumes "\<And>ys x zs a. xs = ys @ x # zs \<Longrightarrow> triple (I ys a) (f x a) (\<lambda>b. I (ys @ [x]) b) E"
  shows "triple (I [] a) (py_fold f xs a) (\<lambda>b. I xs b) E"
proof -
  have all: "triple (I ys a) (py_fold f zs a) (\<lambda>b. I xs b) E" if "xs = ys @ zs" for ys zs a
    using that
  proof (induction zs arbitrary: ys a)
    case Nil
    then show ?case by (auto intro: triple_return)
  next
    case (Cons x zs)
    show ?case unfolding py_fold.simps
      by (rule triple_bind[OF assms[OF Cons.prems]]) (rule Cons.IH, simp add: Cons.prems)
  qed
  show ?thesis by (rule all) simp
qed

section \<open>Notifications\<close>

definition wired :: "'s dep_storage \<Rightarrow> 's governor \<Rightarrow> bool" where
  "wired D G \<longleftrightarrow> gv_storage G = D \<and> (\<forall>f. gv_lifecycle_cancel G = Some f \<longrightarrow> f = lc_cancel (dp_base D))"

text \<open>What the notification of a parent does not touch.\<close>

definition deps_kept :: "('s \<Rightarrow> string \<Rightarrow> jdict) \<Rightarrow> 's \<Rightarrow> 's \<Rightarrow> bool" where
  "deps_kept recs s s' \<longleftrightarrow> (\<forall>q. depends_on (recs s' q) = depends_on (recs s q))"

definition notified ::
  "('s \<Rightarrow> bool) \<Rightarrow> ('s \<Rightarrow> string \<Rightarrow> jdict) \<Rightarrow> ('s \<Rightarrow> attached) \<Rightarrow> bool \<Rightarrow> 's \<Rightarrow> (string \<Rightarrow> string set) \<Rightarrow> string set \<Rightarrow> 's \<Rightarrow> bool" where
  "notified good recs att ok s0 A X s \<longleftrightarrow> good s \<and> (ok \<longrightarrow> recs s = recs s0) \<and> deps_kept recs s0 s \<and> at_active (att s) = A
     \<and> at_remaining (att s) = (\<lambda>q. at_remaining (att s0) q - (if q \<in> X then 1 else 0))
     \<and> (\<forall>q. at_counter (att s0) q \<longrightarrow> at_counter (att s) q)"

context dep_store
begin

abbreviation reached :: "bool \<Rightarrow> 's \<Rightarrow> (string \<Rightarrow> string set) \<Rightarrow> string set \<Rightarrow> 's \<Rightarrow> bool" where
  "reached \<equiv> notified good recs att"

lemma frame_trans: "frame good recs att t s0 s \<Longrightarrow> frame good recs att t s s' \<Longrightarrow> frame good recs att t s0 s'"
  by (simp add: frame_def)

lemma frame_good: "frame good recs att t s0 s \<Longrightarrow> good s"
  by (simp add: frame_def)

lemma frame_get:
  assumes "valid t"
  shows "keeps (frame good recs att t s0) (st_get_task (dp_base D) t)"
proof (rule keepsI)
  fix s r s' assume I: "frame good recs att t s0 s" and run: "st_get_task (dp_base D) t s = (r, s')"
  from get_ok[OF frame_good[OF I] assms] run have "same s s'" "r = Inr (recs s t)" by auto
  then show "frame good recs att t s0 s' \<and> r \<noteq> Inl CancelledErr" using I by (simp add: frame_def keeps_store_def)
qed

lemma frame_update:
  assumes "valid t" "map_of u ''depends_on'' = None" "\<not> vd \<or> map_of u ''status'' = None"
  shows "keeps (frame good recs att t s0) (st_update_task (dp_base D) t u vd)"
  by (rule keepsI) (meson update_frame[OF frame_good assms] frame_trans)

lemma frame_request:
  assumes "valid t"
  shows "keeps (frame good recs att t s0) (st_request_cancel (dp_base D) t)"
  by (rule keepsI) (meson cancel_frame[OF frame_good assms] frame_trans)

lemma frame_read_status: "keeps I (read_status task)"
  unfolding read_status_def by (auto split: option.splits json.splits intro!: keeps_return keeps_raise simp: is_Exception_simps)

lemma frame_cancel: "valid t \<Longrightarrow> keeps (frame good recs att t s0) (lc_cancel (dp_base D) t)"
  unfolding lc_cancel_def transition_to_def settle_cancel_race_def lc_get_status_def validate_transition_def
  by (intro keeps_rules frame_get frame_update frame_request frame_read_status) (simp_all add: is_Exception_simps)

lemma get_yields: "good s \<Longrightarrow> valid t \<Longrightarrow> yields s (st_get_task (dp_base D) t) (\<lambda>r s'. r = recs s t \<and> same s s')"
  using get_ok by (blast intro: yieldsI)

lemma reached_same: "reached ok s0 A X s \<Longrightarrow> same s s' \<Longrightarrow> reached ok s0 A X s'"
  by (simp add: notified_def keeps_store_def deps_kept_def)

lemma reached_good: "reached ok s0 A X s \<Longrightarrow> good s"
  by (simp add: notified_def)

lemma frame_deps: "frame good recs att t s s' \<Longrightarrow> depends_on (recs s' q) = depends_on (recs s q)"
  by (cases "q = t") (simp_all add: frame_def)

lemma reached_frame: "reached False s0 A X s \<Longrightarrow> frame good recs att t s s' \<Longrightarrow> reached False s0 A X s'"
  using frame_deps[of t s s'] by (simp add: notified_def deps_kept_def) (simp add: frame_def)

lemma reached_get:
  assumes "valid t"
  shows "keeps (reached ok s0 A X) (st_get_task (dp_base D) t)"
proof (rule keepsI)
  fix s r s' assume I: "reached ok s0 A X s" and run: "st_get_task (dp_base D) t s = (r, s')"
  from get_ok[OF reached_good[OF I] assms] run have "same s s'" "r = Inr (recs s t)" by auto
  then show "reached ok s0 A X s' \<and> r \<noteq> Inl CancelledErr" using reached_same[OF I] by simp
qed

lemma reached_vote:
  assumes "valid t"
  shows "keeps (reached ok s0 A X) (dp_vote_and_check_threshold D t p n)"
proof (rule keepsI)
  fix s r s' assume I: "reached ok s0 A X s" and run: "dp_vote_and_check_threshold D t p n s = (r, s')"
  from vote_law[OF reached_good[OF I] assms, of p n] run have "good s'" "recs s' = recs s"
    "att s' = (att s)\<lparr>at_votes := (at_votes (att s))(t := insert p (at_votes (att s) t))\<rparr>" "r \<noteq> Inl CancelledErr" by auto
  then show "reached ok s0 A X s' \<and> r \<noteq> Inl CancelledErr" using I by (simp add: notified_def deps_kept_def)
qed

lemma reached_trigger: "wired D G \<Longrightarrow> valid t \<Longrightarrow> keeps (reached False s0 A X) (trigger_cancel G t b)"
proof -
  assume w: "wired D G" and t: "valid t"
  have "keeps (reached False s0 A X) (lc_cancel (dp_base D) t)"
  proof (rule keepsI)
    fix s r s' assume I: "reached False s0 A X s" and run: "lc_cancel (dp_base D) t s = (r, s')"
    have "frame good recs att t s s" using reached_good[OF I] by (simp add: frame_def)
    from tripleD[OF frame_cancel[OF t] this] run have "frame good recs att t s s' \<and> r \<noteq> Inl CancelledErr"
      by (cases r) (auto simp: is_Exception_def)
    then show "reached False s0 A X s' \<and> r \<noteq> Inl CancelledErr" using reached_frame[OF I] by blast
  qed
  then show ?thesis using w
    by (cases b; cases "gv_lifecycle_cancel G") (auto simp: trigger_cancel_def wired_def intro!: keeps_rules)
qed

lemma notify_one_yields:
  assumes w: "wired D G" and c: "valid c" and s: "reached ok s0 A X s" "c \<notin> X"
  shows "yields s (notify_one_child G p c ok) (\<lambda>_. reached ok s0 A (insert c X))"
proof -
  let ?R = "reached ok s0 A (insert c X)"
  have D: "gv_storage G = D" using w by (simp add: wired_def)
  have decr: "triple (\<lambda>u. u = s) (dp_decr_remaining_deps D c) (\<lambda>_. ?R) (\<lambda>e s. ?R s \<and> is_Exception e)"
  proof -
    from decr_law[OF reached_good[OF s(1)] c] obtain s' where "dp_decr_remaining_deps D c s = (Inr (at_remaining (att s) c - 1), s')"
      "good s'" "recs s' = recs s" "att s' = (att s)\<lparr>at_remaining := (at_remaining (att s))(c := at_remaining (att s) c - 1), at_counter := (at_counter (att s))(c := True)\<rparr>" by blast
    then show ?thesis using s by (auto simp: triple_def notified_def deps_kept_def fun_eq_iff)
  qed
  have rest: "keeps ?R (if ok then py_return () else py_bind (dep_get G c) (\<lambda>rec.
      if rec = [] \<or> gv_is_terminal G rec \<or> p \<notin> set (depends_on rec) then py_return ()
      else py_bind (dp_vote_and_check_threshold D c p (int (length (depends_on rec)))) (trigger_cancel G c)))"
    unfolding dep_get_def D
    by (cases ok; simp only: if_True if_False) (intro keeps_rules reached_get reached_vote reached_trigger w c)+
  show ?thesis unfolding notify_one_child_def D
    by (rule triple_except[OF triple_bind[OF decr rest]]) (auto intro: triple_return)
qed

lemma notify_children_yields:
  assumes w: "wired D G" and xs: "distinct xs" "\<forall>x \<in> set xs. valid x" and s: "good s"
  shows "yields s (py_for xs (\<lambda>c. notify_one_child G p c ok)) (\<lambda>_. reached ok s (at_active (att s)) (set xs))"
proof -
  let ?R = "\<lambda>ys. reached ok s (at_active (att s)) (set ys)"
  have "triple (?R []) (py_for xs (\<lambda>c. notify_one_child G p c ok)) (\<lambda>_. ?R xs) (\<lambda>_ _. False)"
  proof (rule triple_for_prefix)
    fix ys x zs assume e: "xs = ys @ x # zs"
    show "triple (?R ys) (notify_one_child G p x ok) (\<lambda>_. ?R (ys @ [x])) (\<lambda>_ _. False)"
    proof (rule triple_at)
      fix u assume u: "?R ys u"
      have x: "set (ys @ [x]) = insert x (set ys)" "valid x" "x \<notin> set ys" using xs e by auto
      show "yields u (notify_one_child G p x ok) (\<lambda>_. ?R (ys @ [x]))"
        unfolding x(1) by (rule notify_one_yields[OF w x(2) u x(3)])
    qed
  qed
  moreover have "?R [] s" using s by (simp add: notified_def deps_kept_def)
  ultimately show ?thesis by (rule triple_start)
qed

lemma reached_clear: "valid t \<Longrightarrow> reached ok s0 A X s \<Longrightarrow> yields s (dp_clear_cancel_votes D t) (\<lambda>_. reached ok s0 A X)"
  using clear_law[OF reached_good, of ok s0 A X s t] by (auto intro!: yieldsI simp: notified_def deps_kept_def)

lemma reached_srem: "valid q \<Longrightarrow> reached ok s0 A X s \<Longrightarrow>
    yields s (dp_srem_active_child D q t) (\<lambda>_. reached ok s0 (A(q := A q - {t})) X)"
  using srem_law[OF reached_good, of ok s0 A X s q t] by (auto intro!: yieldsI simp: notified_def deps_kept_def)

text \<open>A terminal notification of \<^term>\<open>p\<close>: every active child of \<^term>\<open>p\<close> loses one outstanding dependency, and \<^term>\<open>p\<close>
  leaves the active sets of its own parents.\<close>

definition left_by :: "string \<Rightarrow> string list \<Rightarrow> (string \<Rightarrow> string set) \<Rightarrow> string \<Rightarrow> string set" where
  "left_by p ds A = (\<lambda>q. if q \<in> set ds then A q - {p} else A q)"

lemma notify_yields:
  assumes w: "wired D G" and p: "valid p" and s: "good s" and ok: "ok = (word \<in> gv_success_words G)"
    and v: "\<forall>x \<in> at_active (att s) p. valid x" "\<forall>d \<in> set (depends_on (recs s p)). valid d"
  shows "yields s (notify_task_terminal G p word)
    (\<lambda>_. reached ok s (left_by p (depends_on (recs s p)) (at_active (att s))) (at_active (att s) p))"
proof -
  let ?A = "at_active (att s)" and ?ds = "depends_on (recs s p)"
  have D: "gv_storage G = D" using w by (simp add: wired_def)
  from children_law[OF s p] obtain s1 xs where xs: "dp_get_active_children D p s = (Inr xs, s1)" "distinct xs" "set xs = ?A p"
    "good s1" "recs s1 = recs s" "att s1 = att s" by blast
  have r1: "reached ok s1 = reached ok s" using xs(5,6) by (simp add: fun_eq_iff notified_def deps_kept_def)
  have "yields s1 (py_for xs (\<lambda>c. notify_one_child G p c ok)) (\<lambda>_. reached ok s ?A (?A p))"
    using notify_children_yields[OF w xs(2) _ xs(4), of p ok] v(1) xs(3,6) r1 by simp
  then have one: "yields s (py_except (py_bind (dp_get_active_children D p) (\<lambda>children.
      py_for children (\<lambda>c. notify_one_child G p c ok))) is_Exception (\<lambda>_. py_return ())) (\<lambda>_. reached ok s ?A (?A p))"
    by - (rule yields_except, rule yields_bind, rule xs(1))
  have two: "yields u (py_except (py_bind (dep_get G p) (\<lambda>rec. py_seq (py_for (depends_on rec) (\<lambda>q. dp_srem_active_child D q p))
        (if depends_on rec \<noteq> [] then dp_clear_cancel_votes D p else py_return ()))) is_Exception (\<lambda>_. py_return ()))
      (\<lambda>_. reached ok s (left_by p ?ds ?A) (?A p))" if u: "reached ok s ?A (?A p) u" for u
  proof -
    from get_ok[OF reached_good[OF u] p] obtain u1 where g: "dep_get G p u = (Inr (recs u p), u1)" "same u u1"
      unfolding dep_get_def D by blast
    have d: "depends_on (recs u p) = ?ds" using u by (simp add: notified_def deps_kept_def)
    have "triple (reached ok s (left_by p [] ?A) (?A p)) (py_for ?ds (\<lambda>q. dp_srem_active_child D q p))
        (\<lambda>_. reached ok s (left_by p ?ds ?A) (?A p)) (\<lambda>_ _. False)"
    proof (rule triple_for_prefix[where I = "\<lambda>ys. reached ok s (left_by p ys ?A) (?A p)"])
      fix ys q zs assume e: "?ds = ys @ q # zs"
      have e2: "left_by p (ys @ [q]) ?A = (left_by p ys ?A)(q := left_by p ys ?A q - {p})" by (auto simp: left_by_def fun_eq_iff)
      have q: "valid q" using v(2) e by simp
      show "triple (reached ok s (left_by p ys ?A) (?A p)) (dp_srem_active_child D q p) (\<lambda>_. reached ok s (left_by p (ys @ [q]) ?A) (?A p)) (\<lambda>_ _. False)"
        unfolding e2 by (rule triple_at) (rule reached_srem[OF q])
    qed
    moreover have "triple (reached ok s (left_by p ?ds ?A) (?A p)) (if ?ds \<noteq> [] then dp_clear_cancel_votes D p else py_return ())
        (\<lambda>_. reached ok s (left_by p ?ds ?A) (?A p)) (\<lambda>_ _. False)"
      using reached_clear[OF p] by (cases "?ds = []") (simp_all add: triple_at triple_return)
    ultimately have "triple (reached ok s (left_by p [] ?A) (?A p)) (py_seq (py_for ?ds (\<lambda>q. dp_srem_active_child D q p))
        (if ?ds \<noteq> [] then dp_clear_cancel_votes D p else py_return ())) (\<lambda>_. reached ok s (left_by p ?ds ?A) (?A p)) (\<lambda>_ _. False)"
      by (rule triple_seq)
    note run = triple_start[OF this, of u1]
    have "reached ok s (left_by p [] ?A) (?A p) u1" using reached_same[OF u g(2)] by (simp add: left_by_def)
    from run[OF this] show ?thesis by - (rule yields_except, rule yields_bind, rule g(1), simp only: d)
  qed
  show ?thesis unfolding notify_task_terminal_def D Let_def ok[symmetric]
    by (rule triple_seq[OF one]) (rule triple_at, rule two)
qed

text \<open>Any number of notifications, in any order, of different tasks.\<close>

lemma notify_all_yields:
  assumes w: "wired D G" and s: "good s" and ps: "distinct ps" "\<forall>p \<in> set ps. valid p" "c \<notin> set ps"
    and v: "\<forall>q. \<forall>x \<in> at_active (att s) q. valid x" "\<forall>q. \<forall>d \<in> set (depends_on (recs s q)). valid d"
  shows "yields s (py_for ps (\<lambda>p. notify_task_terminal G p (word p)))
    (\<lambda>_ s'. good s' \<and> ((\<forall>p \<in> set ps. word p \<in> gv_success_words G) \<longrightarrow> recs s' = recs s) \<and> (at_counter (att s) c \<longrightarrow> at_counter (att s') c) \<and> at_remaining (att s') c
       = at_remaining (att s) c - int (card {p \<in> set ps. c \<in> at_active (att s) p}))"
proof -
  let ?I = "\<lambda>ys u. good u \<and> deps_kept recs s u \<and> (\<forall>q. at_active (att u) q \<subseteq> at_active (att s) q)
      \<and> (\<forall>q. c \<in> at_active (att u) q \<longleftrightarrow> c \<in> at_active (att s) q) \<and> (at_counter (att s) c \<longrightarrow> at_counter (att u) c)
      \<and> ((\<forall>p \<in> set ys. word p \<in> gv_success_words G) \<longrightarrow> recs u = recs s)
      \<and> at_remaining (att u) c = at_remaining (att s) c - int (card {p \<in> set ys. c \<in> at_active (att s) p})"
  have "triple (?I []) (py_for ps (\<lambda>p. notify_task_terminal G p (word p))) (\<lambda>_. ?I ps) (\<lambda>_ _. False)"
  proof (rule triple_for_prefix, rule triple_at)
    fix ys p zs u assume e: "ps = ys @ p # zs" and u: "?I ys u"
    let ?ds = "depends_on (recs u p)" and ?A = "at_active (att u)"
    have p: "valid p" "p \<noteq> c" "p \<notin> set ys" using ps e by auto
    have d: "?ds = depends_on (recs s p)" using u by (simp add: deps_kept_def)
    have "?A p \<subseteq> at_active (att s) p" using u by blast
    then have vu: "\<forall>x \<in> ?A p. valid x" "\<forall>d \<in> set ?ds. valid d" using v d by auto
    have run: "yields u (notify_task_terminal G p (word p)) (\<lambda>_. reached (word p \<in> gv_success_words G) u (left_by p ?ds ?A) (?A p))"
      by (rule notify_yields[OF w p(1) _ refl vu]) (use u in simp)
    have post: "?I (ys @ [p]) u'" if r: "reached (word p \<in> gv_success_words G) u (left_by p ?ds ?A) (?A p) u'" for u'
    proof -
      have "{q \<in> set (ys @ [p]). c \<in> at_active (att s) q}
          = (if c \<in> at_active (att s) p then insert p {q \<in> set ys. c \<in> at_active (att s) q} else {q \<in> set ys. c \<in> at_active (att s) q})"
        by auto
      then have card: "card {q \<in> set (ys @ [p]). c \<in> at_active (att s) q}
          = card {q \<in> set ys. c \<in> at_active (att s) q} + (if c \<in> at_active (att s) p then 1 else 0)" using p(3) by simp
      have "good u'" "deps_kept recs s u'" using r u by (auto simp: notified_def deps_kept_def)
      moreover have "\<forall>q. at_active (att u') q \<subseteq> at_active (att s) q" "\<forall>q. c \<in> at_active (att u') q \<longleftrightarrow> c \<in> at_active (att s) q"
        using r u p(2) by (auto simp: notified_def left_by_def)
      moreover have "at_remaining (att u') c = at_remaining (att s) c - int (card {q \<in> set (ys @ [p]). c \<in> at_active (att s) q})"
        using r u unfolding card by (auto simp: notified_def)
      moreover have "at_counter (att s) c \<longrightarrow> at_counter (att u') c"
        "(\<forall>p \<in> set (ys @ [p]). word p \<in> gv_success_words G) \<longrightarrow> recs u' = recs s" using r u by (simp_all add: notified_def)
      ultimately show ?thesis by blast
    qed
    show "yields u (notify_task_terminal G p (word p)) (\<lambda>_. ?I (ys @ [p]))"
      by (rule triple_conseq[OF run], assumption, erule post, assumption)
  qed
  moreover have "?I [] s" using s by (simp add: deps_kept_def)
  ultimately have "yields s (py_for ps (\<lambda>p. notify_task_terminal G p (word p))) (\<lambda>_. ?I ps)" by (rule triple_start)
  from this show ?thesis by (rule triple_conseq) simp_all
qed

end

section \<open>Registration\<close>

definition registered_att :: "attached \<Rightarrow> string \<Rightarrow> string list \<Rightarrow> string list \<Rightarrow> attached" where
  "registered_att a c counted abnormal =
     \<lparr>at_active = (\<lambda>p. if p \<in> set counted then insert c (at_active a p) else at_active a p),
      at_remaining = (at_remaining a)(c := int (length counted)),
      at_votes = (at_votes a)(c := set abnormal), at_counter = (at_counter a)(c := True)\<rparr>"

context dep_store
begin

lemma sadd_all_yields:
  assumes "good s" "\<forall>p \<in> set ps. valid p"
  shows "yields s (py_for ps (\<lambda>p. dp_sadd_active_child D p c)) (\<lambda>_ u. good u \<and> recs u = recs s
    \<and> att u = (att s)\<lparr>at_active := (\<lambda>p. if p \<in> set ps then insert c (at_active (att s) p) else at_active (att s) p)\<rparr>)"
proof (rule triple_start[where P = "\<lambda>u. good u \<and> recs u = recs s
    \<and> att u = (att s)\<lparr>at_active := (\<lambda>p. if p \<in> set [] then insert c (at_active (att s) p) else at_active (att s) p)\<rparr>"])
  let ?A = "\<lambda>ys p. if p \<in> set ys then insert c (at_active (att s) p) else at_active (att s) p"
  let ?I = "\<lambda>ys u. good u \<and> recs u = recs s \<and> att u = (att s)\<lparr>at_active := ?A ys\<rparr>"
  show "triple (?I []) (py_for ps (\<lambda>p. dp_sadd_active_child D p c)) (\<lambda>_. ?I ps) (\<lambda>_ _. False)"
  proof (rule triple_for_prefix[where I = ?I], rule triple_at)
    fix ys p zs u assume e: "ps = ys @ p # zs" and u: "?I ys u"
    have "valid p" using assms(2) e by simp
    from sadd_law[OF conjunct1[OF u] this, of c] obtain u' where u': "dp_sadd_active_child D p c u = (Inr (), u')" "good u'"
      "recs u' = recs u" "att u' = (att u)\<lparr>at_active := (at_active (att u))(p := insert c (at_active (att u) p))\<rparr>" by blast
    have "(?A ys)(p := insert c (?A ys p)) = ?A (ys @ [p])" by (auto simp: fun_eq_iff)
    then show "yields u (dp_sadd_active_child D p c) (\<lambda>_. ?I (ys @ [p]))" using u u'
      by - (rule yieldsI, rule u'(1), simp)
  qed
qed (use assms(1) in simp)

lemma cast_votes_yields:
  assumes "good s" "valid c" "gv_storage G = D" "at_votes (att s) c = {}"
  shows "yields s (cast_votes G c n ps False) (\<lambda>b u. good u \<and> recs u = recs s
    \<and> att u = (att s)\<lparr>at_votes := (at_votes (att s))(c := set ps)\<rparr> \<and> (b \<longleftrightarrow> ps \<noteq> [] \<and> n \<le> int (card (set ps))))"
proof -
  let ?I = "\<lambda>ys b u. good u \<and> recs u = recs s \<and> att u = (att s)\<lparr>at_votes := (at_votes (att s))(c := set ys)\<rparr>
      \<and> (b \<longleftrightarrow> ys \<noteq> [] \<and> n \<le> int (card (set ys)))"
  have "triple (?I [] False) (cast_votes G c n ps False) (\<lambda>b. ?I ps b) (\<lambda>_ _. False)"
    unfolding cast_votes_def assms(3)
  proof (rule triple_fold_prefix[where I = ?I], rule triple_at)
    fix ys p zs b u assume u: "?I ys b u"
    from vote_law[OF conjunct1[OF u] assms(2), of p n] obtain u' where
      u': "dp_vote_and_check_threshold D c p n u = (Inr (n \<le> int (card (insert p (at_votes (att u) c)))), u')" "good u'"
        "recs u' = recs u" "att u' = (att u)\<lparr>at_votes := (at_votes (att u))(c := insert p (at_votes (att u) c))\<rparr>" by blast
    have "card (set ys) \<le> card (insert p (set ys))" by (rule card_mono) auto
    then have "?I (ys @ [p]) (n \<le> int (card (insert p (at_votes (att u) c))) \<or> b) u'" using u u' by auto
    then show "yields u (py_bind (dp_vote_and_check_threshold D c p n) (\<lambda>reached. py_return (reached \<or> b))) (\<lambda>b. ?I (ys @ [p]) b)"
      by (intro yieldsI) (simp_all add: py_simps u'(1))
  qed
  then show ?thesis by (rule triple_start) (use assms(1,4) in \<open>auto simp: fun_upd_idem\<close>)
qed

end

context dep_store
begin

lemma writes_yields:
  assumes "good s" "valid c" "gv_storage G = D" "at_votes (att s) c = {}" "\<forall>p \<in> set counted. valid p"
    "rec_word (recs s c) w" "parents \<noteq> []"
  shows "yields s (registration_writes G c parents primary snapshot counted abnormal)
    (\<lambda>b u. good u \<and> att u = registered_att (att s) c counted abnormal
       \<and> (b \<longleftrightarrow> abnormal \<noteq> [] \<and> int (length parents) \<le> int (card (set abnormal)))
       \<and> (\<exists>rc. recs u = (recs s)(c := rc) \<and> rec_word rc w \<and> depends_on rc = parents))"
proof -
  from yieldsD[OF sadd_all_yields[OF assms(1,5), of c]] obtain x1 s1 where
    1: "py_for counted (\<lambda>p. dp_sadd_active_child D p c) s = (Inr x1, s1)" "good s1" "recs s1 = recs s"
      "att s1 = (att s)\<lparr>at_active := (\<lambda>p. if p \<in> set counted then insert c (at_active (att s) p) else at_active (att s) p)\<rparr>" by blast
  have "at_votes (att s1) c = {}" using 1(4) assms(4) by simp
  from yieldsD[OF cast_votes_yields[OF 1(2) assms(2,3) this, of "int (length parents)" abnormal]] obtain b s2 where
    2: "cast_votes G c (int (length parents)) abnormal False s1 = (Inr b, s2)" "good s2" "recs s2 = recs s1"
      "att s2 = (att s1)\<lparr>at_votes := (at_votes (att s1))(c := set abnormal)\<rparr>"
      "b \<longleftrightarrow> abnormal \<noteq> [] \<and> int (length parents) \<le> int (card (set abnormal))" by blast
  have "rec_word (recs s2 c) w" using assms(6) 1(3) 2(3) by simp
  from update_deps[OF 2(2) assms(2) this assms(7), of "JStr primary" "JArr (map JStr snapshot)"] obtain s3 rc where
    3: "st_update_task (dp_base D) c [(''depends_on'', JArr (map JStr parents)), (''primary_parent'', JStr primary),
        (''exempt_resources_snapshot'', JArr (map JStr snapshot))] True s2 = (Inr (), s3)"
      "good s3" "att s3 = att s2" "recs s3 = (recs s2)(c := rc)" "rec_word rc w" "depends_on rc = parents" by blast
  from set_law[OF 3(2) assms(2), of "int (length counted)"] obtain s4 where
    4: "dp_set_remaining_deps D c (int (length counted)) s3 = (Inr (), s4)" "good s4" "recs s4 = recs s3"
      "att s4 = (att s3)\<lparr>at_remaining := (at_remaining (att s3))(c := int (length counted)), at_counter := (at_counter (att s3))(c := True)\<rparr>" by blast
  have run: "registration_writes G c parents primary snapshot counted abnormal s = (Inr b, s4)"
    using 1(1) 2(1) 3(1) 4(1) by (simp add: registration_writes_def assms(3) py_simps)
  have "att s4 = registered_att (att s) c counted abnormal"
    using 1(4) 2(4) 3(3) 4(4) by (simp add: registered_att_def)
  then show ?thesis using 1(3) 2(3,5) 3(4-6) 4(2,3) by - (rule yieldsI, rule run, auto)
qed

text \<open>A second look at parents that are all still running changes nothing.\<close>

lemma recheck_yields:
  assumes "good s" "gv_storage G = D" "\<forall>p \<in> set counted. valid p \<and> \<not> gv_is_terminal G (recs s p)"
  shows "yields s (registration_recheck G c n counted b) (\<lambda>b' u. b' = b \<and> same s u)"
proof -
  let ?I = "\<lambda>ys b' u. b' = b \<and> same s u"
  have "triple (?I [] b) (registration_recheck G c n counted b) (\<lambda>b'. ?I counted b') (\<lambda>_ _. False)"
    unfolding registration_recheck_def
  proof (rule triple_fold_prefix[where I = ?I], rule triple_at)
    fix ys p zs b' u assume e: "counted = ys @ p # zs" and u: "?I ys b' u"
    have p: "valid p" "\<not> gv_is_terminal G (recs u p)" using assms(3) e u by (simp_all add: keeps_store_def)
    have "good u" using u by (simp add: keeps_store_def)
    from get_ok[OF this p(1)] obtain u' where g: "dep_get G p u = (Inr (recs u p), u')" "same u u'"
      unfolding dep_get_def assms(2) by blast
    have run: "recheck_parent G c n p b' u = (Inr b', u')" using g(1) p(2) by (simp add: recheck_parent_def py_simps)
    show "yields u (recheck_parent G c n p b') (\<lambda>b'. ?I (ys @ [p]) b')"
      using u same_trans[OF _ g(2)] by - (rule yieldsI, rule run, simp)
  qed
  then show ?thesis by (rule triple_start) (simp add: assms(1))
qed

lemma audit_keeps:
  assumes "observers_ok good recs att G"
  shows "triple (same s) (emit_audit G ev) (\<lambda>_. same s) (\<lambda>_ _. False)"
proof (cases "gv_audit G")
  case None
  then show ?thesis by (simp add: emit_audit_def triple_return)
next
  case (Some writer)
  have "keeps (same s) (writer ev)"
  proof (rule keepsI)
    fix u r u' assume "same s u" "writer ev u = (r, u')"
    with assms Some show "same s u' \<and> r \<noteq> Inl CancelledErr" unfolding observers_ok_def keeps_store_def by metis
  qed
  then show ?thesis using Some by (simp add: emit_audit_def keeps_swallow)
qed

lemma graph_writes_yields:
  assumes "good s" "observers_ok good recs att G"
  shows "yields s (graph_writes G c parents primary) (\<lambda>_. same s)"
proof (cases "gv_dep_graph_store G")
  case None
  then show ?thesis using assms(1) by (simp add: graph_writes_def triple_def py_return_def)
next
  case (Some st)
  have w: "keeps (same s) (gs_write_dependency st ed)" for ed
  proof (rule keepsI)
    fix u r u' assume "same s u" "gs_write_dependency st ed u = (r, u')"
    with assms(2) Some show "same s u' \<and> r \<noteq> Inl CancelledErr" unfolding observers_ok_def keeps_store_def by metis
  qed
  have clock: "triple P (py_get (gv_clock G)) (\<lambda>_. P) E" for P E by (rule triple_get)
  have "triple (same s) (graph_writes G c parents primary) (\<lambda>_. same s) (\<lambda>_ _. False)"
    unfolding graph_writes_def Some option.case
  proof (rule triple_for, rule triple_except)
    fix p
    show "keeps (same s) (py_bind (py_get (gv_clock G)) (\<lambda>now. gs_write_dependency st
        \<lparr>de_child_id = c, de_parent_id = p, de_is_primary = (p = primary), de_registered_at = now\<rparr>))"
      by (rule triple_bind[OF clock]) (rule w)
  next
    fix e :: exn
    let ?P = "\<lambda>u. same s u \<and> is_Exception e"
    have "triple ?P (py_bind (py_get (gv_clock G)) (\<lambda>now. emit_audit G (ev now))) (\<lambda>_. same s) (\<lambda>_ _. False)" for ev
      by (rule triple_bind[OF clock], rule triple_conseq[OF audit_keeps[OF assms(2)]]) simp_all
    then show "triple ?P (py_bind (py_get (gv_clock G)) (\<lambda>now. emit_audit G
        \<lparr>ae_event_id = ''dep-index-fail-'' @ c @ ''-'' @ p, ae_task_id = c, ae_scope = None,
         ae_event_type = ''dep_index_write_failed'', ae_source = '''',
         ae_payload = [(''parent'', JStr p), (''error'', JStr (gv_str G e))], ae_created_at = now\<rparr>)) (\<lambda>_. same s) (\<lambda>_ _. False)" for p
      by this
  qed simp
  then show ?thesis by (rule triple_start) (simp add: assms(1))
qed

lemma trigger_yields:
  assumes "wired D G" "good s" "valid c"
  shows "yields s (trigger_cancel G c b) (\<lambda>_ u. frame good recs att c s u \<and> (\<not> b \<longrightarrow> u = s)
    \<and> (b \<longrightarrow> gv_lifecycle_cancel G \<noteq> None \<longrightarrow> (\<forall>st. rec_word (recs s c) (status_value st) \<longrightarrow> \<not> is_terminal st \<longrightarrow>
          rec_word (recs u c) (status_value CANCELLED))))"
proof (cases "b \<and> gv_lifecycle_cancel G \<noteq> None")
  case False
  then have "trigger_cancel G c b = py_return ()" by (auto simp: trigger_cancel_def split: bool.splits option.splits)
  then show ?thesis using False assms(2) by (auto simp: triple_def py_return_def frame_def)
next
  case True
  then have run: "trigger_cancel G c b = py_except (py_seq (lc_cancel (dp_base D) c) (py_return ())) is_Exception (\<lambda>_. py_return ())"
    using assms(1) by (auto simp: trigger_cancel_def wired_def)
  obtain r u where cu: "lc_cancel (dp_base D) c s = (r, u)" by fastforce
  have "frame good recs att c s s" using assms(2) by (simp add: frame_def)
  from tripleD[OF frame_cancel[OF assms(3)] this] cu have fr: "frame good recs att c s u" "r \<noteq> Inl CancelledErr"
    by (cases r; auto simp: is_Exception_def)+
  have ran: "trigger_cancel G c b s = (Inr (), u)" using cu fr(2) unfolding run by (cases r) (auto simp: py_simps is_Exception_def)
  have "rec_word (recs u c) (status_value CANCELLED)" if "rec_word (recs s c) (status_value st)" "\<not> is_terminal st" for st
    using cancel_live[OF good_ready[OF assms(2)] assms(3) that] cu by auto
  then show ?thesis using fr(1) True by - (rule yieldsI, rule ran, blast)
qed

end

text \<open>Why a registration is refused, if it is.\<close>

definition chosen_primary :: "string list \<Rightarrow> string option \<Rightarrow> string" where
  "chosen_primary parents pp = (case pp of Some p \<Rightarrow> if p \<noteq> '''' then p else hd parents | None \<Rightarrow> hd parents)"

definition register_error ::
  "(string \<Rightarrow> jdict) \<Rightarrow> string \<Rightarrow> string list \<Rightarrow> string option \<Rightarrow> string list option \<Rightarrow> exn option" where
  "register_error rs c parents pp ex =
     (if parents = [] then Some ValueErr
      else if rs c = [] \<or> (\<exists>p \<in> set parents. rs p = []) then Some FlowTaskNotFound
      else if (\<exists>p \<in> set parents. (p, c) \<in> (anc_rel rs)\<^sup>*) then Some ValueErr
      else if chosen_primary parents pp \<notin> set parents then Some ValueErr
      else if (\<exists>xs. ex = Some xs \<and> MAX_EXEMPT_RESOURCES < length xs) then Some ValueErr
      else None)"

lemma set_dedupe [simp]: "set (dedupe xs) = set xs"
  by (simp add: dedupe_def)

lemma distinct_dedupe [simp]: "distinct (dedupe xs)"
  by (simp add: dedupe_def)

lemma dedupe_Nil [simp]: "dedupe xs = [] \<longleftrightarrow> xs = []"
  by (simp add: dedupe_def)

lemma dedupe_Cons: "dedupe (x # xs) = x # dedupe (removeAll x xs)"
proof (induction xs rule: rev_induct)
  case (snoc y xs)
  then show ?case by (auto simp: dedupe_def)
qed (simp add: dedupe_def)

lemma hd_dedupe: "xs \<noteq> [] \<Longrightarrow> hd (dedupe xs) = hd xs"
  by (cases xs) (simp_all add: dedupe_Cons)

context dep_store
begin

lemma get_record_ok:
  assumes "gv_storage G = D" "good s" "valid t"
  shows "\<exists>s'. get_record G t s = (if recs s t = [] then Inl FlowTaskNotFound else Inr (recs s t), s') \<and> same s s'"
  using get_ok[OF assms(2,3)] by (auto simp: get_record_def dep_get_def assms(1) py_simps)

lemma get_records_ok:
  assumes "gv_storage G = D" "good s" "\<forall>p \<in> set ps. valid p"
  shows "\<exists>s'. get_records G ps s = (if \<exists>p \<in> set ps. recs s p = [] then Inl FlowTaskNotFound else Inr (map (\<lambda>p. (p, recs s p)) ps), s')
    \<and> same s s'"
  using assms(2,3)
proof (induction ps arbitrary: s)
  case (Cons p ps)
  from get_record_ok[OF assms(1) Cons.prems(1), of p] Cons.prems(2) obtain s1 where
    1: "get_record G p s = (if recs s p = [] then Inl FlowTaskNotFound else Inr (recs s p), s1)" "same s s1" by auto
  have "good s1" "recs s1 = recs s" using 1(2) by (simp_all add: keeps_store_def)
  with Cons.IH[of s1] Cons.prems(2) obtain s2 where
    2: "get_records G ps s1 = (if \<exists>p \<in> set ps. recs s p = [] then Inl FlowTaskNotFound else Inr (map (\<lambda>p. (p, recs s p)) ps), s2)"
      "same s1 s2" by auto
  show ?case
  proof (cases "recs s p = []")
    case True
    then show ?thesis using 1 by (simp add: py_bind_def)
  next
    case False
    then show ?thesis using 1(1) 2(1) same_trans[OF 1(2) 2(2)] by (simp add: py_simps)
  qed
qed (simp add: py_simps)

lemma chain_ok:
  assumes "gv_storage G = D" "lineage_ok valid rs" "good s" "recs s = rs" "\<forall>c. cur = Some c \<longrightarrow> valid c"
  shows "\<exists>s' xs. chain_loop n G cur vis res s = (Inr xs, s') \<and> same s s'"
  using assms(3-5)
proof (induction n arbitrary: cur vis res s)
  case 0
  then show ?case by (simp add: py_simps)
next
  case (Suc n)
  show ?case
  proof (cases "\<exists>c. cur = Some c \<and> c \<notin> set vis")
    case False
    then have "chain_loop (Suc n) G cur vis res = py_return res" by (cases cur) auto
    then show ?thesis using Suc.prems(1) by (simp add: py_simps)
  next
    case True
    then obtain c where c: "cur = Some c" "c \<notin> set vis" by blast
    from get_ok[OF Suc.prems(1), of c] Suc.prems(2,3) c(1) obtain s1 where
      g: "dep_get G c s = (Inr (rs c), s1)" "same s s1" by (auto simp: dep_get_def assms(1))
    have s1: "good s1" "recs s1 = rs" using g(2) Suc.prems(2) by (simp_all add: keeps_store_def)
    have "\<forall>p. str_field (rs c) ''parent_task_id'' = Some p \<longrightarrow> valid p" using assms(2) by (simp add: lineage_ok_def)
    note next_ok = Suc.IH[OF s1 this]
    have rest: "\<exists>s' xs. chain_loop n G (str_field (rs c) ''parent_task_id'') v r s1 = (Inr xs, s') \<and> same s s'" for v r
      using next_ok[of v r] same_trans[OF g(2)] by blast
    have got: "py_except (dep_get G c) is_Exception (\<lambda>_. py_return []) s = (Inr (rs c), s1)" using g(1) by (simp add: py_simps)
    have e: "chain_loop (Suc n) G cur vis res s
        = (if rs c = [] then py_return res
           else case str_field (rs c) ''resource'' of
               Some r \<Rightarrow> if r \<noteq> '''' \<and> r \<notin> set res
                 then if MAX_EXEMPT_RESOURCES \<le> length (res @ [r]) then py_return (res @ [r])
                      else chain_loop n G (str_field (rs c) ''parent_task_id'') (vis @ [c]) (res @ [r])
                 else chain_loop n G (str_field (rs c) ''parent_task_id'') (vis @ [c]) res
             | None \<Rightarrow> chain_loop n G (str_field (rs c) ''parent_task_id'') (vis @ [c]) res) s1"
      using got c unfolding chain_loop.simps by (simp add: py_bind_def)
    show ?thesis unfolding e using rest g(2) by (auto simp: py_return_def split: option.splits)
  qed
qed

lemma snapshot_ok:
  assumes "gv_storage G = D" "lineage_ok valid (recs s)" "good s" "valid primary"
  shows "\<exists>s' xs. exempt_snapshot G primary ex s
      = (if \<exists>ys. ex = Some ys \<and> MAX_EXEMPT_RESOURCES < length ys then Inl ValueErr else Inr xs, s') \<and> same s s'"
proof (cases ex)
  case None
  then show ?thesis
    using chain_ok[OF assms(1,2,3) refl, of "Some primary"] assms(4) by (auto simp: exempt_snapshot_def collect_chain_resources_def)
qed (use assms(3) in \<open>simp add: exempt_snapshot_def py_simps\<close>)

end

text \<open>What a registration leaves behind.\<close>

definition running_parents :: "'s governor \<Rightarrow> (string \<Rightarrow> jdict) \<Rightarrow> string list \<Rightarrow> string list" where
  "running_parents G rs parents = filter (\<lambda>p. \<not> gv_is_terminal G (rs p)) (dedupe parents)"

definition failed_parents :: "'s governor \<Rightarrow> (string \<Rightarrow> jdict) \<Rightarrow> string list \<Rightarrow> string list" where
  "failed_parents G rs parents = filter (\<lambda>p. gv_is_terminal G (rs p) \<and> \<not> gv_is_success G (rs p)) (dedupe parents)"

definition registered ::
  "('s \<Rightarrow> bool) \<Rightarrow> ('s \<Rightarrow> string \<Rightarrow> jdict) \<Rightarrow> ('s \<Rightarrow> attached) \<Rightarrow> 's governor \<Rightarrow> 's \<Rightarrow> string \<Rightarrow> string list \<Rightarrow> 's \<Rightarrow> bool" where
  "registered good recs att G s c parents u \<longleftrightarrow> good u
     \<and> att u = registered_att (att s) c (running_parents G (recs s) parents) (failed_parents G (recs s) parents)
     \<and> (\<forall>q. q \<noteq> c \<longrightarrow> recs u q = recs s q) \<and> depends_on (recs u c) = dedupe parents"

lemma concat_singletons: "concat (map (\<lambda>x. if P x then [x] else []) xs) = filter P xs"
  by (induction xs) auto

lemma running_parents_of: "counted_parents G (map (\<lambda>p. (p, rs p)) (dedupe parents)) = running_parents G rs parents"
  by (simp add: counted_parents_def running_parents_def comp_def concat_singletons)

lemma failed_parents_of: "abnormal_parents G (map (\<lambda>p. (p, rs p)) (dedupe parents)) = failed_parents G rs parents"
  by (simp add: abnormal_parents_def failed_parents_def comp_def concat_singletons)

lemma filter_all_length: "length xs \<le> length (filter P xs) \<longleftrightarrow> (\<forall>x \<in> set xs. P x)"
proof (induction xs)
  case (Cons x xs)
  then show ?case using length_filter_le[of P xs] by (cases "P x") (simp_all del: length_filter_le)
qed simp

lemma all_failed:
  assumes "parents \<noteq> []"
  shows "failed_parents G rs parents \<noteq> [] \<and> int (length (dedupe parents)) \<le> int (card (set (failed_parents G rs parents)))
    \<longleftrightarrow> (\<forall>p \<in> set parents. gv_is_terminal G (rs p) \<and> \<not> gv_is_success G (rs p))"
proof -
  let ?P = "\<lambda>p. gv_is_terminal G (rs p) \<and> \<not> gv_is_success G (rs p)"
  have f: "card (set (failed_parents G rs parents)) = length (filter ?P (dedupe parents))"
    unfolding failed_parents_def by (rule distinct_card) simp
  have "length (dedupe parents) \<le> length (filter ?P (dedupe parents)) \<longleftrightarrow> (\<forall>p \<in> set (dedupe parents). ?P p)"
    by (rule filter_all_length)
  moreover have "\<forall>p \<in> set parents. ?P p \<Longrightarrow> failed_parents G rs parents \<noteq> []"
    using assms by (auto simp: failed_parents_def filter_empty_conv)
  ultimately show ?thesis unfolding f by auto
qed

context dep_store
begin

text \<open>Past the checks.\<close>

lemma register_tail_yields:
  assumes w: "wired D G" and obs: "observers_ok good recs att G" and s: "good s" and c: "valid c" "rec_word (recs s c) (status_value st)"
    and ps: "parents \<noteq> []" "\<forall>p \<in> set parents. valid p" "c \<notin> set parents" and v: "at_votes (att s) c = {}"
  shows "yields s (py_bind (registration_writes G c (dedupe parents) primary snapshot (running_parents G (recs s) parents)
        (failed_parents G (recs s) parents)) (\<lambda>triggered.
      py_bind (registration_recheck G c (int (length (dedupe parents))) (running_parents G (recs s) parents) triggered) (\<lambda>triggered.
      py_seq (graph_writes G c (dedupe parents) primary) (trigger_cancel G c triggered))))
    (\<lambda>_ u. registered good recs att G s c parents u
      \<and> (if \<forall>p \<in> set parents. gv_is_terminal G (recs s p) \<and> \<not> gv_is_success G (recs s p)
         then gv_lifecycle_cancel G \<noteq> None \<longrightarrow> \<not> is_terminal st \<longrightarrow> rec_word (recs u c) (status_value CANCELLED)
         else rec_word (recs u c) (status_value st)))"
proof -
  let ?r = "running_parents G (recs s) parents" and ?f = "failed_parents G (recs s) parents" and ?ps = "dedupe parents"
  let ?all = "\<forall>p \<in> set parents. gv_is_terminal G (recs s p) \<and> \<not> gv_is_success G (recs s p)"
  have D: "gv_storage G = D" using w by (simp add: wired_def)
  have r: "\<forall>p \<in> set ?r. valid p" "c \<notin> set ?r" "?ps \<noteq> []" using ps by (auto simp: running_parents_def)
  from yieldsD[OF writes_yields[OF s c(1) D v r(1) c(2) r(3), of primary snapshot ?f]] obtain b s1 rc where
    1: "registration_writes G c ?ps primary snapshot ?r ?f s = (Inr b, s1)" "good s1" "att s1 = registered_att (att s) c ?r ?f"
      "b \<longleftrightarrow> ?f \<noteq> [] \<and> int (length ?ps) \<le> int (card (set ?f))" "recs s1 = (recs s)(c := rc)" "rec_word rc (status_value st)"
      "depends_on rc = ?ps" by blast
  have b: "b \<longleftrightarrow> ?all" unfolding 1(4) by (rule all_failed[OF ps(1)])
  have "\<forall>p \<in> set ?r. valid p \<and> \<not> gv_is_terminal G (recs s1 p)" using r 1(5) by (auto simp: running_parents_def)
  from yieldsD[OF recheck_yields[OF 1(2) D this, of c "int (length ?ps)" b]] obtain s2 where
    2: "registration_recheck G c (int (length ?ps)) ?r b s1 = (Inr b, s2)" "same s1 s2" by blast
  have "good s2" using 2(2) by (simp add: keeps_store_def)
  from yieldsD[OF graph_writes_yields[OF this obs, of c ?ps primary]] obtain x3 s3 where
    3: "graph_writes G c ?ps primary s2 = (Inr x3, s3)" "same s2 s3" by blast
  have s3: "good s3" "recs s3 = recs s1" "att s3 = att s1" using 2(2) 3(2) by (simp_all add: keeps_store_def)
  from yieldsD[OF trigger_yields[OF w s3(1) c(1), of b]] obtain x4 s4 where
    4: "trigger_cancel G c b s3 = (Inr x4, s4)" "frame good recs att c s3 s4" "\<not> b \<longrightarrow> s4 = s3"
      "b \<longrightarrow> gv_lifecycle_cancel G \<noteq> None \<longrightarrow> (\<forall>st. rec_word (recs s3 c) (status_value st) \<longrightarrow> \<not> is_terminal st \<longrightarrow>
          rec_word (recs s4 c) (status_value CANCELLED))" by blast
  have reg: "registered good recs att G s c parents s4"
    using 4(2) s3 1(3,5,7) by (simp add: registered_def frame_def)
  have word: "rec_word (recs s3 c) (status_value st)" using s3(2) 1(5,6) by simp
  have "if ?all then gv_lifecycle_cancel G \<noteq> None \<longrightarrow> \<not> is_terminal st \<longrightarrow> rec_word (recs s4 c) (status_value CANCELLED)
      else rec_word (recs s4 c) (status_value st)"
    using b 4(3,4) word by (cases b) auto
  with reg show ?thesis by - (rule yieldsI, simp add: py_simps 1(1) 2(1) 3(1) 4(1), blast)
qed

end

text \<open>A record whose ancestors fit the depth of the walk.\<close>

definition shallow :: "(string \<Rightarrow> jdict) \<Rightarrow> string list \<Rightarrow> bool" where
  "shallow rs parents \<longleftrightarrow> (\<exists>U. finite U \<and> card U \<le> MAX_LINEAGE_DEPTH \<and> set parents \<subseteq> U \<and> anc_rel rs `` U \<subseteq> U)"

context dep_store
begin

lemma no_cycle_shallow:
  assumes "gv_storage G = D" "good s" "lineage_ok valid (recs s)" "\<forall>x \<in> set parents. valid x" "shallow (recs s) parents"
  shows "\<exists>s'. assert_no_cycle G c parents s
      = (if \<exists>p \<in> set parents. (p, c) \<in> (anc_rel (recs s))\<^sup>* then Inl ValueErr else Inr (), s') \<and> same s s'"
proof -
  from assms(5) obtain U where U: "finite U" "card U \<le> 32" "set parents \<subseteq> U" "anc_rel (recs s) `` U \<subseteq> U"
    by (auto simp: shallow_def MAX_LINEAGE_DEPTH_def)
  from no_cycle_exact[OF assms(1-4), of c U] U show ?thesis by auto
qed

text \<open>The checks of a registration either refuse it or leave the writes, on a store that is as before.\<close>

lemma register_checks:
  assumes w: "wired D G" and s: "good s" "lineage_ok valid (recs s)" "shallow (recs s) parents"
    and c: "valid c" and ps: "\<forall>p \<in> set parents. valid p" and ne: "parents \<noteq> []"
  shows "\<exists>u xs. same s u \<and> register_dependency G c parents pp ex s =
    (case register_error (recs s) c parents pp ex of
       Some e \<Rightarrow> (Inl e, u)
     | None \<Rightarrow> py_bind (registration_writes G c (dedupe parents) (chosen_primary parents pp) xs (running_parents G (recs s) parents)
          (failed_parents G (recs s) parents)) (\<lambda>triggered.
          py_bind (registration_recheck G c (int (length (dedupe parents))) (running_parents G (recs s) parents) triggered)
          (\<lambda>triggered. py_seq (graph_writes G c (dedupe parents) (chosen_primary parents pp)) (trigger_cancel G c triggered))) u)"
proof -
  let ?ps = "dedupe parents"
  let ?miss = "\<exists>p \<in> set parents. recs s p = []" and ?cyc = "\<exists>p \<in> set parents. (p, c) \<in> (anc_rel (recs s))\<^sup>*"
  have D: "gv_storage G = D" using w by (simp add: wired_def)
  have ps': "\<forall>p \<in> set ?ps. valid p" using ps by simp
  from get_record_ok[OF D s(1) c(1)] obtain s1 where
    1: "get_record G c s = (if recs s c = [] then Inl FlowTaskNotFound else Inr (recs s c), s1)" "same s s1" by blast
  have s1: "good s1" "recs s1 = recs s" using 1(2) by (simp_all add: keeps_store_def)
  from get_records_ok[OF D s1(1) ps'] obtain s2 where
    2: "get_records G ?ps s1 = (if ?miss then Inl FlowTaskNotFound else Inr (map (\<lambda>p. (p, recs s p)) ?ps), s2)" "same s s2"
    using s1(2) same_trans[OF 1(2)] by auto
  have s2: "good s2" "recs s2 = recs s" using 2(2) by (simp_all add: keeps_store_def)
  have "shallow (recs s2) ?ps" using s(3) s2(2) by (simp add: shallow_def)
  from no_cycle_shallow[OF D s2(1) _ ps' this, of c] s(2) s2(2) same_trans[OF 2(2)] obtain s3 where
    3: "assert_no_cycle G c ?ps s2 = (if ?cyc then Inl ValueErr else Inr (), s3)" "same s s3" by auto
  have s3: "good s3" "recs s3 = recs s" using 3(2) by (simp_all add: keeps_store_def)
  have prim: "(case pp of Some p \<Rightarrow> if p \<noteq> '''' then p else hd ?ps | None \<Rightarrow> hd ?ps) = chosen_primary parents pp"
    using ne by (simp add: chosen_primary_def hd_dedupe split: option.splits)
  note run = register_dependency_def Let_def prim py_simps
  show ?thesis
  proof (cases "recs s c = [] \<or> ?miss \<or> ?cyc \<or> chosen_primary parents pp \<notin> set parents")
    case True
    then show ?thesis
      using ne 1 2 3 by (cases "recs s c = []"; cases ?miss; cases ?cyc) (auto simp: run register_error_def)
  next
    case ok: False
    then have "valid (chosen_primary parents pp)" using ps by blast
    from snapshot_ok[OF D _ s3(1) this, of ex] s(2) s3(2) same_trans[OF 3(2)] obtain s4 xs where
      4: "exempt_snapshot G (chosen_primary parents pp) ex s3
        = (if \<exists>ys. ex = Some ys \<and> MAX_EXEMPT_RESOURCES < length ys then Inl ValueErr else Inr xs, s4)" "same s s4" by auto
    define long where "long = (\<exists>ys. ex = Some ys \<and> MAX_EXEMPT_RESOURCES < length ys)"
    have e: "register_error (recs s) c parents pp ex = (if long then Some ValueErr else None)"
      using ok ne by (simp add: register_error_def long_def)
    from ok ne 1(1) 2(1) 3(1) 4(1)[folded long_def] 4(2) show ?thesis unfolding e
      by (cases long; intro exI[of _ s4] exI[of _ xs]) (simp_all add: run running_parents_of failed_parents_of)
  qed
qed

lemma register_outcome:
  assumes w: "wired D G" and obs: "observers_ok good recs att G" and s: "good s" "lineage_ok valid (recs s)" "shallow (recs s) parents"
    and c: "valid c" "recs s c \<noteq> [] \<Longrightarrow> rec_word (recs s c) (status_value st)" "at_votes (att s) c = {}"
    and ps: "\<forall>p \<in> set parents. valid p"
  shows "\<exists>r u. register_dependency G c parents pp ex s = (r, u)
    \<and> (case register_error (recs s) c parents pp ex of
         Some e \<Rightarrow> r = Inl e \<and> same s u
       | None \<Rightarrow> r = Inr () \<and> registered good recs att G s c parents u
           \<and> (if \<forall>p \<in> set parents. gv_is_terminal G (recs s p) \<and> \<not> gv_is_success G (recs s p)
              then gv_lifecycle_cancel G \<noteq> None \<longrightarrow> \<not> is_terminal st \<longrightarrow> rec_word (recs u c) (status_value CANCELLED)
              else rec_word (recs u c) (status_value st)))"
proof (cases "parents = []")
  case True
  then show ?thesis using s(1) by (simp add: register_dependency_def register_error_def py_simps)
next
  case ne: False
  from register_checks[OF w s c(1) ps ne, of pp ex] obtain s4 xs where 4: "same s s4" and
    run: "register_dependency G c parents pp ex s =
    (case register_error (recs s) c parents pp ex of
       Some e \<Rightarrow> (Inl e, s4)
     | None \<Rightarrow> py_bind (registration_writes G c (dedupe parents) (chosen_primary parents pp) xs (running_parents G (recs s) parents)
          (failed_parents G (recs s) parents)) (\<lambda>triggered.
          py_bind (registration_recheck G c (int (length (dedupe parents))) (running_parents G (recs s) parents) triggered)
          (\<lambda>triggered. py_seq (graph_writes G c (dedupe parents) (chosen_primary parents pp)) (trigger_cancel G c triggered))) s4)" by blast
  have s4: "good s4" "recs s4 = recs s" "att s4 = att s" using 4 by (simp_all add: keeps_store_def)
  show ?thesis
  proof (cases "register_error (recs s) c parents pp ex")
    case (Some e)
    then show ?thesis using run 4 by simp
  next
    case None
    then have "recs s c \<noteq> []" "c \<notin> set parents" by (auto simp: register_error_def split: if_splits)
    from yieldsD[OF register_tail_yields[OF w obs s4(1) c(1) _ ne ps this(2), of st "chosen_primary parents pp" xs]] c(2,3) s4 this(1)
    obtain x u where 5: "register_dependency G c parents pp ex s = (Inr x, u)" "registered good recs att G s4 c parents u"
      "if \<forall>p \<in> set parents. gv_is_terminal G (recs s p) \<and> \<not> gv_is_success G (recs s p)
       then gv_lifecycle_cancel G \<noteq> None \<longrightarrow> \<not> is_terminal st \<longrightarrow> rec_word (recs u c) (status_value CANCELLED)
       else rec_word (recs u c) (status_value st)" unfolding run None option.case by auto
    have "registered good recs att G s c parents u" using 5(2) s4 by (simp add: registered_def)
    then show ?thesis using None 5 by simp
  qed
qed

end

section \<open>Readiness\<close>

lemma running_card:
  "int (length (running_parents G rs parents)) - int (card (set ps \<inter> set (running_parents G rs parents))) \<le> 0
     \<longleftrightarrow> set (running_parents G rs parents) \<subseteq> set ps"
proof -
  let ?R = "set (running_parents G rs parents)"
  have len: "length (running_parents G rs parents) = card ?R"
    unfolding running_parents_def by (rule distinct_card[symmetric]) simp
  have "card ?R \<le> card (set ps \<inter> ?R) \<longleftrightarrow> set ps \<inter> ?R = ?R"
    using card_seteq[of ?R "set ps \<inter> ?R"] by auto
  then show ?thesis unfolding len by auto
qed

context dep_store
begin

text \<open>After a registration, and after any parents have been notified once each, the counter is what is left of the running
  parents; when they all succeeded, the child is listed as ready exactly when every one of them has been notified.\<close>

lemma notified_after_registration:
  assumes w: "wired D G" and obs: "observers_ok good recs att G" and s: "good s" "lineage_ok valid (recs s)" "shallow (recs s) parents"
    and c: "valid c" "rec_word (recs s c) (status_value st)" "at_votes (att s) c = {}" "\<forall>p. c \<notin> at_active (att s) p"
    and ps: "\<forall>p \<in> set parents. valid p" and ok: "register_error (recs s) c parents pp ex = None"
    and act: "\<forall>q. \<forall>x \<in> at_active (att s) q. valid x"
    and ns: "distinct ns" "\<forall>p \<in> set ns. valid p" "c \<notin> set ns"
  shows "\<exists>u. py_seq (register_dependency G c parents pp ex) (py_for ns (\<lambda>p. notify_task_terminal G p (word p))) s = (Inr (), u)
    \<and> good u \<and> at_counter (att u) c
    \<and> at_remaining (att u) c = int (length (running_parents G (recs s) parents))
        - int (card (set ns \<inter> set (running_parents G (recs s) parents)))
    \<and> ((\<forall>p \<in> set ns. word p \<in> gv_success_words G) \<longrightarrow>
       (\<exists>p \<in> set parents. \<not> (gv_is_terminal G (recs s p) \<and> \<not> gv_is_success G (recs s p))) \<longrightarrow> rec_word (recs u c) (status_value st))"
proof -
  let ?r = "running_parents G (recs s) parents"
  from register_outcome[OF w obs s c(1) _ c(3) ps, of st pp ex] c(2) ok obtain u where
    u: "register_dependency G c parents pp ex s = (Inr (), u)" "registered good recs att G s c parents u"
      "\<not> (\<forall>p \<in> set parents. gv_is_terminal G (recs s p) \<and> \<not> gv_is_success G (recs s p)) \<longrightarrow> rec_word (recs u c) (status_value st)"
    by (auto split: if_splits)
  have g: "good u" "at_remaining (att u) c = int (length ?r)" "at_counter (att u) c"
    "at_active (att u) = (\<lambda>p. if p \<in> set ?r then insert c (at_active (att s) p) else at_active (att s) p)"
    using u(2) by (simp_all add: registered_def registered_att_def)
  have act': "\<forall>q. \<forall>x \<in> at_active (att u) q. valid x" using act c(1) by (simp add: g(4))
  have deps: "\<forall>q. \<forall>d \<in> set (depends_on (recs u q)). valid d"
  proof (intro allI ballI)
    fix q d assume d: "d \<in> set (depends_on (recs u q))"
    show "valid d"
    proof (cases "q = c")
      case True
      then show ?thesis using d u(2) ps by (simp add: registered_def)
    next
      case False
      then have "(q, d) \<in> anc_rel (recs s)" using d u(2) by (simp add: registered_def anc_rel_def ancestors_popped_def)
      then show ?thesis using s(2) by (simp add: lineage_ok_def)
    qed
  qed
  have "{p \<in> set ns. c \<in> at_active (att u) p} = set ns \<inter> set ?r" using c(4) by (auto simp: g(4))
  with yieldsD[OF notify_all_yields[OF w g(1) ns act' deps, of word]] g(2,3) obtain x v where
    v: "py_for ns (\<lambda>p. notify_task_terminal G p (word p)) u = (Inr x, v)" "at_remaining (att v) c = int (length ?r) - int (card (set ns \<inter> set ?r))"
      "good v" "at_counter (att v) c" "(\<forall>p \<in> set ns. word p \<in> gv_success_words G) \<longrightarrow> recs v = recs u"
    by auto
  have "py_seq (register_dependency G c parents pp ex) (py_for ns (\<lambda>p. notify_task_terminal G p (word p))) s = (Inr (), v)"
    using u(1) v(1) by (simp add: py_simps)
  then show ?thesis using v(2-5) u(3) by (intro exI[of _ v]) auto
qed

lemma ready_when_notified:
  assumes w: "wired D G" and obs: "observers_ok good recs att G" and s: "good s" "lineage_ok valid (recs s)" "shallow (recs s) parents"
    and c: "valid c" "rec_word (recs s c) (gv_ready_status G)" "gv_ready_status G = status_value st" "at_votes (att s) c = {}"
      "\<forall>p. c \<notin> at_active (att s) p"
    and ps: "\<forall>p \<in> set parents. valid p" and ok: "register_error (recs s) c parents pp ex = None"
      "\<exists>p \<in> set parents. \<not> (gv_is_terminal G (recs s p) \<and> \<not> gv_is_success G (recs s p))"
    and act: "\<forall>q. \<forall>x \<in> at_active (att s) q. valid x"
    and ns: "distinct ns" "\<forall>p \<in> set ns. valid p" "c \<notin> set ns" "\<forall>p \<in> set ns. word p \<in> gv_success_words G"
  shows "\<exists>ready u. py_seq (register_dependency G c parents pp ex)
      (py_seq (py_for ns (\<lambda>p. notify_task_terminal G p (word p))) (get_ready_tasks G)) s = (Inr ready, u)
    \<and> (c \<in> set ready \<longleftrightarrow> set (running_parents G (recs s) parents) \<subseteq> set ns)"
proof -
  have c2: "rec_word (recs s c) (status_value st)" using c(2,3) by simp
  from notified_after_registration[OF w obs s c(1) c2 c(4,5) ps ok(1) act ns(1-3), of word] ok(2) ns(4) c(3) obtain u where
    u: "py_seq (register_dependency G c parents pp ex) (py_for ns (\<lambda>p. notify_task_terminal G p (word p))) s = (Inr (), u)"
      "good u" "at_counter (att u) c" "at_remaining (att u) c = int (length (running_parents G (recs s) parents))
        - int (card (set ns \<inter> set (running_parents G (recs s) parents)))" "rec_word (recs u c) (gv_ready_status G)" by auto
  from ready_law[OF u(2), of "gv_ready_status G"] c(1) obtain v xs where
    v: "dp_list_ready_dep_tasks D (Some (gv_ready_status G)) u = (Inr xs, v)"
      "c \<in> set xs \<longleftrightarrow> at_counter (att u) c \<and> at_remaining (att u) c \<le> 0 \<and> rec_word (recs u c) (gv_ready_status G)" by blast
  have "py_seq (register_dependency G c parents pp ex)
      (py_seq (py_for ns (\<lambda>p. notify_task_terminal G p (word p))) (get_ready_tasks G)) s = (Inr xs, v)"
    using u(1) v(1) w by (auto simp: get_ready_tasks_def wired_def py_simps split: prod.splits sum.splits)
  moreover have "c \<in> set xs \<longleftrightarrow> set (running_parents G (recs s) parents) \<subseteq> set ns"
    using v(2) u(3-5) running_card[of G "recs s" parents ns] by simp
  ultimately show ?thesis by blast
qed

text \<open>A parent that ends, and is notified, between the writes of a registration and its second look is counted twice.\<close>

lemma counted_twice:
  assumes w: "wired D G" and s: "good s" and c: "valid c" "rec_word (recs s c) wc" "at_votes (att s) c = {}"
    and ab: "valid a" "valid b" "a \<noteq> b" "c \<noteq> a" "c \<noteq> b"
    and run: "rec_word (recs s a) wa" "wa \<notin> set terminal" "rec_word (recs s b) wb" "wb \<notin> gv_terminal_words G"
    and words: "ws \<in> gv_terminal_words G" "ws \<in> gv_success_words G"
    and act: "at_active (att s) a = {}" "depends_on (recs s a) = []"
  shows "\<exists>u t. py_bind (registration_writes G c [a, b] a [] [a, b] []) (\<lambda>triggered.
      py_seq (st_update_task (dp_base D) a [(''status'', JStr ws)] False)
     (py_seq (notify_task_terminal G a ws) (registration_recheck G c 2 [a, b] triggered))) s = (Inr t, u)
    \<and> at_remaining (att u) c = 0 \<and> recs u b = recs s b"
proof -
  have D: "gv_storage G = D" using w by (simp add: wired_def)
  from yieldsD[OF writes_yields[OF s c(1) D c(3) _ c(2), of "[a, b]" "[a, b]" a "[]" "[]"]] ab obtain t s1 rc where
    1: "registration_writes G c [a, b] a [] [a, b] [] s = (Inr t, s1)" "good s1" "att s1 = registered_att (att s) c [a, b] []"
      "recs s1 = (recs s)(c := rc)" by auto
  have "rec_word (recs s1 a) wa" using run(1) 1(4) ab(4) by simp
  from update_status[OF good_ready[OF 1(2)] ab(1) this run(2), of ws] obtain s2 ra where
    2: "st_update_task (dp_base D) a [(''status'', JStr ws)] False s1 = (Inr (), s2)" "rec_word ra ws" "recs s2 = (recs s1)(a := ra)" by blast
  from update_frame[OF 1(2) ab(1) _ _ 2(1)] have f2: "good s2" "att s2 = att s1" "depends_on ra = []"
    using act(2) 2(3) 1(4) ab(4) by (simp_all add: frame_def)
  have v: "\<forall>x \<in> at_active (att s2) a. valid x" "\<forall>d \<in> set (depends_on (recs s2 a)). valid d"
    using f2 1(3) act(1) c(1) 2(3) by (simp_all add: registered_att_def)
  have A: "at_active (att s2) a = {c}" "depends_on (recs s2 a) = []"
    using f2 1(3) act(1) 2(3) by (simp_all add: registered_att_def)
  from yieldsD[OF notify_yields[OF w ab(1) f2(1) _ v, of True ws]] words(2) A obtain x s3 where
    3: "notify_task_terminal G a ws s2 = (Inr x, s3)" "reached True s2 (left_by a [] (at_active (att s2))) {c} s3" by auto
  have s3: "good s3" "recs s3 = recs s2" "at_remaining (att s3) c = 1"
    using 3(2) f2(2) 1(3) by (simp_all add: notified_def registered_att_def)
  from get_ok[OF s3(1) ab(1)] s3(2) 2(3) obtain s4 where 4: "dep_get G a s3 = (Inr ra, s4)" "same s3 s4"
    by (auto simp: dep_get_def D)
  have s4: "good s4" "recs s4 = recs s3" "att s4 = att s3" using 4(2) by (simp_all add: keeps_store_def)
  from decr_law[OF s4(1) c(1)] s4 s3 obtain s5 where
    5: "dp_decr_remaining_deps D c s4 = (Inr 0, s5)" "good s5" "recs s5 = recs s2" "at_remaining (att s5) c = 0" by auto
  from get_ok[OF 5(2) ab(2)] 5(3) 2(3) 1(4) ab(3,5) obtain s6 where 6: "dep_get G b s5 = (Inr (recs s b), s6)" "same s5 s6"
    by (auto simp: dep_get_def D)
  have ta: "gv_is_terminal G ra" "gv_is_success G ra" and tb: "\<not> gv_is_terminal G (recs s b)"
    using 2(2) words run(3,4) by (simp_all add: gv_is_terminal_def gv_is_success_def status_in_def rec_word_def)
  have "registration_recheck G c 2 [a, b] t s3 = (Inr t, s6)"
    using 4(1) 5(1) 6(1) ta tb by (simp add: registration_recheck_def recheck_parent_def py_simps D)
  then have "py_bind (registration_writes G c [a, b] a [] [a, b] []) (\<lambda>triggered.
      py_seq (st_update_task (dp_base D) a [(''status'', JStr ws)] False)
     (py_seq (notify_task_terminal G a ws) (registration_recheck G c 2 [a, b] triggered))) s = (Inr t, s6)"
    using 1(1) 2(1) 3(1) by (simp add: py_simps)
  moreover have "at_remaining (att s6) c = 0" "recs s6 b = recs s b"
    using 6(2) 5(3,4) 2(3) 1(4) ab(3,5) by (simp_all add: keeps_store_def)
  ultimately show ?thesis by blast
qed

end

end
