(* ===== verification/Dependency_Store.thy ===== *)
theory Dependency_Store
  imports Dependency_Spec
begin

text \<open>
  The Redis task store as the storage of the dependency governor: the attached sets and counters
  (\<^verbatim>\<open>core/redis/task_db.py\<close>, the dependency primitives) meet the contract \<^verbatim>\<open>dep_store\<close>, for every Redis that
  acts as documented.  Then the governor's theorems, and the registration race, on that store.
\<close>

section \<open>Ready tasks\<close>

text \<open>\<^verbatim>\<open>client.scan_iter\<close> is a parameter: what it yields for a prefix and a suffix.\<close>

definition ready_candidates :: "string \<Rightarrow> string \<Rightarrow> string list \<Rightarrow> rstr option list \<Rightarrow> string list" where
  "ready_candidates pre sfx keys raws =
     concat (map (\<lambda>(key, raw).
        case raw of
          None \<Rightarrow> [take (length key - length pre - length sfx) (drop (length pre) key)]
        | Some (TInt n) \<Rightarrow> if n \<le> 0 then [take (length key - length pre - length sfx) (drop (length pre) key)] else []
        | Some _ \<Rightarrow> []) (zip keys raws))"

definition list_ready_dep_tasks ::
  "'r redis \<Rightarrow> task_db \<Rightarrow> (string \<Rightarrow> string \<Rightarrow> ('r world, string list) py) \<Rightarrow> string option \<Rightarrow> ('r world, string list) py" where
  "list_ready_dep_tasks R db scan_iter status =
     (let sfx = '':remaining_deps''; pre = td_task_key_prefix db @ '':''
      in py_bind (scan_iter pre sfx) (\<lambda>keys.
           if keys = [] then py_return []
           else py_bind (redis_read (\<lambda>d. map (\<lambda>key. r_get R key d) keys)) (\<lambda>raws.
             let candidates = ready_candidates pre sfx keys raws
             in case status of
                  None \<Rightarrow> py_return (sort candidates)
                | Some st \<Rightarrow>
                    if candidates = [] then py_return []
                    else py_bind (bulk_get_tasks R db candidates) (\<lambda>records.
                      py_return (sort (concat (map (\<lambda>(tid, rec). if map_of rec ''status'' = Some (JStr st) then [tid] else [])
                        (zip candidates records))))))))"

definition redis_dep_storage ::
  "'r redis \<Rightarrow> (json \<Rightarrow> json) \<Rightarrow> task_db \<Rightarrow> string \<Rightarrow> string \<Rightarrow> (string \<Rightarrow> string \<Rightarrow> ('r world, string list) py) \<Rightarrow>
   'r world dep_storage" where
  "redis_dep_storage R cj db eid timestamp scan_iter =
     \<lparr>dp_base = redis_storage R cj db eid timestamp,
      dp_sadd_active_child = sadd_active_child R db, dp_srem_active_child = srem_active_child R db,
      dp_get_active_children = get_active_children R db, dp_set_remaining_deps = set_remaining_deps R db,
      dp_decr_remaining_deps = decr_remaining_deps R db, dp_vote_and_check_threshold = vote_and_check_threshold R db,
      dp_clear_cancel_votes = clear_cancel_votes R db, dp_sadd_result_consumer = sadd_result_consumer R db,
      dp_list_ready_dep_tasks = list_ready_dep_tasks R db scan_iter\<rparr>"

section \<open>The attached keys\<close>

abbreviation active_key :: "task_db \<Rightarrow> string \<Rightarrow> string" where
  "active_key db q \<equiv> attached_key db q ''active_children''"

abbreviation counter_key :: "task_db \<Rightarrow> string \<Rightarrow> string" where
  "counter_key db q \<equiv> attached_key db q ''remaining_deps''"

abbreviation votes_key :: "task_db \<Rightarrow> string \<Rightarrow> string" where
  "votes_key db q \<equiv> attached_key db q ''cancel_votes''"

lemma attached_inj [simp]: "attached_key db q x = attached_key db q' x \<longleftrightarrow> q = q'"
  by (simp add: attached_key_def)

lemma attached_differ [simp]:
  "active_key db q \<noteq> counter_key db q'" "counter_key db q \<noteq> active_key db q'" "active_key db q \<noteq> votes_key db q'"
  "votes_key db q \<noteq> active_key db q'" "counter_key db q \<noteq> votes_key db q'" "votes_key db q \<noteq> counter_key db q'"
  by (auto simp: attached_key_def dest: arg_cong[of _ _ rev])

lemma attached_not_task: "valid_tid t \<Longrightarrow> attached_key db q x \<noteq> task_key db t"
  by (auto simp: attached_key_def task_key_def valid_tid_def)

definition dep_layout :: "task_db \<Rightarrow> (string \<Rightarrow> kind) \<Rightarrow> bool" where
  "dep_layout db ty \<longleftrightarrow> (\<forall>q. ty (active_key db q) = KSet \<and> ty (counter_key db q) = KStr \<and> ty (votes_key db q) = KSet)"

definition att_of :: "task_db \<Rightarrow> keyspace \<Rightarrow> attached" where
  "att_of db ks = \<lparr>at_active = (\<lambda>q. set (ks_set (active_key db q) ks)),
     at_remaining = (\<lambda>q. rint (ks_get (counter_key db q) ks)), at_votes = (\<lambda>q. set (ks_set (votes_key db q) ks)),
     at_counter = (\<lambda>q. ks_vals ks (counter_key db q) \<noteq> None)\<rparr>"

text \<open>The sets are duplicate-free, and the counters are integers and finitely many.\<close>

definition att_ok :: "task_db \<Rightarrow> keyspace \<Rightarrow> bool" where
  "att_ok db ks \<longleftrightarrow> (\<forall>q. distinct (ks_set (active_key db q) ks) \<and> distinct (ks_set (votes_key db q) ks)
     \<and> (ks_vals ks (counter_key db q) = None \<or> (\<exists>i. ks_vals ks (counter_key db q) = Some (RStr (TInt i)))))
     \<and> finite {q. ks_vals ks (counter_key db q) \<noteq> None}"

definition deps_ok :: "jdict \<Rightarrow> bool" where
  "deps_ok rec \<longleftrightarrow> (case map_of rec ''depends_on'' of None \<Rightarrow> True | Some (JArr xs) \<Rightarrow> xs \<noteq> [] | _ \<Rightarrow> False)"

definition dep_good :: "('r \<Rightarrow> keyspace) \<Rightarrow> task_db \<Rightarrow> (string \<Rightarrow> kind) \<Rightarrow> 'r world \<Rightarrow> bool" where
  "dep_good view db ty w \<longleftrightarrow> store_ready view db ty w \<and> att_ok db (view (w_db w)) \<and> (\<forall>t. deps_ok (store_recs view db w t))"

definition dep_att :: "('r \<Rightarrow> keyspace) \<Rightarrow> task_db \<Rightarrow> 'r world \<Rightarrow> attached" where
  "dep_att view db w = att_of db (view (w_db w))"

text \<open>Keyspaces that agree on the attached keys.\<close>

lemma att_of_cong:
  assumes "\<And>q. ks_vals ks' (active_key db q) = ks_vals ks (active_key db q)"
    "\<And>q. ks_vals ks' (counter_key db q) = ks_vals ks (counter_key db q)"
    "\<And>q. ks_vals ks' (votes_key db q) = ks_vals ks (votes_key db q)"
  shows "att_of db ks' = att_of db ks" "att_ok db ks' = att_ok db ks"
  using assms by (simp_all add: att_of_def att_ok_def ks_set_def ks_get_def)

section \<open>Writing one attached key\<close>

definition touched :: "string \<Rightarrow> rval option \<Rightarrow> keyspace \<Rightarrow> keyspace \<Rightarrow> bool" where
  "touched k v ks ks' \<longleftrightarrow> ks_vals ks' = (ks_vals ks)(k := v) \<and> ks_us ks' = ks_us ks \<and> (\<forall>k'. k' \<noteq> k \<longrightarrow> ks_dl ks' k' = ks_dl ks k')"

lemma touched_put: "touched k v ks (ks_put k v dl ks)"
  by (simp add: touched_def ks_put_def)

lemma touched_put_set: "touched k (if x = [] then None else Some (RSet x)) ks (ks_put_set k x ks)"
  by (simp add: ks_put_set_def touched_put)

lemma touched_expire: "touched k v ks ks' \<Longrightarrow> 0 < ex \<Longrightarrow> touched k v ks (ks_expire k ex ks')"
  by (auto simp: touched_def ks_expire_def ks_put_def)

lemma touched_abs:
  assumes "store_ok db ty ks" "touched k v ks ks'" "\<And>t. valid_tid t \<Longrightarrow> k \<noteq> task_key db t" "ty k \<noteq> KZset" "v = None \<or> kind_of (the v) = ty k"
  shows "abs_store db ks' = abs_store db ks" "store_ok db ty ks'"
proof -
  have k: "status_index_key db st \<noteq> k" for st using assms(1,4) by (auto simp: store_ok_def store_layout_def)
  have "task_entry db ks' t = task_entry db ks t" for t
    using assms(2) assms(3)[of t] by (auto simp: task_entry_def touched_def)
  then show "abs_store db ks' = abs_store db ks"
    using assms(2) k by (simp add: abs_store_def fun_eq_iff touched_def ks_zset_def ks_ms_def)
  show "store_ok db ty ks'"
    using assms(1,2,5) assms(3) by (auto simp: store_ok_def touched_def well_typed_def)
qed

lemma att_touched_active:
  "touched (active_key db q) (if x = [] then None else Some (RSet x)) ks ks' \<Longrightarrow>
    att_of db ks' = (att_of db ks)\<lparr>at_active := (at_active (att_of db ks))(q := set x)\<rparr>
    \<and> (att_ok db ks \<longrightarrow> distinct x \<longrightarrow> att_ok db ks')"
  by (auto simp: touched_def att_of_def att_ok_def ks_set_def ks_get_def fun_eq_iff)

lemma att_touched_votes:
  "touched (votes_key db q) (if x = [] then None else Some (RSet x)) ks ks' \<Longrightarrow>
    att_of db ks' = (att_of db ks)\<lparr>at_votes := (at_votes (att_of db ks))(q := set x)\<rparr>
    \<and> (att_ok db ks \<longrightarrow> distinct x \<longrightarrow> att_ok db ks')"
  by (auto simp: touched_def att_of_def att_ok_def ks_set_def ks_get_def fun_eq_iff)

lemma att_touched_counter:
  "touched (counter_key db q) (Some (RStr (TInt n))) ks ks' \<Longrightarrow>
    att_of db ks' = (att_of db ks)\<lparr>at_remaining := (at_remaining (att_of db ks))(q := n), at_counter := (at_counter (att_of db ks))(q := True)\<rparr>
    \<and> (att_ok db ks \<longrightarrow> att_ok db ks')"
proof -
  assume t: "touched (counter_key db q) (Some (RStr (TInt n))) ks ks'"
  have "{p. ks_vals ks' (counter_key db p) \<noteq> None} = insert q {p. ks_vals ks (counter_key db p) \<noteq> None}" using t by (auto simp: touched_def)
  then have "finite {p. ks_vals ks (counter_key db p) \<noteq> None} \<Longrightarrow> finite {p. ks_vals ks' (counter_key db p) \<noteq> None}" by simp
  with t show ?thesis by (auto simp: touched_def att_of_def att_ok_def ks_set_def ks_get_def rint_def fun_eq_iff)
qed

section \<open>The primitives on a documented Redis\<close>

text \<open>What \<^verbatim>\<open>SCAN\<close> with a pattern returns while nobody writes: the keys that match, and no others.  (A keyspace of the model
  may be infinite; a server's is not.)\<close>

definition scan_documented ::
  "('r \<Rightarrow> keyspace) \<Rightarrow> (string \<Rightarrow> string \<Rightarrow> ('r world, string list) py) \<Rightarrow> bool" where
  "scan_documented view scan_iter \<longleftrightarrow> (\<forall>pre sfx w. quiet w \<longrightarrow>
     finite {k. ks_vals (view (w_db w)) k \<noteq> None \<and> (\<exists>mid. k = pre @ mid @ sfx)} \<longrightarrow> (\<exists>keys n. scan_iter pre sfx w = (Inr keys, w\<lparr>w_pc := n\<rparr>)
     \<and> set keys = {k. ks_vals (view (w_db w)) k \<noteq> None \<and> (\<exists>mid. k = pre @ mid @ sfx)}))"

locale redis_dep_store = redis_task_store R view cj db ty eid timestamp
  for R :: "'r redis" and view :: "'r \<Rightarrow> keyspace" and cj :: "json \<Rightarrow> json" and db :: task_db and ty :: "string \<Rightarrow> kind"
    and eid :: string and timestamp :: string +
  fixes scan_iter :: "string \<Rightarrow> string \<Rightarrow> ('r world, string list) py"
  assumes layout: "dep_layout db ty" and scan: "scan_documented view scan_iter"
begin

lemma touched_good:
  assumes "dep_good view db ty w" "quiet w'" "touched (attached_key db q x) v (view (w_db w)) (view (w_db w'))"
    "ty (attached_key db q x) \<noteq> KZset" "v = None \<or> kind_of (the v) = ty (attached_key db q x)" "att_ok db (view (w_db w'))"
  shows "dep_good view db ty w'" "store_recs view db w' = store_recs view db w"
proof -
  have r: "store_ready view db ty w" using assms(1) by (simp add: dep_good_def)
  have ok: "store_ok db ty (view (w_db w))" using r by (simp add: store_ready_def)
  note t = touched_abs[OF ok assms(3) attached_not_task assms(4,5)]
  from unchanged[OF r assms(2) t(2,1)] show "store_recs view db w' = store_recs view db w" by blast
  with unchanged[OF r assms(2) t(2,1)] assms(1,6) show "dep_good view db ty w'" by (simp add: dep_good_def)
qed

text \<open>The TTL follows the owner's; values stay.\<close>

lemma sync_touched:
  assumes "quiet w" "touched k v ks (view (w_db w))"
  shows "\<exists>w'. sync_attached_ttl R db t k w = (Inr (), w') \<and> quiet w' \<and> touched k v ks (view (w_db w'))"
proof -
  let ?ex = "if 0 < r_ttl R (task_key db t) (w_db w) then r_ttl R (task_key db t) (w_db w) else td_default_expire_time db"
  have "0 < ?ex" using expiry by simp
  from touched_expire[OF assms(2) this] assms show ?thesis
    by (cases "ks_exists k (view (w_db w))")
      (simp_all add: sync_attached_ttl_def redis_read_def redis_write_def quiet_call py_simps)
qed

lemma sadd_touched:
  assumes "quiet w" "set_or_absent k (view (w_db w))"
  shows "touched k (if set_add c (ks_set k (view (w_db w))) = [] then None else Some (RSet (set_add c (ks_set k (view (w_db w))))))
    (view (w_db w)) (view (snd (r_sadd R k c (w_db w))))"
  using sadd[OF assms(2), of c] touched_put_set by simp

lemma well_typed_of: "dep_good view db ty w \<Longrightarrow> well_typed ty (view (w_db w))"
  by (simp add: dep_good_def store_ready_def store_ok_def)

lemma quiet_of: "dep_good view db ty w \<Longrightarrow> quiet w"
  by (simp add: dep_good_def store_ready_def)

lemma att_ok_of: "dep_good view db ty w \<Longrightarrow> att_ok db (view (w_db w))"
  by (simp add: dep_good_def)

lemma set_add_simps [simp]: "set (set_add m x) = insert m (set x)" "distinct (set_add m x) \<longleftrightarrow> distinct x" "set_add m x \<noteq> []"
  by (auto simp: set_add_def)

lemma redis_sadd_law:
  assumes "dep_good view db ty w"
  shows "\<exists>w'. sadd_active_child R db p c w = (Inr (), w') \<and> dep_good view db ty w' \<and> store_recs view db w' = store_recs view db w
    \<and> dep_att view db w' = (dep_att view db w)\<lparr>at_active := (at_active (dep_att view db w))(p := insert c (at_active (dep_att view db w) p))\<rparr>"
proof -
  let ?k = "active_key db p" and ?x = "set_add c (ks_set (active_key db p) (view (w_db w)))"
  have ty: "ty ?k = KSet" using layout by (simp add: dep_layout_def)
  have q: "quiet w" by (rule quiet_of[OF assms])
  have sa: "set_or_absent ?k (view (w_db w))" by (rule well_typedD(3)[OF well_typed_of[OF assms] ty])
  let ?w1 = "w\<lparr>w_pc := Suc (w_pc w), w_db := snd (r_sadd R ?k c (w_db w))\<rparr>"
  have "touched ?k (if ?x = [] then None else Some (RSet ?x)) (view (w_db w)) (view (w_db ?w1))" using sadd_touched[OF q sa] by simp
  from sync_touched[OF _ this, of p] q obtain w' where w': "sync_attached_ttl R db p ?k ?w1 = (Inr (), w')" "quiet w'"
    "touched ?k (if ?x = [] then None else Some (RSet ?x)) (view (w_db w)) (view (w_db w'))" by auto
  have at: "dep_att view db w' = (dep_att view db w)\<lparr>at_active := (at_active (dep_att view db w))(p := set ?x)\<rparr>" "att_ok db (view (w_db w'))"
    using att_touched_active[OF w'(3)] att_ok_of[OF assms] by (simp_all add: dep_att_def att_ok_def)
  have "dep_good view db ty w'" "store_recs view db w' = store_recs view db w"
    by (rule touched_good[OF assms w'(2,3)]; simp add: ty at(2))+
  moreover have "sadd_active_child R db p c w = (Inr (), w')"
    using w'(1) q by (simp add: sadd_active_child_def quiet_call py_simps Let_def)
  ultimately show ?thesis using at(1) by (simp add: dep_att_def att_of_def)
qed

end

context redis_dep_store
begin

lemma redis_srem_law:
  assumes "dep_good view db ty w"
  shows "\<exists>w'. srem_active_child R db p c w = (Inr (), w') \<and> dep_good view db ty w' \<and> store_recs view db w' = store_recs view db w
    \<and> dep_att view db w' = (dep_att view db w)\<lparr>at_active := (at_active (dep_att view db w))(p := at_active (dep_att view db w) p - {c})\<rparr>"
proof -
  let ?k = "active_key db p" and ?x = "removeAll c (ks_set (active_key db p) (view (w_db w)))"
  have ty: "ty ?k = KSet" using layout by (simp add: dep_layout_def)
  have q: "quiet w" by (rule quiet_of[OF assms])
  let ?w' = "w\<lparr>w_pc := Suc (w_pc w), w_db := r_srem R ?k c (w_db w)\<rparr>"
  have t: "touched ?k (if ?x = [] then None else Some (RSet ?x)) (view (w_db w)) (view (w_db ?w'))"
    using srem[OF well_typedD(3)[OF well_typed_of[OF assms] ty], of c] touched_put_set by simp
  have at: "dep_att view db ?w' = (dep_att view db w)\<lparr>at_active := (at_active (dep_att view db w))(p := set ?x)\<rparr>" "att_ok db (view (w_db ?w'))"
    using att_touched_active[OF t] att_ok_of[OF assms] by (simp_all add: dep_att_def att_ok_def distinct_removeAll)
  have "dep_good view db ty ?w'" "store_recs view db ?w' = store_recs view db w"
    by (rule touched_good[OF assms _ t]; use q at(2) ty in simp)+
  moreover have "srem_active_child R db p c w = (Inr (), ?w')"
    using q by (simp add: srem_active_child_def redis_write_def quiet_call)
  ultimately show ?thesis using at(1) by (simp add: dep_att_def att_of_def)
qed

lemma redis_children_law:
  assumes "dep_good view db ty w"
  shows "\<exists>w' xs. get_active_children R db p w = (Inr xs, w') \<and> dep_good view db ty w' \<and> store_recs view db w' = store_recs view db w
    \<and> dep_att view db w' = dep_att view db w \<and> distinct xs \<and> set xs = at_active (dep_att view db w) p"
proof -
  let ?k = "active_key db p" and ?w' = "w\<lparr>w_pc := Suc (w_pc w)\<rparr>"
  have ty: "ty ?k = KSet" using layout by (simp add: dep_layout_def)
  note m = smembers[OF well_typedD(3)[OF well_typed_of[OF assms] ty]]
  have "get_active_children R db p w = (Inr (sort (r_smembers R ?k (w_db w))), ?w')"
    using quiet_of[OF assms] by (simp add: get_active_children_def redis_read_def quiet_call py_simps)
  moreover have "distinct (r_smembers R ?k (w_db w))" using m att_ok_of[OF assms] by (simp add: att_ok_def)
  ultimately show ?thesis using m assms
    by (auto simp: dep_att_def att_of_def dep_good_def store_ready_def store_recs_def fun_eq_iff)
qed

lemma redis_counter_law:
  assumes "dep_good view db ty w" "quiet w1" "touched (counter_key db t) (Some (RStr (TInt n))) (view (w_db w)) (view (w_db w1))"
  shows "\<exists>w'. sync_attached_ttl R db t (counter_key db t) w1 = (Inr (), w') \<and> dep_good view db ty w' \<and> store_recs view db w' = store_recs view db w
    \<and> dep_att view db w' = (dep_att view db w)\<lparr>at_remaining := (at_remaining (dep_att view db w))(t := n),
        at_counter := (at_counter (dep_att view db w))(t := True)\<rparr>"
proof -
  let ?k = "counter_key db t"
  have ty: "ty ?k = KStr" using layout by (simp add: dep_layout_def)
  from sync_touched[OF assms(2,3), of t] obtain w' where w': "sync_attached_ttl R db t ?k w1 = (Inr (), w')" "quiet w'"
    "touched ?k (Some (RStr (TInt n))) (view (w_db w)) (view (w_db w'))" by auto
  note at = att_touched_counter[OF w'(3)]
  have "dep_good view db ty w'" "store_recs view db w' = store_recs view db w"
    by (rule touched_good[OF assms(1) w'(2,3)]; use at att_ok_of[OF assms(1)] ty in simp)+
  then show ?thesis using w'(1) at by (simp add: dep_att_def)
qed

lemma redis_set_law:
  assumes "dep_good view db ty w"
  shows "\<exists>w'. set_remaining_deps R db t n w = (Inr (), w') \<and> dep_good view db ty w' \<and> store_recs view db w' = store_recs view db w
    \<and> dep_att view db w' = (dep_att view db w)\<lparr>at_remaining := (at_remaining (dep_att view db w))(t := n),
        at_counter := (at_counter (dep_att view db w))(t := True)\<rparr>"
proof -
  let ?w1 = "w\<lparr>w_pc := Suc (w_pc w), w_db := r_set R (counter_key db t) (TInt n) (w_db w)\<rparr>"
  have q: "quiet w" by (rule quiet_of[OF assms])
  have "touched (counter_key db t) (Some (RStr (TInt n))) (view (w_db w)) (view (w_db ?w1))" by (simp add: touched_put)
  from redis_counter_law[OF assms _ this] q show ?thesis
    by (simp add: set_remaining_deps_def redis_write_def quiet_call py_simps Let_def)
qed

lemma redis_decr_law:
  assumes "dep_good view db ty w"
  shows "\<exists>w'. decr_remaining_deps R db t w = (Inr (at_remaining (dep_att view db w) t - 1), w') \<and> dep_good view db ty w'
    \<and> store_recs view db w' = store_recs view db w
    \<and> dep_att view db w' = (dep_att view db w)\<lparr>at_remaining := (at_remaining (dep_att view db w))(t := at_remaining (dep_att view db w) t - 1),
        at_counter := (at_counter (dep_att view db w))(t := True)\<rparr>"
proof -
  let ?k = "counter_key db t" and ?n = "at_remaining (dep_att view db w) t - 1"
  let ?w1 = "w\<lparr>w_pc := Suc (w_pc w), w_db := snd (r_decr R ?k (w_db w))\<rparr>"
  have q: "quiet w" by (rule quiet_of[OF assms])
  have "ks_vals (view (w_db w)) ?k = None \<or> (\<exists>i. ks_vals (view (w_db w)) ?k = Some (RStr (TInt i)))"
    using att_ok_of[OF assms] by (simp add: att_ok_def)
  note d = decr[OF this]
  have n: "fst (r_decr R ?k (w_db w)) = ?n" using d by (simp add: dep_att_def att_of_def)
  have "touched ?k (Some (RStr (TInt ?n))) (view (w_db w)) (view (w_db ?w1))"
    using d by (simp add: touched_put dep_att_def att_of_def)
  from redis_counter_law[OF assms _ this] q n show ?thesis
    by (auto simp: decr_remaining_deps_def quiet_call py_simps Let_def)
qed

lemma redis_vote_law:
  assumes "dep_good view db ty w"
  shows "\<exists>w'. vote_and_check_threshold R db c p n w = (Inr (n \<le> int (card (insert p (at_votes (dep_att view db w) c)))), w')
    \<and> dep_good view db ty w' \<and> store_recs view db w' = store_recs view db w
    \<and> dep_att view db w' = (dep_att view db w)\<lparr>at_votes := (at_votes (dep_att view db w))(c := insert p (at_votes (dep_att view db w) c))\<rparr>"
proof -
  let ?k = "votes_key db c" and ?x = "set_add p (ks_set (votes_key db c) (view (w_db w)))"
  have ty: "ty ?k = KSet" using layout by (simp add: dep_layout_def)
  have q: "quiet w" by (rule quiet_of[OF assms])
  have sa: "set_or_absent ?k (view (w_db w))" by (rule well_typedD(3)[OF well_typed_of[OF assms] ty])
  let ?d1 = "snd (r_sadd R ?k p (w_db w))"
  let ?w1 = "w\<lparr>w_pc := Suc (w_pc w), w_db := ?d1\<rparr>"
  have t: "touched ?k (if ?x = [] then None else Some (RSet ?x)) (view (w_db w)) (view (w_db ?w1))" using sadd_touched[OF q sa] by simp
  have "distinct (ks_set ?k (view (w_db w)))" using att_ok_of[OF assms] by (simp add: att_ok_def)
  then have dx: "distinct ?x" by simp
  have "set_or_absent ?k (view ?d1)" "ks_set ?k (view ?d1) = ?x" using t by (auto simp: touched_def set_or_absent_def ks_set_def)
  then have "r_scard R ?k ?d1 = card (insert p (at_votes (dep_att view db w) c))"
    using scard[of ?k ?d1] distinct_card[OF dx] by (simp add: dep_att_def att_of_def)
  moreover from sync_touched[OF _ t, of c] q obtain w' where w': "sync_attached_ttl R db c ?k ?w1 = (Inr (), w')" "quiet w'"
    "touched ?k (if ?x = [] then None else Some (RSet ?x)) (view (w_db w)) (view (w_db w'))" by auto
  moreover have at: "dep_att view db w' = (dep_att view db w)\<lparr>at_votes := (at_votes (dep_att view db w))(c := set ?x)\<rparr>" "att_ok db (view (w_db w'))"
    using att_touched_votes[OF w'(3)] att_ok_of[OF assms] dx by (simp_all add: dep_att_def)
  moreover have "dep_good view db ty w'" "store_recs view db w' = store_recs view db w"
    by (rule touched_good[OF assms w'(2,3)]; simp add: ty at(2))+
  ultimately show ?thesis
    using q by (simp add: vote_and_check_threshold_def quiet_call py_simps Let_def dep_att_def att_of_def)
qed

lemma redis_clear_law:
  assumes "dep_good view db ty w"
  shows "\<exists>w'. clear_cancel_votes R db c w = (Inr (), w') \<and> dep_good view db ty w' \<and> store_recs view db w' = store_recs view db w
    \<and> dep_att view db w' = (dep_att view db w)\<lparr>at_votes := (at_votes (dep_att view db w))(c := {})\<rparr>"
proof -
  let ?k = "votes_key db c" and ?w' = "w\<lparr>w_pc := Suc (w_pc w), w_db := r_del R (votes_key db c) (w_db w)\<rparr>"
  have ty: "ty ?k = KSet" using layout by (simp add: dep_layout_def)
  have q: "quiet w" by (rule quiet_of[OF assms])
  have t: "touched ?k None (view (w_db w)) (view (w_db ?w'))" by (simp add: touched_put)
  have at: "dep_att view db ?w' = (dep_att view db w)\<lparr>at_votes := (at_votes (dep_att view db w))(c := {})\<rparr>" "att_ok db (view (w_db ?w'))"
    using att_touched_votes[where x = "[]", of db c] t att_ok_of[OF assms] by (simp_all add: dep_att_def)
  have "dep_good view db ty ?w'" "store_recs view db ?w' = store_recs view db w"
    by (rule touched_good[OF assms _ t]; use q at(2) ty in simp)+
  moreover have "clear_cancel_votes R db c w = (Inr (), ?w')"
    using q by (simp add: clear_cancel_votes_def redis_write_def quiet_call)
  ultimately show ?thesis using at(1) by simp
qed

end

section \<open>Updates leave the attached keys alone\<close>

context redis_service
begin

lemma index_add_vals:
  assumes "store_ok db ty (view d)" "0 < ex" "ty k' = KZset" "ty k \<noteq> KZset"
  shows "ks_vals (view (index_add R k' ex tid d)) k = ks_vals (view d) k"
proof -
  have "zset_or_absent k' (view d)" using assms(1,3) by (auto simp: store_ok_def intro: well_typedD(2))
  note z = zadd[OF this]
  have "k \<noteq> k'" using assms(3,4) by auto
  then show ?thesis using bump_ttl_view(1)[OF assms(2)] by (simp add: index_add_def Let_def z ks_vals_put_zset)
qed

lemma index_migrate_vals:
  assumes ok: "store_ok db ty (view d)" and ex: "0 < ex" and k: "ty k \<noteq> KZset"
  shows "ks_vals (view (index_migrate R db tid old new lv ex d)) k = ks_vals (view d) k"
proof -
  define d1 where "d1 = (if lv \<and> old \<noteq> '''' then r_zrem R (status_index_key db old) tid d else d)"
  have lay: "\<And>st. ty (status_index_key db st) = KZset" using ok by (simp add: store_ok_def store_layout_def)
  have ne: "k \<noteq> status_index_key db st" for st using lay[of st] k by auto
  have z: "zset_or_absent (status_index_key db old) (view d)" using ok lay by (auto simp: store_ok_def intro: well_typedD(2))
  have ok1: "store_ok db ty (view d1)" using ok index_leave(2)[OF ok] by (simp add: d1_def)
  have v1: "ks_vals (view d1) k = ks_vals (view d) k" using ne by (simp add: d1_def zrem[OF z] ks_vals_put_zset)
  show ?thesis using index_add_vals[OF ok1 ex lay k] v1 by (simp add: index_migrate_def d1_def[symmetric] Let_def)
qed

lemma task_update_vals:
  assumes ok: "store_ok db ty (view d)" and tid: "valid_tid tid" and k: "ty k \<noteq> KZset" "k \<noteq> task_key db tid"
  shows "ks_vals (view (snd (task_update_lua R cj db tid u ex d))) k = ks_vals (view d) k"
proof -
  let ?ex = "resolve_expiry R db (task_key db tid) ex d"
  have w: "ks_vals (view (index_migrate R db tid old new lv ?ex (r_setex R (task_key db tid) (TJson (JObj r)) ?ex d))) k = ks_vals (view d) k"
    if "0 < ?ex" for old new lv r
  proof -
    have "store_ok db ty (view (r_setex R (task_key db tid) (TJson (JObj r)) ?ex d))"
      unfolding setex[OF that] by (rule store_ok_put_record[OF ok tid])
    from index_migrate_vals[OF this that k(1)] show ?thesis using k(2) by (simp add: setex[OF that])
  qed
  show ?thesis
  proof (cases "\<exists>cur. r_get R (task_key db tid) d = Some (TJson (JObj cur))")
    case True
    then obtain cur where "r_get R (task_key db tid) d = Some (TJson (JObj cur))" by blast
    then show ?thesis using w by (simp add: task_update_lua_def Let_def)
  next
    case False
    have "snd (task_update_lua R cj db tid u ex d) = d"
    proof (cases "r_get R (task_key db tid) d")
      case (Some a)
      have "(case a of TJson (JObj cur) \<Rightarrow> f cur | _ \<Rightarrow> (LCrash, d)) = (LCrash, d)" for f
        using False Some by (auto split: rstr.split json.split)
      with Some show ?thesis by (simp add: task_update_lua_def)
    qed (simp add: task_update_lua_def)
    then show ?thesis by simp
  qed
qed

lemma follow_vals:
  assumes "quiet w"
  shows "ks_vals (view (w_db (snd (follow_attached_keys_ttl R db tid ex w)))) = ks_vals (view (w_db w))"
proof -
  have f: "ks_vals (view (fold (\<lambda>sfx. r_expire R (attached_key db tid sfx) e) xs d)) = ks_vals (view d)" if "0 < e" for e xs d
    using that by (induction xs arbitrary: d) simp_all
  show ?thesis
    using assms by (auto simp: follow_attached_keys_ttl_def redis_read_def redis_write_def quiet_call py_simps f)
qed

lemma update_task_vals:
  assumes "quiet w" "store_ok db ty (view (w_db w))" "valid_tid tid" "\<not> vd \<or> map_of u ''status'' = None" "ty k \<noteq> KZset" "k \<noteq> task_key db tid"
  shows "ks_vals (view (w_db (snd (update_task R cj db tid u None vd w)))) k = ks_vals (view (w_db w)) k"
proof -
  let ?r = "task_update_lua R cj db tid u (-1) (w_db w)"
  let ?w1 = "w\<lparr>w_pc := Suc (w_pc w), w_db := snd ?r\<rparr>"
  have run: "update_task R cj db tid u None vd w = py_seq (raise_lua (fst ?r)) (follow_attached_keys_ttl R db tid (-1)) ?w1"
    using assms(1,4) by (auto simp: update_task_def quiet_call py_simps Let_def)
  have v: "ks_vals (view (snd ?r)) k = ks_vals (view (w_db w)) k" by (rule task_update_vals[OF assms(2,3,5,6)])
  have f: "ks_vals (view (w_db (snd (follow_attached_keys_ttl R db tid (-1) ?w1)))) k = ks_vals (view (snd ?r)) k"
    using follow_vals[of ?w1] assms(1) by simp
  show ?thesis unfolding run using v f
    by (auto simp: raise_lua_def py_seq_def py_bind_def py_return_def py_raise_def split: lua_result.splits)
qed

end

lemma map_of_lua_merge_other: "map_of u k = None \<Longrightarrow> map_of (lua_merge c u) k = map_of c k"
  unfolding lua_merge_def by (induction u arbitrary: c) (auto simp: map_of_dset split: if_splits)

lemma cj_JStr: "cjson_ok cj \<Longrightarrow> cj x = JStr s \<longleftrightarrow> x = JStr s"
  unfolding cjson_ok_def by metis

lemma str_items_cj: "cjson_ok cj \<Longrightarrow> [s. JStr s \<leftarrow> map cj xs] = [s. JStr s \<leftarrow> xs]"
proof (induction xs)
  case (Cons x xs)
  note k = cj_JStr[OF Cons.prems, of x]
  have "(case cj x of JStr s \<Rightarrow> [s] | _ \<Rightarrow> []) = (case x of JStr s \<Rightarrow> [s] | _ \<Rightarrow> [])"
  proof (cases "\<exists>s. x = JStr s")
    case True
    then obtain s where s: "x = JStr s" ..
    have "cj x = JStr s" using k[of s] s by blast
    then show ?thesis unfolding s by simp
  next
    case False
    then have "\<forall>s. cj x \<noteq> JStr s" using k by blast
    then have "(case cj x of JStr s \<Rightarrow> [s] | _ \<Rightarrow> []) = []" by (cases "cj x") simp_all
    moreover have "(case x of JStr s \<Rightarrow> [s] | _ \<Rightarrow> []) = []" using False by (cases x) simp_all
    ultimately show ?thesis by simp
  qed
  with Cons show ?case by simp
qed simp

lemma depends_on_merge:
  assumes "cjson_ok cj" "deps_ok r" "map_of u ''depends_on'' = None"
  shows "depends_on (lua_merge (cj_obj cj r) (cj_obj cj u)) = depends_on r \<and> deps_ok (lua_merge (cj_obj cj r) (cj_obj cj u))"
proof -
  have m: "map_of (lua_merge (cj_obj cj r) (cj_obj cj u)) ''depends_on'' = map_option cj (map_of r ''depends_on'')"
    using assms(3) by (simp add: map_of_lua_merge_other map_of_cj_obj)
  show ?thesis
  proof (cases "map_of r ''depends_on''")
    case None
    then show ?thesis using m by (simp add: depends_on_def deps_ok_def)
  next
    case (Some v)
    then obtain xs where xs: "v = JArr xs" "xs \<noteq> []" using assms(2) by (auto simp: deps_ok_def split: json.splits)
    then have "cj v = JArr (map cj xs)" using assms(1) by (simp add: cjson_ok_def)
    with Some xs m show ?thesis using str_items_cj[OF assms(1), of xs] by (simp add: depends_on_def deps_ok_def)
  qed
qed

lemma as_update_cases:
  "(\<exists>err. as_update cj fin t u ex A = (LErr err, A))
   \<or> (\<exists>cur dl. as_rec A t = Some (cur, dl) \<and> (rec_status cur \<notin> set fin \<or> new_status_of u (rec_status cur) = rec_status cur))"
  by (cases "as_rec A t") (auto simp: as_update_def Let_def)

context redis_dep_store
begin

lemma update_att:
  assumes "dep_good view db ty w" "valid_tid t" "\<not> vd \<or> map_of u ''status'' = None" "update_task R cj db t u None vd w = (r, w')"
  shows "dep_att view db w' = dep_att view db w" "att_ok db (view (w_db w'))"
proof -
  have ok: "store_ok db ty (view (w_db w))" using assms(1) by (simp add: dep_good_def store_ready_def)
  have v: "ks_vals (view (w_db w')) k = ks_vals (view (w_db w)) k" if "ty k \<noteq> KZset" "k \<noteq> task_key db t" for k
    using update_task_vals[OF quiet_of[OF assms(1)] ok assms(2,3) that, of cj] assms(4) by simp
  have "ks_vals (view (w_db w')) (attached_key db q x) = ks_vals (view (w_db w)) (attached_key db q x)"
    if "ty (attached_key db q x) \<noteq> KZset" for q x
    by (rule v[OF that attached_not_task[OF assms(2)]])
  then have k: "ks_vals (view (w_db w')) (active_key db q) = ks_vals (view (w_db w)) (active_key db q)"
    "ks_vals (view (w_db w')) (counter_key db q) = ks_vals (view (w_db w)) (counter_key db q)"
    "ks_vals (view (w_db w')) (votes_key db q) = ks_vals (view (w_db w)) (votes_key db q)" for q
    using layout by (simp_all add: dep_layout_def)
  note att_of_cong[of "view (w_db w')" db "view (w_db w)", OF k]
  then show "dep_att view db w' = dep_att view db w" "att_ok db (view (w_db w'))"
    using att_ok_of[OF assms(1)] by (simp_all add: dep_att_def)
qed

lemma redis_update_frame:
  assumes "dep_good view db ty w" "valid_tid t" "map_of u ''depends_on'' = None" "\<not> vd \<or> map_of u ''status'' = None"
    "update_task R cj db t u None vd w = (r, w')"
  shows "frame (dep_good view db ty) (store_recs view db) (dep_att view db) t w w' \<and> r \<noteq> Inl CancelledErr"
proof -
  let ?A = "abs_store db (view (w_db w))" and ?fin = "td_terminal_statuses db"
  have ready: "store_ready view db ty w" using assms(1) by (simp add: dep_good_def)
  from update_quiet[OF ready assms(2) expiry assms(4), of cj] assms(5) obtain ex where
    u: "r = (case fst (as_update cj ?fin t u ex ?A) of
         LErr err \<Rightarrow> Inl (if err = ''NOT_FOUND'' then CoreTaskNotFound else CoreInvalidTransfer) | _ \<Rightarrow> Inr ())"
    "quiet w'" "store_ok db ty (view (w_db w'))" "abs_store db (view (w_db w')) = snd (as_update cj ?fin t u ex ?A)" by auto
  note at = update_att[OF assms(1,2,4,5)]
  have exc: "r \<noteq> Inl CancelledErr" unfolding u(1) by (simp split: lua_result.splits)
  from as_update_cases[of cj ?fin t u ex ?A] consider (refused) err where "as_update cj ?fin t u ex ?A = (LErr err, ?A)"
    | (granted) cur dl where "as_rec ?A t = Some (cur, dl)" "rec_status cur \<notin> set ?fin \<or> new_status_of u (rec_status cur) = rec_status cur"
    by blast
  then show ?thesis
  proof cases
    case refused
    with unchanged[OF ready u(2,3)] u(4) have "store_ready view db ty w'" "store_recs view db w' = store_recs view db w" by simp_all
    then show ?thesis using at assms(1) exc by (simp add: frame_def dep_good_def)
  next
    case granted
    note cur = granted(1) and st = granted(2)
    let ?m = "lua_merge (cj_obj cj cur) (cj_obj cj u)"
    have "cur \<noteq> []" using ready cur unfolding store_ready_def by blast
    then have ne: "?m \<noteq> []" by (simp add: cj_obj_def)
    from as_update_written(2)[OF cur st, of cj ex] u(4)
    have "as_rec (abs_store db (view (w_db w'))) = (as_rec ?A)(t := Some (?m, Some (as_now ?A + 1000 * ex)))" by simp
    from written[OF ready u(2,3) ne this] have w: "store_ready view db ty w'" "store_recs view db w' = (store_recs view db w)(t := ?m)" by blast+
    have c: "store_recs view db w t = cur" using cur by (simp add: store_recs_def)
    then have "deps_ok cur" using assms(1) by (auto simp: dep_good_def)
    from depends_on_merge[OF cjson this assms(3)] w at c assms(1) exc show ?thesis by (simp add: frame_def dep_good_def)
  qed
qed

lemma get_same:
  assumes "dep_good view db ty w" "valid_tid t"
  shows "\<exists>w'. get_task R db t w = (Inr (store_recs view db w t), w') \<and> dep_good view db ty w' \<and> w_db w' = w_db w"
  using get_quiet[of db ty w t] assms by (auto simp: dep_good_def)

lemma redis_cancel_frame:
  assumes "dep_good view db ty w" "valid_tid t" "request_cancel R cj db t w = (r, w')"
  shows "frame (dep_good view db ty) (store_recs view db) (dep_att view db) t w w' \<and> r \<noteq> Inl CancelledErr"
proof -
  from get_same[OF assms(1,2)] obtain w1 where g: "get_task R db t w = (Inr (store_recs view db w t), w1)" "dep_good view db ty w1" "w_db w1 = w_db w"
    by blast
  have eq: "store_recs view db w1 = store_recs view db w" "dep_att view db w1 = dep_att view db w"
    using g(3) by (simp_all add: store_recs_def dep_att_def fun_eq_iff)
  show ?thesis
  proof (cases "store_recs view db w t = []")
    case True
    then show ?thesis using assms(3) g eq by (auto simp: request_cancel_def py_simps frame_def)
  next
    case False
    obtain r1 w2 where u: "update_task R cj db t [(''cancel_requested'', JBool True)] None True w1 = (r1, w2)" by fastforce
    from redis_update_frame[OF g(2) assms(2) _ _ u]
    have f: "frame (dep_good view db ty) (store_recs view db) (dep_att view db) t w w2" "r1 \<noteq> Inl CancelledErr"
      using eq by (auto simp: frame_def)
    have "w' = w2 \<and> r \<noteq> Inl CancelledErr"
      using assms(3) g(1) u f(2) False by (cases r1) (auto simp: request_cancel_def py_simps)
    then show ?thesis using f(1) by simp
  qed
qed

lemma redis_update_deps:
  assumes "dep_good view db ty w" "valid_tid t" "rec_word (store_recs view db w t) wd" "ps \<noteq> []"
  shows "\<exists>w' rc. update_task R cj db t [(''depends_on'', JArr (map JStr ps)), (''primary_parent'', pv),
        (''exempt_resources_snapshot'', ev)] None True w = (Inr (), w')
      \<and> dep_good view db ty w' \<and> dep_att view db w' = dep_att view db w \<and> store_recs view db w' = (store_recs view db w)(t := rc)
      \<and> rec_word rc wd \<and> depends_on rc = ps"
proof -
  let ?u = "[(''depends_on'', JArr (map JStr ps)), (''primary_parent'', pv), (''exempt_resources_snapshot'', ev)]"
  let ?m = "lua_merge (cj_obj cj (store_recs view db w t)) (cj_obj cj ?u)"
  have ready: "store_ready view db ty w" using assms(1) by (simp add: dep_good_def)
  have "store_recs view db w t \<noteq> []" using assms(3) by (auto simp: rec_word_def)
  from update_granted[OF ready assms(2) this, of True ?u] obtain w' where
    w': "update_task R cj db t ?u None True w = (Inr (), w')" "store_ready view db ty w'"
      "store_recs view db w' = (store_recs view db w)(t := ?m)" by auto
  have "cj (JArr (map JStr ps)) = JArr (map JStr ps)" using cjson assms(4) by (simp add: cjson_ok_def)
  then have d: "map_of ?m ''depends_on'' = Some (JArr (map JStr ps))" by (simp add: map_of_lua_merge map_of_cj_obj)
  have items: "[s. JStr s \<leftarrow> map JStr ps] = ps" by (induction ps) auto
  have "depends_on ?m = ps" "deps_ok ?m" using d items assms(4) by (simp_all add: depends_on_def deps_ok_def)
  moreover have "rec_word ?m wd" by (rule rec_word_merge[OF assms(3)]) simp_all
  moreover note update_att[OF assms(1,2) _ w'(1)]
  ultimately show ?thesis using w' assms(1) by (intro exI[of _ w'] exI[of _ ?m]) (auto simp: dep_good_def)
qed

end

section \<open>Listing ready tasks\<close>

lemma counter_key_split: "counter_key db t = (td_task_key_prefix db @ '':'') @ t @ '':remaining_deps''"
  by (simp add: attached_key_def task_key_def)

lemma ready_candidates_mem:
  assumes "\<forall>k \<in> set keys. \<exists>mid. k = pre @ mid @ sfx"
  shows "t \<in> set (ready_candidates pre sfx keys (map f keys)) \<longleftrightarrow>
    pre @ t @ sfx \<in> set keys \<and> (f (pre @ t @ sfx) = None \<or> (\<exists>n. f (pre @ t @ sfx) = Some (TInt n) \<and> n \<le> 0))"
  using assms
proof (induction keys)
  case (Cons k keys)
  from Cons.prems obtain mid where k: "k = pre @ mid @ sfx" by auto
  have "ready_candidates pre sfx (k # keys) (map f (k # keys)) =
      (if f k = None \<or> (\<exists>n. f k = Some (TInt n) \<and> n \<le> 0) then [mid] else []) @ ready_candidates pre sfx keys (map f keys)"
    unfolding ready_candidates_def by (cases "f k"; cases "the (f k)") (auto simp: k)
  with Cons k show ?case by auto
qed (simp add: ready_candidates_def)

lemma status_filter_mem:
  "t \<in> set (concat (map (\<lambda>(tid, rec). if P rec then [tid] else []) (zip xs (map g xs)))) \<longleftrightarrow> t \<in> set xs \<and> P (g t)"
  by (induction xs) auto

context redis_dep_store
begin

lemma counter_read:
  assumes "dep_good view db ty w" "ks_vals (view (w_db w)) (counter_key db t) \<noteq> None"
  shows "r_get R (counter_key db t) (w_db w) = Some (TInt (at_remaining (dep_att view db w) t))"
proof -
  have "ty (counter_key db t) = KStr" using layout by (simp add: dep_layout_def)
  note g = get[OF well_typedD(1)[OF well_typed_of[OF assms(1)] this]]
  have "ks_vals (view (w_db w)) (counter_key db t) = None \<or> (\<exists>i. ks_vals (view (w_db w)) (counter_key db t) = Some (RStr (TInt i)))"
    using att_ok_of[OF assms(1)] by (simp add: att_ok_def)
  with assms(2) obtain i where "ks_vals (view (w_db w)) (counter_key db t) = Some (RStr (TInt i))" by auto
  then show ?thesis using g by (simp add: dep_att_def att_of_def ks_get_def rint_def)
qed

lemma redis_ready_law:
  assumes "dep_good view db ty w"
  shows "\<exists>w' xs. list_ready_dep_tasks R db scan_iter (Some st) w = (Inr xs, w') \<and> dep_good view db ty w'
    \<and> store_recs view db w' = store_recs view db w \<and> dep_att view db w' = dep_att view db w
    \<and> (\<forall>t. valid_tid t \<longrightarrow> (t \<in> set xs \<longleftrightarrow> at_counter (dep_att view db w) t \<and> at_remaining (dep_att view db w) t \<le> 0
         \<and> rec_word (store_recs view db w t) st))"
proof -
  let ?pre = "td_task_key_prefix db @ '':''" and ?sfx = "'':remaining_deps''" and ?d = "w_db w"
  let ?f = "\<lambda>key. r_get R key ?d" and ?g = "\<lambda>tid. record_of (r_get R (task_key db tid) ?d)"
  have q: "quiet w" by (rule quiet_of[OF assms])
  have "{k. ks_vals (view ?d) k \<noteq> None \<and> (\<exists>mid. k = ?pre @ mid @ ?sfx)} = counter_key db ` {q. ks_vals (view ?d) (counter_key db q) \<noteq> None}"
    unfolding counter_key_split by blast
  then have "finite {k. ks_vals (view ?d) k \<noteq> None \<and> (\<exists>mid. k = ?pre @ mid @ ?sfx)}" using att_ok_of[OF assms] by (simp add: att_ok_def)
  with scan q obtain keys n where k: "scan_iter ?pre ?sfx w = (Inr keys, w\<lparr>w_pc := n\<rparr>)"
    "set keys = {k. ks_vals (view ?d) k \<noteq> None \<and> (\<exists>mid. k = ?pre @ mid @ ?sfx)}" unfolding scan_documented_def by blast
  let ?c = "ready_candidates ?pre ?sfx keys (map ?f keys)"
  let ?xs = "sort (concat (map (\<lambda>(tid, rec). if map_of rec ''status'' = Some (JStr st) then [tid] else []) (zip ?c (map ?g ?c))))"
  have c: "t \<in> set ?c \<longleftrightarrow> at_counter (dep_att view db w) t \<and> at_remaining (dep_att view db w) t \<le> 0" for t
  proof -
    have "t \<in> set ?c \<longleftrightarrow> ?pre @ t @ ?sfx \<in> set keys \<and> (?f (?pre @ t @ ?sfx) = None \<or> (\<exists>n. ?f (?pre @ t @ ?sfx) = Some (TInt n) \<and> n \<le> 0))"
      by (rule ready_candidates_mem) (use k(2) in blast)
    moreover have "?pre @ t @ ?sfx \<in> set keys \<longleftrightarrow> ks_vals (view ?d) (counter_key db t) \<noteq> None"
      unfolding k(2) counter_key_split by blast
    ultimately show ?thesis
      using counter_read[OF assms, of t] unfolding counter_key_split[symmetric] by (auto simp: dep_att_def att_of_def)
  qed
  have g: "?g t = store_recs view db w t" if "valid_tid t" for t
    using task_get[of db ty ?d t] that assms
    by (auto simp: dep_good_def store_ready_def store_recs_def record_of_def split: option.splits)
  have mem: "\<forall>t. valid_tid t \<longrightarrow> (t \<in> set ?xs \<longleftrightarrow> at_counter (dep_att view db w) t \<and> at_remaining (dep_att view db w) t \<le> 0
         \<and> rec_word (store_recs view db w t) st)"
    unfolding set_sort status_filter_mem c rec_word_def using g by simp
  have pc: "\<exists>m. list_ready_dep_tasks R db scan_iter (Some st) w = (Inr ?xs, w\<lparr>w_pc := m\<rparr>)"
  proof (cases "keys = []")
    case True
    then show ?thesis using k(1) by (auto simp: list_ready_dep_tasks_def Let_def py_simps ready_candidates_def)
  next
    case False
    then show ?thesis using k(1) q
      by (cases "?c = []") (auto simp: list_ready_dep_tasks_def py_simps redis_read_def quiet_call bulk_get_tasks_def Let_def)
  qed
  then obtain m where m: "list_ready_dep_tasks R db scan_iter (Some st) w = (Inr ?xs, w\<lparr>w_pc := m\<rparr>)" ..
  have "dep_good view db ty (w\<lparr>w_pc := m\<rparr>)" "store_recs view db (w\<lparr>w_pc := m\<rparr>) = store_recs view db w" "dep_att view db (w\<lparr>w_pc := m\<rparr>) = dep_att view db w"
    using assms by (simp_all add: dep_good_def store_ready_def store_recs_def dep_att_def fun_eq_iff)
  with m mem show ?thesis by blast
qed

end

lemma redis_dep_storage_simps [simp]:
  "dp_base (redis_dep_storage R cj db eid ts sc) = redis_storage R cj db eid ts"
  "dp_sadd_active_child (redis_dep_storage R cj db eid ts sc) = sadd_active_child R db"
  "dp_srem_active_child (redis_dep_storage R cj db eid ts sc) = srem_active_child R db"
  "dp_get_active_children (redis_dep_storage R cj db eid ts sc) = get_active_children R db"
  "dp_set_remaining_deps (redis_dep_storage R cj db eid ts sc) = set_remaining_deps R db"
  "dp_decr_remaining_deps (redis_dep_storage R cj db eid ts sc) = decr_remaining_deps R db"
  "dp_vote_and_check_threshold (redis_dep_storage R cj db eid ts sc) = vote_and_check_threshold R db"
  "dp_clear_cancel_votes (redis_dep_storage R cj db eid ts sc) = clear_cancel_votes R db"
  "dp_list_ready_dep_tasks (redis_dep_storage R cj db eid ts sc) = list_ready_dep_tasks R db sc"
  by (simp_all add: redis_dep_storage_def)

lemma redis_storage_simps:
  "st_get_task (redis_storage R cj db eid ts) = get_task R db"
  "st_update_task (redis_storage R cj db eid ts) t u vd = update_task R cj db t u None vd"
  "st_request_cancel (redis_storage R cj db eid ts) = request_cancel R cj db"
  by (simp_all add: redis_storage_def)

sublocale redis_dep_store \<subseteq> dep: dep_store "redis_dep_storage R cj db eid timestamp scan_iter" "store_ready view db ty"
  "store_recs view db" "td_terminal_statuses db" valid_tid "dep_good view db ty" "dep_att view db"
proof (rule dep_store.intro, unfold redis_dep_storage_simps, rule storage.task_storage_axioms,
    rule dep_store_axioms.intro, unfold redis_dep_storage_simps redis_storage_simps, goal_cases)
  case (2 w t r w')
  then show ?case using get_same[of w t] by (auto simp: dep_att_def)
next
  case (3 w t u vd r w')
  then show ?case by (rule redis_update_frame)
qed (use redis_cancel_frame redis_update_deps redis_sadd_law redis_srem_law redis_children_law redis_set_law redis_decr_law
     redis_vote_law redis_clear_law redis_ready_law in \<open>simp_all add: dep_good_def\<close>)

section \<open>The store of the flow layer\<close>

definition ends_with :: "string \<Rightarrow> string \<Rightarrow> bool" where
  "ends_with x k \<longleftrightarrow> take (length x) (rev k) = rev x"

definition dep_ty :: "string \<Rightarrow> kind" where
  "dep_ty k = (if take 12 k = ''task_status:'' \<or> take 14 k = ''task_children:'' then KZset
     else if take 5 k = ''task:'' \<and> (ends_with '':active_children'' (drop 5 k) \<or> ends_with '':cancel_votes'' (drop 5 k)
       \<or> ends_with '':result_consumers'' (drop 5 k))
     then KSet else KStr)"

definition ks_scan_iter :: "string \<Rightarrow> string \<Rightarrow> (keyspace world, string list) py" where
  "ks_scan_iter pre sfx w = (Inr (sorted_list_of_set {k. ks_vals (w_db w) k \<noteq> None \<and> (\<exists>mid. k = pre @ mid @ sfx)}), w)"

lemma ends_with_colon: "CHR '':'' \<in> set x \<Longrightarrow> CHR '':'' \<notin> set t \<Longrightarrow> \<not> ends_with x t"
  unfolding ends_with_def by (metis set_rev set_take_subset subsetD)

lemma flow_dep_layout: "store_layout flow_db dep_ty" "dep_layout flow_db dep_ty"
proof -
  have "\<not> ends_with ('':'' @ x) t" if "valid_tid t" for x t
    by (rule ends_with_colon) (use that in \<open>simp_all add: valid_tid_def\<close>)
  from this[of _ "''active_children''"] this[of _ "''cancel_votes''"] this[of _ "''result_consumers''"]
  show "store_layout flow_db dep_ty"
    by (simp add: store_layout_def flow_db_def dep_ty_def task_key_def status_index_key_def children_key_def)
  show "dep_layout flow_db dep_ty"
    by (simp add: dep_layout_def dep_ty_def attached_key_def task_key_def flow_db_def ends_with_def)
qed

lemma ks_scan_documented: "scan_documented (\<lambda>ks. ks) ks_scan_iter"
  unfolding scan_documented_def
proof (intro allI impI)
  fix pre sfx and w :: "keyspace world"
  assume "finite {k. ks_vals (w_db w) k \<noteq> None \<and> (\<exists>mid. k = pre @ mid @ sfx)}"
  then show "\<exists>keys n. ks_scan_iter pre sfx w = (Inr keys, w\<lparr>w_pc := n\<rparr>)
      \<and> set keys = {k. ks_vals (w_db w) k \<noteq> None \<and> (\<exists>mid. k = pre @ mid @ sfx)}"
    by (intro exI[of _ "sorted_list_of_set {k. ks_vals (w_db w) k \<noteq> None \<and> (\<exists>mid. k = pre @ mid @ sfx)}"] exI[of _ "w_pc w"])
      (simp add: ks_scan_iter_def)
qed

interpretation governed: redis_dep_store ks_redis "\<lambda>ks. ks" demo_cj flow_db dep_ty "''e1''" "''now''" ks_scan_iter
  by unfold_locales (simp_all add: flow_dep_layout ks_scan_documented)

section \<open>The governor on the Redis store\<close>

text \<open>A governor wired to the task store and its lifecycle, and a store nobody else acts on.\<close>

definition governed_by ::
  "'r redis \<Rightarrow> ('r \<Rightarrow> keyspace) \<Rightarrow> (json \<Rightarrow> json) \<Rightarrow> task_db \<Rightarrow> (string \<Rightarrow> kind) \<Rightarrow>
   (string \<Rightarrow> string \<Rightarrow> ('r world, string list) py) \<Rightarrow> 'r world governor \<Rightarrow> 'r world \<Rightarrow> bool" where
  "governed_by R view cj db ty scan_iter G w \<longleftrightarrow>
     (\<exists>eid ts. redis_dep_store R view cj db ty scan_iter \<and> wired (redis_dep_storage R cj db eid ts scan_iter) G)
     \<and> observers_ok (dep_good view db ty) (store_recs view db) (dep_att view db) G
     \<and> dep_good view db ty w \<and> lineage_ok valid_tid (store_recs view db w)"

context redis_dep_store
begin

lemmas register_outcome = dep.register_outcome
lemmas ready_when_notified = dep.ready_when_notified
lemmas counted_twice = dep.counted_twice

end


text \<open>C17. After an accepted registration of a task that waits with the ready status, has no votes, is not yet listed as anybody's
  child and has a parent that has not failed, and the notification that some tasks have
  succeeded, each once and in any order, the task is listed as ready exactly when every parent that was running at the
  registration is among the notified.  Store, governor and ancestors are as for the outcome of a registration.\<close>

theorem ready_iff_parents_notified:
  assumes "governed_by R view cj db ty scan_iter G w" "shallow (store_recs view db w) parents"
    "valid_tid c" "\<forall>p \<in> set parents. valid_tid p" "register_error (store_recs view db w) c parents pp ex = None"
    "rec_word (store_recs view db w c) (gv_ready_status G)" "gv_ready_status G = status_value st"
    "at_votes (dep_att view db w) c = {}" "\<forall>p. c \<notin> at_active (dep_att view db w) p"
    "\<forall>q. \<forall>x \<in> at_active (dep_att view db w) q. valid_tid x"
    "\<exists>p \<in> set parents. \<not> (gv_is_terminal G (store_recs view db w p) \<and> \<not> gv_is_success G (store_recs view db w p))"
    "distinct ns" "\<forall>p \<in> set ns. valid_tid p" "c \<notin> set ns" "\<forall>p \<in> set ns. word p \<in> gv_success_words G"
  shows "\<exists>ready u. py_seq (register_dependency G c parents pp ex)
      (py_seq (py_for ns (\<lambda>p. notify_task_terminal G p (word p))) (get_ready_tasks G)) w = (Inr ready, u)
    \<and> (c \<in> set ready \<longleftrightarrow> set (running_parents G (store_recs view db w) parents) \<subseteq> set ns)"
proof -
  from assms(1) obtain eid ts where g: "redis_dep_store R view cj db ty scan_iter" "wired (redis_dep_storage R cj db eid ts scan_iter) G"
    "observers_ok (dep_good view db ty) (store_recs view db) (dep_att view db) G" "dep_good view db ty w" "lineage_ok valid_tid (store_recs view db w)"
    unfolding governed_by_def by blast
  show ?thesis
    by (rule redis_dep_store.ready_when_notified[OF g assms(2,3,6-9,4,5,11,10,12-15)])
qed

text \<open>The second look of a registration counts a parent twice: when one of two running parents succeeds, and is notified,
  after the registration has written the counter and before it looks again, the counter ends at zero while the other parent
  is still running.\<close>

theorem registration_counts_twice:
  assumes "governed_by R view cj db ty scan_iter G w" "valid_tid c" "valid_tid a" "valid_tid b" "a \<noteq> b" "c \<noteq> a" "c \<noteq> b"
    "rec_word (store_recs view db w c) wc" "at_votes (dep_att view db w) c = {}"
    "rec_word (store_recs view db w a) wa" "wa \<notin> set (td_terminal_statuses db)"
    "rec_word (store_recs view db w b) wb" "wb \<notin> gv_terminal_words G"
    "ws \<in> gv_terminal_words G" "ws \<in> gv_success_words G"
    "at_active (dep_att view db w) a = {}" "depends_on (store_recs view db w a) = []"
  shows "\<exists>u t. py_bind (registration_writes G c [a, b] a [] [a, b] []) (\<lambda>triggered.
      py_seq (st_update_task (dp_base (gv_storage G)) a [(''status'', JStr ws)] False)
     (py_seq (notify_task_terminal G a ws) (registration_recheck G c 2 [a, b] triggered))) w = (Inr t, u)
    \<and> at_remaining (dep_att view db u) c = 0 \<and> store_recs view db u b = store_recs view db w b"
proof -
  from assms(1) obtain eid ts where g: "redis_dep_store R view cj db ty scan_iter" "wired (redis_dep_storage R cj db eid ts scan_iter) G"
    "dep_good view db ty w" unfolding governed_by_def by blast
  have D: "gv_storage G = redis_dep_storage R cj db eid ts scan_iter" using g(2) by (simp add: wired_def)
  show ?thesis unfolding D
    by (rule redis_dep_store.counted_twice[OF g assms(2,8,9,3-7,10-17)])
qed

section \<open>A store with two running parents\<close>

definition demo_task :: "string \<Rightarrow> string \<Rightarrow> keyspace \<Rightarrow> keyspace" where
  "demo_task t st = ks_put (task_key flow_db t) (Some (RStr (TJson (JObj [(''status'', JStr st)])))) None"

definition demo_tasks :: keyspace where
  "demo_tasks = demo_task ''a'' ''running'' (demo_task ''b'' ''running'' (demo_task ''c'' ''pending'' (empty_ks 0)))"

definition demo_governor :: "keyspace world governor" where
  "demo_governor = \<lparr>gv_storage = redis_dep_storage ks_redis demo_cj flow_db ''e1'' ''now'' ks_scan_iter,
     gv_success_words = {''succeeded''}, gv_terminal_words = DEFAULT_TERMINAL_WORDS, gv_ready_status = DEFAULT_READY_STATUS,
     gv_lifecycle_cancel = Some (lc_cancel (redis_storage ks_redis demo_cj flow_db ''e1'' ''now'')),
     gv_audit = None, gv_dep_graph_store = None, gv_clock = (\<lambda>_. 0), gv_str = (\<lambda>_. [])\<rparr>"

lemma demo_tasks_recs:
  "store_recs (\<lambda>ks. ks) flow_db (quiet_world demo_tasks) t =
     (if t = ''a'' \<or> t = ''b'' then [(''status'', JStr ''running'')] else if t = ''c'' then [(''status'', JStr ''pending'')] else [])"
  by (simp add: store_recs_def abs_store_def task_entry_def demo_tasks_def demo_task_def valid_tid_def)

lemma demo_tasks_vals: "ks_vals demo_tasks (attached_key flow_db q x) = None"
  using attached_not_task[of "''a''" flow_db q x] attached_not_task[of "''b''" flow_db q x] attached_not_task[of "''c''" flow_db q x]
  by (simp add: demo_tasks_def demo_task_def valid_tid_def)

lemma demo_tasks_att: "dep_att (\<lambda>ks. ks) flow_db (quiet_world demo_tasks)
    = \<lparr>at_active = (\<lambda>_. {}), at_remaining = (\<lambda>_. 0), at_votes = (\<lambda>_. {}), at_counter = (\<lambda>_. False)\<rparr>"
  by (simp add: dep_att_def att_of_def ks_set_def ks_get_def rint_def demo_tasks_vals)

lemma demo_tasks_good: "dep_good (\<lambda>ks. ks) flow_db dep_ty (quiet_world demo_tasks)"
proof -
  have "store_ok flow_db dep_ty demo_tasks" unfolding demo_tasks_def demo_task_def
    by (intro store_ok_put_record) (simp_all add: store_ok_def flow_dep_layout valid_tid_def)
  moreover have "att_ok flow_db demo_tasks" by (simp add: att_ok_def ks_set_def demo_tasks_vals)
  moreover have "deps_ok (store_recs (\<lambda>ks. ks) flow_db (quiet_world demo_tasks) t)" for t by (simp add: deps_ok_def demo_tasks_recs)
  moreover have "r \<noteq> []" if "as_rec (abs_store flow_db demo_tasks) t = Some (r, dl)" for t r dl
    using that by (auto simp: abs_store_def task_entry_def demo_tasks_def demo_task_def split: if_splits)
  ultimately show ?thesis by (auto simp: dep_good_def store_ready_def quiet_def)
qed

lemma demo_governed: "governed_by ks_redis (\<lambda>ks. ks) demo_cj flow_db dep_ty ks_scan_iter demo_governor (quiet_world demo_tasks)"
  unfolding governed_by_def
  by (intro conjI exI[of _ "''e1''"] exI[of _ "''now''"])
    (use governed.redis_dep_store_axioms in \<open>simp_all add: demo_tasks_good wired_def observers_ok_def demo_governor_def lineage_ok_def
       anc_rel_def ancestors_popped_def str_field_def depends_on_def demo_tasks_recs\<close>)

lemma demo_no_lineage: "anc_rel (store_recs (\<lambda>ks. ks) flow_db (quiet_world demo_tasks)) = {}"
  by (simp add: anc_rel_def ancestors_popped_def str_field_def depends_on_def demo_tasks_recs)

lemma demo_registers:
  "shallow (store_recs (\<lambda>ks. ks) flow_db (quiet_world demo_tasks)) [''a'', ''b'']"
  "register_error (store_recs (\<lambda>ks. ks) flow_db (quiet_world demo_tasks)) ''c'' [''a'', ''b''] None None = None"
  unfolding shallow_def register_error_def demo_no_lineage
  by (rule exI[of _ "{''a'', ''b''}"]) (simp_all add: MAX_LINEAGE_DEPTH_def demo_tasks_recs chosen_primary_def dedupe_def)

lemma demo_words:
  "rec_word (store_recs (\<lambda>ks. ks) flow_db (quiet_world demo_tasks) ''c'') ''pending''"
  "\<not> gv_is_terminal demo_governor (store_recs (\<lambda>ks. ks) flow_db (quiet_world demo_tasks) ''a'')"
  "\<not> gv_is_terminal demo_governor (store_recs (\<lambda>ks. ks) flow_db (quiet_world demo_tasks) ''b'')"
  by (simp_all add: rec_word_def demo_tasks_recs gv_is_terminal_def status_in_def demo_governor_def DEFAULT_TERMINAL_WORDS_def)

lemma demo_valid: "valid_tid ''a''" "valid_tid ''b''" "valid_tid ''c''"
  by (simp_all add: valid_tid_def)


theorem ready_iff_parents_notified_witness:
  "\<exists>ready u. py_seq (register_dependency demo_governor ''c'' [''a'', ''b''] None None)
      (py_seq (py_for [''a'', ''b''] (\<lambda>p. notify_task_terminal demo_governor p ''succeeded'')) (get_ready_tasks demo_governor))
      (quiet_world demo_tasks) = (Inr ready, u) \<and> ''c'' \<in> set ready"
proof -
  have d: "gv_ready_status demo_governor = status_value PENDING" "''succeeded'' \<in> gv_success_words demo_governor"
    by (simp_all add: demo_governor_def DEFAULT_READY_STATUS_def)
  have "set (running_parents demo_governor (store_recs (\<lambda>ks. ks) flow_db (quiet_world demo_tasks)) [''a'', ''b'']) \<subseteq> set [''a'', ''b'']"
    by (auto simp: running_parents_def)
  with ready_iff_parents_notified[OF demo_governed demo_registers(1) demo_valid(3) _ demo_registers(2) _ d(1), where ns = "[''a'', ''b'']"
      and word = "\<lambda>_. ''succeeded''"]
  show ?thesis by (simp add: demo_valid demo_words d demo_tasks_att)
qed

theorem registration_counts_twice_witness:
  "\<exists>u t. py_bind (registration_writes demo_governor ''c'' [''a'', ''b''] ''a'' [] [''a'', ''b''] []) (\<lambda>triggered.
      py_seq (st_update_task (dp_base (gv_storage demo_governor)) ''a'' [(''status'', JStr ''succeeded'')] False)
     (py_seq (notify_task_terminal demo_governor ''a'' ''succeeded'') (registration_recheck demo_governor ''c'' 2 [''a'', ''b''] triggered)))
      (quiet_world demo_tasks) = (Inr t, u)
    \<and> at_remaining (dep_att (\<lambda>ks. ks) flow_db u) ''c'' = 0 \<and> rec_word (store_recs (\<lambda>ks. ks) flow_db u ''b'') ''running''"
proof -
  have r: "rec_word (store_recs (\<lambda>ks. ks) flow_db (quiet_world demo_tasks) ''a'') ''running''"
    "rec_word (store_recs (\<lambda>ks. ks) flow_db (quiet_world demo_tasks) ''b'') ''running''"
    "depends_on (store_recs (\<lambda>ks. ks) flow_db (quiet_world demo_tasks) ''a'') = []"
    by (simp_all add: rec_word_def demo_tasks_recs depends_on_def)
  have g: "''running'' \<notin> set (td_terminal_statuses flow_db)" "''running'' \<notin> gv_terminal_words demo_governor"
    "''succeeded'' \<in> gv_terminal_words demo_governor" "''succeeded'' \<in> gv_success_words demo_governor"
    by (simp_all add: demo_governor_def DEFAULT_TERMINAL_WORDS_def flow_db_def taskflow_terminal_statuses_def)
  from registration_counts_twice[OF demo_governed demo_valid(3,1,2) _ _ _ demo_words(1) _ r(1) g(1) r(2) g(2-4) _ r(3)]
  show ?thesis using r(2) by (simp add: demo_tasks_att) metis
qed

end
