(* ===== verification/Spec2Isabelle.thy ===== *)
theory Spec2Isabelle
  imports Stage Semaphore Token_Bucket Task_Store_Spec Lifecycle Workflow_Run Delivery Enrich Snapshot_Refine Dependency_Store
begin

text \<open>
  A verification library for the orditect task runtime, a Python monorepo.  Paths below are relative to
  \<^verbatim>\<open>src/packages/<package>/src/orditect/<package>/\<close>, the package first.

  \<^bold>\<open>The program.\<close>  The package \<^verbatim>\<open>core\<close> keeps shared state in Redis: a lease semaphore, a token bucket and a task store, each a Lua
  script with a Python client.  The package \<^verbatim>\<open>flow\<close> runs tasks on that store: their lifecycle, the governance of dependencies
  between them, and workflows with retries and compensation.  The package \<^verbatim>\<open>stream\<close> turns the output of language models into
  events: a stage cuts a source into text, thinking, references and marker hits; a marker hit is enriched in the background; the
  events of all streams meet in a multiplexer, are numbered, written as server-sent events and read back by a client, with a
  grace period for a client that disconnects; a manifest closes the stream.  The package \<^verbatim>\<open>protocol\<close> defines snapshots
  of tasks and how rows of them merge; \<^verbatim>\<open>adapter-memory\<close> and \<^verbatim>\<open>adapter-local\<close> store them.

  \<^bold>\<open>How code becomes definitions.\<close>  A coroutine is a function from a state to an exception or a value and the new state
  (\<^verbatim>\<open>Prelude\<close>: return, raise, bind, except, finally, for, with a small Hoare logic).  An asynchronous generator is the list of the items it
  yields, in order, together with the readings of the clock.  A Lua script is one step on the server.  Concurrency is explicit: either a
  step relation with reachability (multiplexer, enrichment, semaphore, bucket, store runs), or a world whose other clients act,
  and whose connection may fail, before every call.  Ghost fields of a step relation record what was put and what was yielded; no step reads them.
  Dictionaries are association lists with distinct keys; where Python compares or merges them the order does not count.
  Numbers that Python and Lua keep as floats are reals.  Text whose characters matter is a list of code points, other text a
  \<^verbatim>\<open>string\<close>.

  \<^bold>\<open>Code outside the repository\<close> is a parameter with its documented behaviour as the assumptions of a locale:
  \<^item> Redis: the record \<^verbatim>\<open>redis\<close> of commands and the locale \<^verbatim>\<open>redis_service\<close> (\<^verbatim>\<open>Redis_Service\<close>), interpreted by \<^verbatim>\<open>ks_redis\<close>, a keyspace with deadlines;
  \<^item> the JSON round trip inside Lua: the function \<^verbatim>\<open>cj\<close> with the law \<^verbatim>\<open>cjson_ok\<close>; the iterator of SCAN: \<^verbatim>\<open>scan_documented\<close>;
  \<^item> pydantic: the record \<^verbatim>\<open>pydantic\<close> and the locale \<^verbatim>\<open>pydantic_model\<close> (\<^verbatim>\<open>Snapshot\<close>), interpreted by \<^verbatim>\<open>ref_pydantic\<close>;
  \<^item> callbacks, hooks, handlers, the enricher, the resource governor of a stage, the audit writer, the graph store and the text of a JSON payload:
    arguments, without assumptions unless a theorem names them.

  \<^bold>\<open>Theories, in the order of their imports.\<close>
  \<^item> \<^verbatim>\<open>Prelude\<close>: coroutines, exceptions, dictionaries, text, and the rules for them.
  \<^item> \<^verbatim>\<open>Text_Pipeline\<close> (\<^verbatim>\<open>stream/pipeline/newline.py\<close>, \<^verbatim>\<open>tail.py\<close>, \<^verbatim>\<open>thinking.py\<close>) and \<^verbatim>\<open>Marker\<close> (\<^verbatim>\<open>pipeline/marker.py\<close>): every middleware
    is compared with what it does to the whole text; chunk boundaries, flush triggers and clock readings cancel out.
  \<^item> \<^verbatim>\<open>Stage\<close> (\<^verbatim>\<open>stream/stages/stage.py\<close>): the source, the chain of splitter, demux, interception and detector (\<^verbatim>\<open>stage_pipeline\<close>), the loop that
    pulls it with cancellation and drain deadline (\<^verbatim>\<open>stage_loop\<close>), acquire and release (\<^verbatim>\<open>stage_run\<close>).  Content, offsets and
    thinking are those of cutting the source's text at once.
  \<^item> \<^verbatim>\<open>Redis_Service\<close>, \<^verbatim>\<open>Semaphore\<close> (\<^verbatim>\<open>core/limiter/semaphore.py\<close>, \<^verbatim>\<open>lease.py\<close>, \<^verbatim>\<open>lua/sem_*.lua\<close>) and \<^verbatim>\<open>Token_Bucket\<close> (\<^verbatim>\<open>limiter/bucket.py\<close>,
    \<^verbatim>\<open>lua/bucket_acquire.lua\<close>): capacity, no early eviction, return of a slot on failure; the rate limit over all runs.
  \<^item> \<^verbatim>\<open>Status\<close> (\<^verbatim>\<open>core/task/status.py\<close>, \<^verbatim>\<open>flow/core/state_machine.py\<close>), \<^verbatim>\<open>Task_Store\<close> (\<^verbatim>\<open>core/redis/task_db.py\<close>, \<^verbatim>\<open>lua/task_*.lua\<close>) and
    \<^verbatim>\<open>Task_Store_Spec\<close>: each script refines an operation of an abstract store, and invariants of its runs (terminal protection, index soundness,
    one winner of a reopening) carry over.
  \<^item> \<^verbatim>\<open>Lifecycle\<close> (\<^verbatim>\<open>flow/core/lifecycle.py\<close>): over any storage with the contract \<^verbatim>\<open>task_storage\<close>, which the Redis store has
    (\<^verbatim>\<open>redis_task_store\<close>).
  \<^item> \<^verbatim>\<open>Dependency\<close> (\<^verbatim>\<open>flow/governance/dependency.py\<close>), \<^verbatim>\<open>Dependency_Spec\<close> and \<^verbatim>\<open>Dependency_Store\<close>: the governor over any storage with the
    contract \<^verbatim>\<open>dep_store\<close>, an extension of \<^verbatim>\<open>task_storage\<close>, which the Redis store has (\<^verbatim>\<open>redis_dep_store\<close>): what a registration does on every branch, and that a
    task is listed as ready exactly when its running parents have been notified.
  \<^item> \<^verbatim>\<open>Workflow_Dag\<close> and \<^verbatim>\<open>Workflow_Run\<close> (\<^verbatim>\<open>flow/workflow/\<close>, \<^verbatim>\<open>flow/retry/\<close>): acceptance of a graph is acyclicity, order and groups respect the
    dependencies, retries, and compensation in reverse order.
  \<^item> \<^verbatim>\<open>SSE\<close> (\<^verbatim>\<open>stream/sse/\<close>, \<^verbatim>\<open>stream/client/sse_reader.py\<close>, \<^verbatim>\<open>stream/events/envelope.py\<close>): the client reads back what the server writes.
  \<^item> \<^verbatim>\<open>Mux\<close> (\<^verbatim>\<open>stream/mux/multiplexer.py\<close>): every interleaving of producers, waiting puts, closing and the consumer.  A producer may emit
    and close at any time; what was put before the last close is delivered in order, what waits at that moment may be lost.
  \<^item> \<^verbatim>\<open>Delivery\<close> (\<^verbatim>\<open>stream/runner/runner.py\<close>, \<^verbatim>\<open>stream/disconnect/\<close>, \<^verbatim>\<open>stream/core/cancellation.py\<close>): disconnection, reconnection, grace buffer, cancellation.
  \<^item> \<^verbatim>\<open>Events\<close> (\<^verbatim>\<open>stream/events/payloads.py\<close>) and \<^verbatim>\<open>Enrich\<close> (\<^verbatim>\<open>stream/enrich/\<close>, \<^verbatim>\<open>stream/finalizer/manifest.py\<close>): the interleaving of enrichment tasks with the
    settle window, and what the manifest says of each placeholder.
  \<^item> \<^verbatim>\<open>Snapshot\<close> (\<^verbatim>\<open>protocol/models/\<close>, \<^verbatim>\<open>protocol/mechanism.py\<close>, \<^verbatim>\<open>adapter/memory/parts/snapshot.py\<close>), \<^verbatim>\<open>Snapshot_Spec\<close>, \<^verbatim>\<open>Snapshot_Local\<close>
    (\<^verbatim>\<open>adapter/local/parts/snapshot.py\<close>) and \<^verbatim>\<open>Snapshot_Refine\<close>: both adapters against the contract, reads and writes.
  \<^item> This theory joins multiplexer, delivery and server-sent events from the producer to the client.

  \<^bold>\<open>Termination and bounds.\<close>  The scan of the marker detector never returns for an empty marker; not returning is the value None, and
  the theorems show that it returns otherwise.  The depth-first searches and Kahn's loop are total, by measures on the unvisited steps.  The walks over
  ancestors and descendants carry the code's own depth bounds (32) as their fuel; theorems about them assume that no more than that many tasks are involved and
  say so.  The rate limit holds for intervals of at least a millisecond and counts an interval in whole milliseconds, as the script does.

  \<^bold>\<open>Not modelled.\<close>  The executor and orchestrator of \<^verbatim>\<open>flow\<close>, its schedulers, budgets, call governance, recovery, callbacks and progress; the producer task of a
  substream; the limiter registry, decorators, quota store and connection pools of \<^verbatim>\<open>core\<close>; the web layer, the result stores and the resolver of \<^verbatim>\<open>stream\<close>; the
  conformance suite of \<^verbatim>\<open>protocol\<close>; the other parts of the adapters; the user interface adapter and the OpenAI bridge.  They compose the modelled operations with
  calls of the application or are input and output.  Within the modelled parts: logging, hooks where they only observe, floating-point rounding, a source that
  raises in the middle of a stage, the bytes of the local log, and the heartbeat task (heartbeats may appear between any two frames).
\<close>

section \<open>Producer to client\<close>

text \<open>C35. From producer to client.  Producers put events into the multiplexer in any interleaving, no put waits for room when the last
  stream is closed, and the consumer loop ends without a forced close; the runner consumes what the multiplexer yields while the client disconnects and reconnects under the grace policy, is not
  cancelled, ends connected and was never told of a gap; the writer encodes what reaches the client, with heartbeats
  anywhere in between, and the bytes arrive in chunks cut between characters.  Stream ids contain no line feed and do not begin
  with white space.  Then the client parses exactly the
  events that were put, in order, numbered from one without a gap in every stream.\<close>

theorem producer_to_client:
  assumes mux: "mux_reach maxsize bp s" "\<not> ms_forced s" "ms_done s" "ms_closing s = Some (early, [])"
    and run: "consumed inputs = ms_out s" "\<forall>i \<in> set inputs. no_cancel_call i"
      "d = fold rn_step inputs (delivery_init (runner_init n bp' GRACE sids))"
    and connected: "\<not> mo_cancelled (rn_monitor (dl_runner d))" "\<not> mo_disconnected (rn_monitor (dl_runner d))" "\<not> dl_gap d"
    and ids: "\<forall>it \<in> set (ms_sent s). clean_stream_id (qi_stream_id it)"
    and written: "sent_events items = dl_client d" "map (\<lambda>i. frame_encode (item_frame dumps i)) items = map Inr frames"
    and read: "map utf8_encode texts = map Inr chunks" "concat chunks = concat frames"
  shows "\<exists>evs. map item_of evs = ms_sent s \<and> (\<forall>sid. seqs_of sid evs = [1..int (length (seqs_of sid evs))])
    \<and> map (\<lambda>f. (rf_event f, rf_id f, rf_data f)) (sse_parse chunks) =
        map (\<lambda>(env, ty). (lit (event_value ty), Some (sse_id env), crlf_sub (dumps (to_payload env)))) evs"
proof (intro exI conjI allI)
  note I = reach_invariant[OF mux(1)]
  have "lossless s" using I mux(2) by blast
  from delivered_at_end[OF this mux(3)] mux(4) show sent: "map item_of (ms_out s) = ms_sent s" by auto
  have num: "numbered s" using I by blast
  show "seqs_of sid (ms_out s) = [1..int (length (seqs_of sid (ms_out s)))]" for sid
    using num unfolding numbered_def by blast
  have client: "dl_client d = ms_out s"
    using grace_delivery[OF run(2,3) connected(1)] connected(2,3) run(1) by (auto simp: grace_inv_def Let_def)
  have "\<forall>(env, ty) \<in> set (sent_events items). clean_stream_id (ev_stream_id env)"
  proof (clarsimp simp: written(1) client)
    fix env ty assume "(env, ty) \<in> set (ms_out s)"
    then have "item_of (env, ty) \<in> set (ms_sent s)" by (metis sent image_eqI list.set_map)
    with ids show "clean_stream_id (ev_stream_id env)" by (auto simp: item_of_def)
  qed
  from sse_parse_sent[OF this written(2) read]
  show "map (\<lambda>f. (rf_event f, rf_id f, rf_data f)) (sse_parse chunks) =
      map (\<lambda>(env, ty). (lit (event_value ty), Some (sse_id env), crlf_sub (dumps (to_payload env)))) (ms_out s)"
    by (auto simp: written(1) client read_back_def frame_from_envelope_def rf_data_def)
qed

theorem producer_to_client_witness:
  "map (\<lambda>f. (rf_event f, rf_id f)) (sse_parse [lit ''id: s:1'' @ [LF] @ lit ''event: stream.end'' @ [LF] @ lit ''data: {}'' @ [LF, LF]])
    = [(lit ''stream.end'', Some (lit ''s:1''))]"
proof -
  obtain s :: "jdict mux_system" where s: "mux_reach 1 BLOCK s" "\<not> ms_forced s" "ms_done s" "ms_sent s = [demo_item []]"
      "ms_out s = [demo_out []]" "ms_closing s = Some ([demo_item []], [])" using demo_run[of "[]"] by blast
  define d where d: "d = fold rn_step [Consume (demo_out [])] (delivery_init (runner_init 1 BLOCK GRACE [lit ''s'']))"
  have dd: "\<not> mo_cancelled (rn_monitor (dl_runner d))" "\<not> mo_disconnected (rn_monitor (dl_runner d))" "\<not> dl_gap d" "dl_client d = [demo_out []]"
    by (simp_all add: d demo_out_def demo_delivery_defs content_text_def)
  let ?text = "lit ''id: s:1'' @ [LF] @ lit ''event: stream.end'' @ [LF] @ lit ''data: {}'' @ [LF, LF]"
  have c: "consumed [Consume (demo_out [])] = ms_out s" "\<forall>i \<in> set [Consume (demo_out [])]. no_cancel_call i"
    by (simp_all add: s(5) consumed_def no_cancel_call_def)
  have i: "\<forall>it \<in> set (ms_sent s). clean_stream_id (qi_stream_id it)"
    by (simp add: s(4) demo_item_def new_item_def clean_stream_id_def is_space_def lit_def)
  have w: "sent_events [Some (demo_out [])] = dl_client d"
    "map (\<lambda>i. frame_encode (item_frame (\<lambda>_. lit ''{}'') i)) [Some (demo_out [])] = map Inr [?text]" "map utf8_encode [?text] = map Inr [?text]"
    by (simp_all add: dd(4) demo_out_def frame_encode_def frame_lines_def utf8_encode_def frame_from_envelope_def sse_id_def dec_int_def dec_nat.simps
        scalar_def utf8_bytes_def lit_def)
  obtain evs where "map item_of evs = ms_sent s \<and> (\<forall>sid. seqs_of sid evs = [1..int (length (seqs_of sid evs))])
      \<and> map (\<lambda>f. (rf_event f, rf_id f, rf_data f)) (sse_parse [?text]) =
        map (\<lambda>(env, ty). (lit (event_value ty), Some (sse_id env), crlf_sub (lit ''{}''))) evs"
    using producer_to_client[OF s(1-3,6) c d dd(1-3) i w refl] by (rule exE)
  note e = this[THEN conjunct1, unfolded s(4)] this[THEN conjunct2, THEN conjunct1] this[THEN conjunct2, THEN conjunct2]
  obtain env ty where ev: "evs = [(env, ty)]" "ev_stream_id env = lit ''s''" "ty = STREAM_END"
    using e(1) by (auto simp: item_of_def demo_item_def new_item_def)
  have "seqs_of (lit ''s'') evs = [ev_seq env]" by (simp add: ev seqs_of_def)
  moreover have "seqs_of (lit ''s'') evs = [1..int (length (seqs_of (lit ''s'') evs))]" using e(2) by blast
  ultimately have "ev_seq env = 1" by simp
  with arg_cong[OF e(3), of "map (\<lambda>(a, b, c). (a, b))"] show ?thesis
    by (simp add: ev o_def split_beta sse_id_def dec_int_def dec_nat.simps lit_def)
qed

end
